(* ===== verification/Prelude.thy ===== *)
theory Prelude
  imports Main "HOL-Library.Word"
begin

text \<open>
  The vocabulary shared by every theory of the development: the machine integers and the
  byte-addressed memory the C and C++ sources run on, little-endian multi-byte accesses,
  the bit tricks used by the optimised string routines (\<^verbatim>\<open>repeat_byte\<close>,
  \<^verbatim>\<open>has_zero_byte\<close>, \<^verbatim>\<open>pmovmskb\<close>, \<^verbatim>\<open>ctz\<close>), and the closed-form
  specifications \<open>blit\<close>, \<open>fill\<close> and \<open>find_byte\<close> that the routines are proved equal to.
\<close>

unbundle bit_operations_syntax

section \<open>Machine integers and memory\<close>

type_synonym u8 = "8 word"
type_synonym u16 = "16 word"
type_synonym u32 = "32 word"
type_synonym u64 = "64 word"
type_synonym addr = "64 word"
type_synonym size_t = "64 word"
type_synonym mem = "64 word \<Rightarrow> 8 word"

named_theorems mem_spec \<open>closed forms of the memory routines\<close>
named_theorems loop_simps \<open>one-step unfoldings of modelled loops\<close>

abbreviation SIZE_MAX :: size_t where
  "SIZE_MAX \<equiv> -1"

definition load_bytes :: "mem \<Rightarrow> addr \<Rightarrow> nat \<Rightarrow> u8 list" where
  "load_bytes m a n = map (\<lambda>i. m (a + of_nat i)) [0..<n]"

primrec store_bytes :: "mem \<Rightarrow> addr \<Rightarrow> u8 list \<Rightarrow> mem" where
  "store_bytes m a [] = m"
| "store_bytes m a (b # bs) = store_bytes (m(a := b)) (a + 1) bs"

text \<open>A 64-bit value as its eight little-endian bytes, and back.\<close>

definition bytes_of_u64 :: "u64 \<Rightarrow> u8 list" where
  "bytes_of_u64 w = map (\<lambda>i. ucast (drop_bit (8 * i) w)) [0..<8]"

definition u64_of_bytes :: "u8 list \<Rightarrow> u64" where
  "u64_of_bytes bs = word_of_int (horner_sum uint 256 bs)"

definition load64 :: "mem \<Rightarrow> addr \<Rightarrow> u64" where
  "load64 m a = u64_of_bytes (load_bytes m a 8)"

definition store64 :: "mem \<Rightarrow> addr \<Rightarrow> u64 \<Rightarrow> mem" where
  "store64 m a w = store_bytes m a (bytes_of_u64 w)"

subsection \<open>Closed forms\<close>

text \<open>
  \<open>blit m d s n\<close> is memory \<open>m\<close> after the \<open>n\<close> bytes at \<open>s\<close> have been placed at \<open>d\<close>;
  \<open>fill m d c n\<close> after \<open>n\<close> bytes at \<open>d\<close> have been set to \<open>c\<close>. Both are total in the
  address: the distance \<open>a - d\<close> wraps as pointer arithmetic does.
\<close>

definition blit :: "mem \<Rightarrow> addr \<Rightarrow> addr \<Rightarrow> nat \<Rightarrow> mem" where
  "blit m d s n = (\<lambda>a. if unat (a - d) < n then m (s + (a - d)) else m a)"

definition fill :: "mem \<Rightarrow> addr \<Rightarrow> u8 \<Rightarrow> nat \<Rightarrow> mem" where
  "fill m d c n = (\<lambda>a. if unat (a - d) < n then c else m a)"

definition find_byte :: "mem \<Rightarrow> addr \<Rightarrow> u8 \<Rightarrow> nat \<Rightarrow> nat option" where
  "find_byte m s c n = find (\<lambda>i. m (s + of_nat i) = c) [0..<n]"

text \<open>\<open>cstr m s k\<close>: the bytes at \<open>s\<close> are a C string of length \<open>k\<close>.\<close>

definition cstr :: "mem \<Rightarrow> addr \<Rightarrow> nat \<Rightarrow> bool" where
  "cstr m s k \<longleftrightarrow> m (s + of_nat k) = 0 \<and> (\<forall>i<k. m (s + of_nat i) \<noteq> 0)"

section \<open>Word arithmetic\<close>

lemma unat_of_nat64 [simp]: "n < 2 ^ 64 \<Longrightarrow> unat (of_nat n :: 64 word) = n"
  by (simp add: unat_of_nat take_bit_nat_eq_self)

lemma unat_lt64: "unat (x :: 64 word) < 18446744073709551616"
  using unsigned_less [of x] by simp

lemma of_nat_2_64 [simp]: "(18446744073709551616 :: 64 word) = 0"
  by simp

lemma unat_sub64:
  "unat (x - y :: 64 word) =
     (if unat y \<le> unat x then unat x - unat y else unat x + 2 ^ 64 - unat y)"
  by (simp add: unat_sub_if')

lemma unat_sub_of_nat64:
  "k \<le> 2 ^ 64 \<Longrightarrow> unat (x - of_nat k :: 64 word) =
     (if k \<le> unat x then unat x - k else unat x + 2 ^ 64 - k)"
  using unat_lt64 [of x] by (cases "k = 2 ^ 64") (simp_all add: unat_sub64)

lemma unat_add64: "unat x + i < 2 ^ 64 \<Longrightarrow> unat (x + of_nat i :: 64 word) = unat x + i"
  by (simp add: unat_word_ariths)

text \<open>A counted loop that subtracts \<open>w * length ks\<close> makes progress.\<close>

lemma loop_decrease [simp]:
  "0 < w \<Longrightarrow> ks \<noteq> [] \<Longrightarrow> w * length ks \<le> n \<Longrightarrow> n - w * length ks < (n :: nat)"
  by (cases ks; cases w) auto

section \<open>Composing the closed forms\<close>

lemma blit_0 [simp]: "blit m d s 0 = m"
  by (simp add: blit_def)

lemma fill_0 [simp]: "fill m d c 0 = m"
  by (simp add: fill_def)

lemma blit_self [simp]: "blit m d d n = m"
  by (rule ext) (simp add: blit_def)

text \<open>
  A forward copy may overwrite its source as long as it never overwrites a byte it has yet
  to read; \<open>fwd_ok\<close> is the condition, \<open>bwd_ok\<close> its mirror image for copies from the top.
\<close>

definition fwd_ok :: "addr \<Rightarrow> addr \<Rightarrow> nat \<Rightarrow> bool" where
  "fwd_ok d s n \<longleftrightarrow> n \<le> 2 ^ 64 \<and> (d = s \<or> n \<le> unat (d - s))"

definition bwd_ok :: "addr \<Rightarrow> addr \<Rightarrow> nat \<Rightarrow> bool" where
  "bwd_ok d s n \<longleftrightarrow> unat (d - s) + n \<le> 2 ^ 64"

lemma fwd_ok_shift: "fwd_ok d s n \<Longrightarrow> k \<le> n \<Longrightarrow> fwd_ok (d + x) (s + x) (n - k)"
  by (auto simp: fwd_ok_def)

lemma fwd_ok_mono: "fwd_ok d s n \<Longrightarrow> k \<le> n \<Longrightarrow> fwd_ok d s k"
  by (auto simp: fwd_ok_def)

lemma bwd_ok_mono: "bwd_ok d s n \<Longrightarrow> k \<le> n \<Longrightarrow> bwd_ok d s k"
  by (auto simp: bwd_ok_def)

lemma blit_blit_fwd:
  assumes "fwd_ok d s n" and "k \<le> n"
  shows "blit (blit m d s k) (d + of_nat k) (s + of_nat k) (n - k) = blit m d s n"
proof (rule ext)
  fix a
  define x where "x = a - d"
  define y where "y = d - s"
  have a: "a - (d + of_nat k) = x - of_nat k" and b: "s + x - d = x - y"
    and c: "s + of_nat k + (x - of_nat k) = s + x" and e: "a - d = x"
    by (simp_all add: x_def y_def)
  have k: "k \<le> 2 ^ 64" and n: "n \<le> 2 ^ 64" and y: "y = 0 \<or> n \<le> unat y"
    using assms by (auto simp: fwd_ok_def y_def)
  show "blit (blit m d s k) (d + of_nat k) (s + of_nat k) (n - k) a = blit m d s n a"
    unfolding blit_def a b c e
    using y n assms(2) unat_lt64 [of x] unat_lt64 [of y]
    by (auto simp: unat_sub_of_nat64 [OF k] unat_sub64 [of x y])
qed

lemma blit_blit_bwd:
  assumes "bwd_ok d s n" and "k \<le> n"
  shows "blit (blit m (d + of_nat (n - k)) (s + of_nat (n - k)) k) d s (n - k) = blit m d s n"
proof (rule ext)
  fix a
  define x where "x = a - d"
  define y where "y = d - s"
  define j where "j = n - k"
  have a: "a - (d + of_nat j) = x - of_nat j" and b: "s + x - (d + of_nat j) = (x - y) - of_nat j"
    and c: "s + of_nat j + (x - of_nat j) = s + x" and e: "a - d = x"
    by (simp_all add: x_def y_def)
  have j: "j \<le> 2 ^ 64" and n: "n = j + k" and y: "unat y + n \<le> 2 ^ 64"
    using assms by (auto simp: bwd_ok_def y_def j_def)
  show "blit (blit m (d + of_nat (n - k)) (s + of_nat (n - k)) k) d s (n - k) a = blit m d s n a"
    unfolding blit_def j_def [symmetric] a b c e
    using y n unat_lt64 [of x] unat_lt64 [of y]
    by (auto simp: unat_sub_of_nat64 [OF j] unat_sub64 [of x y])
qed

lemma fill_fill:
  assumes "k \<le> n" and "n \<le> 2 ^ 64"
  shows "fill (fill m d c k) (d + of_nat k) c (n - k) = fill m d c n"
proof (rule ext)
  fix a
  define x where "x = a - d"
  have a: "a - (d + of_nat k) = x - of_nat k" and e: "a - d = x"
    by (simp_all add: x_def)
  have k: "k \<le> 2 ^ 64" using assms by simp
  show "fill (fill m d c k) (d + of_nat k) c (n - k) a = fill m d c n a"
    unfolding fill_def a e using assms unat_lt64 [of x]
    by (auto simp: unat_sub_of_nat64 [OF k])
qed

section \<open>Multi-byte accesses\<close>

lemma length_load_bytes [simp]: "length (load_bytes m a n) = n"
  by (simp add: load_bytes_def)

lemma nth_load_bytes [simp]: "i < n \<Longrightarrow> load_bytes m a n ! i = m (a + of_nat i)"
  by (simp add: load_bytes_def)

lemma set_load_bytes: "set (load_bytes m a n) = {m (a + of_nat i) | i. i < n}"
  by (auto simp: load_bytes_def)

lemma store_bytes_eq:
  "length bs \<le> 2 ^ 64 \<Longrightarrow>
   store_bytes m d bs = (\<lambda>a. if unat (a - d) < length bs then bs ! unat (a - d) else m a)"
proof (induction bs arbitrary: m d)
  case Nil
  then show ?case by simp
next
  case (Cons b bs)
  have IH: "store_bytes (m(d := b)) (d + 1) bs =
      (\<lambda>a. if unat (a - (d + 1)) < length bs then bs ! unat (a - (d + 1)) else (m(d := b)) a)"
    using Cons.prems by (intro Cons.IH) simp
  show ?case
  proof (rule ext)
    fix a
    define x where "x = a - d"
    have e: "a - (d + 1) = x - of_nat 1" "a - d = x" "a = d \<longleftrightarrow> unat x = 0"
      by (auto simp: x_def unat_eq_0)
    have u: "unat (x - of_nat 1) = (if 1 \<le> unat x then unat x - 1 else unat x + 2 ^ 64 - 1)"
      by (rule unat_sub_of_nat64) simp
    show "store_bytes m d (b # bs) a =
        (if unat (a - d) < length (b # bs) then (b # bs) ! unat (a - d) else m a)"
      unfolding store_bytes.simps IH e fun_upd_apply u
      using Cons.prems by (auto simp: nth_Cons')
  qed
qed

lemma store_load_bytes: "n \<le> 2 ^ 64 \<Longrightarrow> store_bytes m d (load_bytes m s n) = blit m d s n"
  by (auto simp: store_bytes_eq blit_def)

lemma store_bytes_replicate: "n \<le> 2 ^ 64 \<Longrightarrow> store_bytes m d (replicate n c) = fill m d c n"
  by (auto simp: store_bytes_eq fill_def)

text \<open>What a read sees after a copy: the source inside the target, the old bytes outside.\<close>

lemma load_bytes_blit_same:
  "n \<le> 2 ^ 64 \<Longrightarrow> load_bytes (blit m d s n) d n = load_bytes m s n"
  by (auto simp: load_bytes_def blit_def)

lemma load_bytes_blit_other:
  assumes "n \<le> unat (a - d)" and "unat (a - d) + k \<le> 2 ^ 64"
  shows "load_bytes (blit m d s n) a k = load_bytes m a k"
  unfolding load_bytes_def
proof (rule map_cong [OF refl])
  fix i assume "i \<in> set [0..<k]"
  then have i: "i < k" by simp
  have eq: "a + of_nat i - d = (a - d) + of_nat i" by simp
  have "unat (a + of_nat i - d) = unat (a - d) + i"
    unfolding eq by (rule unat_add64) (use i assms(2) in simp)
  then show "blit m d s n (a + of_nat i) = m (a + of_nat i)"
    using assms(1) by (simp add: blit_def)
qed

subsection \<open>Little-endian words\<close>

lemma bit_byte_cons:
  "0 \<le> a \<Longrightarrow> a < 256 \<Longrightarrow>
   bit (a + 256 * c :: int) n \<longleftrightarrow> (if n < 8 then bit a n else bit c (n - 8))"
proof -
  assume a: "0 \<le> a" "a < 256"
  then have "a + 256 * c = concat_bit 8 a c"
    by (simp add: concat_bit_eq take_bit_int_eq_self push_bit_eq_mult)
  then show ?thesis by (simp add: bit_concat_bit_iff)
qed

lemma bit_horner_bytes:
  "bit (horner_sum uint 256 (bs :: u8 list)) n \<longleftrightarrow>
     n div 8 < length bs \<and> bit (bs ! (n div 8)) (n mod 8)"
proof (induction bs arbitrary: n)
  case Nil
  then show ?case by simp
next
  case (Cons b bs)
  have b: "0 \<le> uint b" "uint b < 256"
    using uint_bounded [of b] by simp_all
  show ?case
  proof (cases "n < 8")
    case True
    then show ?thesis by (simp add: bit_byte_cons [OF b] bit_uint_iff)
  next
    case False
    then have "n div 8 = Suc ((n - 8) div 8)" "n mod 8 = (n - 8) mod 8"
      by (simp_all add: le_div_geq le_mod_geq)
    then show ?thesis using False by (simp add: bit_byte_cons [OF b] Cons.IH)
  qed
qed

lemma bit_u64_of_bytes:
  "bit (u64_of_bytes bs) n \<longleftrightarrow> n < 64 \<and> n div 8 < length bs \<and> bit (bs ! (n div 8)) (n mod 8)"
  by (simp add: u64_of_bytes_def bit_word_of_int_iff bit_horner_bytes)

lemma length_bytes_of_u64 [simp]: "length (bytes_of_u64 w) = 8"
  by (simp add: bytes_of_u64_def)

lemma bit_bytes_of_u64: "i < 8 \<Longrightarrow> n < 8 \<Longrightarrow> bit (bytes_of_u64 w ! i) n = bit w (8 * i + n)"
  by (simp add: bytes_of_u64_def bit_unsigned_iff bit_drop_bit_eq)

lemma bytes_of_u64_of_bytes [simp]:
  assumes "length bs = 8"
  shows "bytes_of_u64 (u64_of_bytes bs) = bs"
proof (rule nth_equalityI)
  fix i assume "i < length (bytes_of_u64 (u64_of_bytes bs))"
  then have i: "i < 8" by simp
  show "bytes_of_u64 (u64_of_bytes bs) ! i = bs ! i"
  proof (rule bit_word_eqI)
    fix n assume "n < LENGTH(8)"
    then have n: "n < 8" by simp
    then have "(8 * i + n) div 8 = i" "(8 * i + n) mod 8 = n" "8 * i + n < 64"
      using i by simp_all
    then show "bit (bytes_of_u64 (u64_of_bytes bs) ! i) n = bit (bs ! i) n"
      using i n assms by (simp add: bit_bytes_of_u64 bit_u64_of_bytes)
  qed
qed (simp add: assms)

lemma u64_of_bytes_of_u64 [simp]: "u64_of_bytes (bytes_of_u64 w) = w"
proof (rule bit_word_eqI)
  fix n assume "n < LENGTH(64)"
  then have "n < 64" "n < 8 * 8" by simp_all
  then show "bit (u64_of_bytes (bytes_of_u64 w)) n = bit w n"
    by (auto simp: bit_u64_of_bytes bit_bytes_of_u64 less_mult_imp_div_less)
qed

lemma u64_of_bytes_inject:
  "length xs = 8 \<Longrightarrow> length ys = 8 \<Longrightarrow> u64_of_bytes xs = u64_of_bytes ys \<longleftrightarrow> xs = ys"
  by (metis bytes_of_u64_of_bytes)

lemma store64_load64 [mem_spec]: "store64 m d (load64 m s) = blit m d s 8"
  by (simp add: store64_def load64_def store_load_bytes)

lemma load64_eq_iff: "load64 m x = load64 m y \<longleftrightarrow> load_bytes m x 8 = load_bytes m y 8"
  by (simp add: load64_def u64_of_bytes_inject)

section \<open>Searching memory\<close>

lemma find_upt_append:
  "find P [0..<a + b] =
     (case find P [0..<a] of Some i \<Rightarrow> Some i
      | None \<Rightarrow> map_option ((+) a) (find (\<lambda>i. P (a + i)) [0..<b]))"
proof -
  have app: "find P (xs @ ys) = (case find P xs of Some i \<Rightarrow> Some i | None \<Rightarrow> find P ys)" for xs ys
    by (induction xs) auto
  have "[0..<a + b] = [0..<a] @ map ((+) a) [0..<b]"
    by (rule nth_equalityI) (auto simp: nth_append)
  moreover have "find P (map f ys) = map_option f (find (\<lambda>i. P (f i)) ys)" for f :: "nat \<Rightarrow> nat" and ys
    by (induction ys) auto
  ultimately show ?thesis by (simp add: app split: option.split)
qed

lemma find_upt_eq_Some_iff:
  "find P [0..<n] = Some i \<longleftrightarrow> i < n \<and> P i \<and> (\<forall>j<i. \<not> P j)"
  by (auto simp: find_Some_iff)

lemma find_upt_eq_None_iff: "find P [0..<n] = None \<longleftrightarrow> (\<forall>i<n. \<not> P i)"
  by (auto simp: find_None_iff)

lemma find_byte_0 [simp]: "find_byte m s c 0 = None"
  by (simp add: find_byte_def)

lemma find_byte_Some_iff:
  "find_byte m s c n = Some i \<longleftrightarrow>
     i < n \<and> m (s + of_nat i) = c \<and> (\<forall>j<i. m (s + of_nat j) \<noteq> c)"
  by (simp add: find_byte_def find_upt_eq_Some_iff)

lemma find_byte_None_iff: "find_byte m s c n = None \<longleftrightarrow> (\<forall>i<n. m (s + of_nat i) \<noteq> c)"
  by (simp add: find_byte_def find_upt_eq_None_iff)

lemma find_byte_split:
  "find_byte m s c (a + b) =
     (case find_byte m s c a of Some i \<Rightarrow> Some i
      | None \<Rightarrow> map_option ((+) a) (find_byte m (s + of_nat a) c b))"
  by (simp add: find_byte_def find_upt_append add.assoc split: option.split)

lemma find_byte_1: "find_byte m s c (Suc 0) = (if m s = c then Some 0 else None)"
  by (simp add: find_byte_def)

lemma find_byte_Suc:
  "find_byte m s c (Suc n) = (if m s = c then Some 0 else map_option Suc (find_byte m (s + 1) c n))"
proof -
  have "((+) (Suc 0)) = Suc" by auto
  then show ?thesis using find_byte_split [of m s c 1 n] by (simp add: find_byte_1)
qed

lemma find_byte_cstr: "cstr m s k \<Longrightarrow> find_byte m s 0 n = (if k < n then Some k else None)"
  by (auto simp: cstr_def find_byte_Some_iff find_byte_None_iff)

lemma cstr_unique: "cstr m s k \<Longrightarrow> cstr m s l \<Longrightarrow> k = l"
  by (metis cstr_def linorder_neqE_nat)

lemma cstr_0 [simp]: "cstr m s 0 \<longleftrightarrow> m s = 0"
  by (simp add: cstr_def)

lemma cstr_Suc: "cstr m s (Suc k) \<longleftrightarrow> m s \<noteq> 0 \<and> cstr m (s + 1) k"
  by (auto simp: cstr_def All_less_Suc2 add.assoc)

lemma cstr_bound: "cstr m s k \<Longrightarrow> k < 2 ^ 64"
proof (rule ccontr)
  assume c: "cstr m s k" and "\<not> k < 2 ^ 64"
  then have "unat (of_nat k :: 64 word) < k"
    using unat_lt64 [of "of_nat k"] by simp
  then have "m (s + of_nat (unat (of_nat k :: 64 word))) \<noteq> 0"
    using c unfolding cstr_def by blast
  then show False using c by (simp add: cstr_def)
qed

section \<open>Vector compare masks\<close>

text \<open>
  \<open>movemask\<close> is the bit mask \<^verbatim>\<open>pmovmskb\<close> makes of a byte-wise comparison result (bit
  \<open>i\<close> is lane \<open>i\<close>), \<open>ctz\<close> the index of the lowest set bit (\<^verbatim>\<open>__builtin_ctz\<close>,
  \<^verbatim>\<open>__builtin_ctzll\<close>), \<open>clz64\<close> the number of leading zeros (\<^verbatim>\<open>__builtin_clzll\<close>).
  The C built-ins are undefined at 0; every use in the sources is guarded.
\<close>

definition movemask :: "bool list \<Rightarrow> u32" where
  "movemask bs = horner_sum of_bool 2 bs"

definition ctz :: "'a::len word \<Rightarrow> nat" where
  "ctz w = length (takeWhile (\<lambda>i. \<not> bit w i) [0..<LENGTH('a)])"

definition clz64 :: "u64 \<Rightarrow> nat" where
  "clz64 w = length (takeWhile (\<lambda>i. \<not> bit w (63 - i)) [0..<64])"

lemma length_takeWhile_upt:
  "i < n \<Longrightarrow> P i \<Longrightarrow> (\<And>j. j < i \<Longrightarrow> \<not> P j) \<Longrightarrow> length (takeWhile (\<lambda>j. \<not> P j) [0..<n]) = i"
  by (subst takeWhile_eq_take_P_nth [of i]) auto

lemma bit_movemask: "bit (movemask bs) n \<longleftrightarrow> n < 32 \<and> n < length bs \<and> bs ! n"
  by (auto simp: movemask_def bit_horner_sum_bit_word_iff)

lemma movemask_eq_0:
  assumes "length bs \<le> 32"
  shows "movemask bs = 0 \<longleftrightarrow> True \<notin> set bs"
proof -
  have "movemask bs = 0 \<longleftrightarrow> (\<forall>n. \<not> bit (movemask bs) n)"
    by (metis bit_0_eq bit_eqI bot_apply bot_bool_def)
  also have "\<dots> \<longleftrightarrow> (\<forall>n<length bs. \<not> bs ! n)"
    using assms by (auto simp: bit_movemask)
  finally show ?thesis by (metis in_set_conv_nth)
qed

lemma ctz_eq: "i < LENGTH('a) \<Longrightarrow> bit (w :: 'a::len word) i \<Longrightarrow> (\<And>j. j < i \<Longrightarrow> \<not> bit w j) \<Longrightarrow> ctz w = i"
  unfolding ctz_def by (rule length_takeWhile_upt)

lemma ctz_movemask:
  assumes "length bs \<le> 32" and "find (\<lambda>i. bs ! i) [0..<length bs] = Some i"
  shows "ctz (movemask bs) = i"
  using assms by (intro ctz_eq) (auto simp: find_upt_eq_Some_iff bit_movemask)

end
