(* ===== verification/Libc_Memory.thy ===== *)
theory Libc_Memory
  imports Prelude
begin

text \<open>
  The memory half of \<^verbatim>\<open>src/src/libc/src/string.c\<close>: \<open>memcpy\<close>, \<open>memmove\<close>,
  \<open>memset\<close>, \<open>memcmp\<close> and \<open>memchr\<close> with their word-at-a-time, SSE2, AVX and AVX2
  paths. Each routine is translated loop by loop and proved equal to its closed form
  (\<open>blit\<close>, \<open>fill\<close>, first difference, first occurrence), whichever path the CPU
  features and the alignment select.

  A \<^verbatim>\<open>size_t\<close> argument is a 64-bit word at the interface. Inside a routine the
  remaining count only ever decreases under a guard that keeps it from wrapping, so the
  loops carry it as the natural number it denotes; addresses stay 64-bit words and wrap.
\<close>

section \<open>Bit tricks and alignment\<close>

definition repeat_byte :: "u8 \<Rightarrow> u64" where
  "repeat_byte c = ((NOT 0) div 0xff) * ucast c"

definition has_zero_byte :: "u64 \<Rightarrow> bool" where
  "has_zero_byte x =
     (let ones = (NOT 0) div 0xff; highs = push_bit 7 ones
      in ((x - ones) AND NOT x AND highs) \<noteq> 0)"

definition same_alignment :: "addr \<Rightarrow> addr \<Rightarrow> bool" where
  "same_alignment a b \<longleftrightarrow> (a XOR b) AND 7 = 0"

section \<open>CPU feature detection\<close>

text \<open>
  The processor is a parameter: the result of \<^verbatim>\<open>cpuid\<close> for every leaf and subleaf
  (\<^verbatim>\<open>eax\<close>, \<^verbatim>\<open>ebx\<close>, \<^verbatim>\<open>ecx\<close>, \<^verbatim>\<open>edx\<close>) and the value \<^verbatim>\<open>xgetbv\<close> reads.
\<close>

record cpu =
  cpuid_leaf :: "u32 \<Rightarrow> u32 \<Rightarrow> u32 \<times> u32 \<times> u32 \<times> u32"
  xgetbv0 :: u64

definition CPU_SSE2 :: int where "CPU_SSE2 = 1"
definition CPU_AVX :: int where "CPU_AVX = 2"
definition CPU_AVX2 :: int where "CPU_AVX2 = 4"

text \<open>
  \<open>cpu_features c cached\<close> is the value returned and the new content of the function's
  static variable, which starts at 0.
\<close>

definition cpu_features :: "cpu \<Rightarrow> int \<Rightarrow> int \<times> int" where
  "cpu_features c cached =
     (if cached \<noteq> 0 then (if cached > 0 then cached else 0, cached)
      else
        let (max_leaf, _, _, _) = cpuid_leaf c 0 0;
            features =
              (if max_leaf \<ge> 1 then
                 let (_, _, ecx, edx) = cpuid_leaf c 1 0;
                     f1 = (if edx AND push_bit 26 1 \<noteq> 0 then CPU_SSE2 else 0);
                     avx_bits = push_bit 26 1 OR push_bit 27 1 OR push_bit 28 1
                 in if ecx AND avx_bits = avx_bits \<and> xgetbv0 c AND 6 = 6 then
                      let f2 = f1 OR CPU_AVX
                      in if max_leaf \<ge> 7 then
                           let (_, ebx, _, _) = cpuid_leaf c 7 0
                           in if ebx AND push_bit 5 1 \<noteq> 0 then f2 OR CPU_AVX2 else f2
                         else f2
                    else f1
               else 0)
        in (features, if features \<noteq> 0 then features else -1))"

text \<open>
  The cache never changes what a later call returns (\<open>cpu_features_cached\<close> below), so
  the routines test the value of the first call.
\<close>

definition simd_has :: "cpu \<Rightarrow> int \<Rightarrow> bool" where
  "simd_has c feature \<longleftrightarrow> fst (cpu_features c 0) AND feature \<noteq> 0"

section \<open>Copying\<close>

text \<open>
  One \<open>w\<close>-byte load followed by one \<open>w\<close>-byte store (\<open>w\<close> is 1, 8, 16 or 32), and a row
  of them: \<open>ks\<close> lists the lane indices in the order the unrolled body writes them.
\<close>

definition copy_lane :: "nat \<Rightarrow> mem \<Rightarrow> addr \<Rightarrow> addr \<Rightarrow> mem" where
  "copy_lane w m d s = store_bytes m d (load_bytes m s w)"

definition copy_lanes :: "nat \<Rightarrow> nat list \<Rightarrow> mem \<Rightarrow> addr \<Rightarrow> addr \<Rightarrow> mem" where
  "copy_lanes w ks m d s =
     fold (\<lambda>k m. copy_lane w m (d + of_nat (w * k)) (s + of_nat (w * k))) ks m"

type_synonym copy_state = "mem \<times> addr \<times> addr \<times> nat"

text \<open>
  \<^verbatim>\<open>while (n >= c) { copy c bytes; d += c; s += c; n -= c; }\<close> with \<open>c\<close> the literal
  \<open>w * length ks\<close> (positive in every use), and its mirror image with decreasing pointers.
\<close>

function fwd_loop :: "nat \<Rightarrow> nat list \<Rightarrow> copy_state \<Rightarrow> copy_state" where
  "fwd_loop w ks (m, d, s, n) =
     (let c = w * length ks
      in if 0 < c \<and> c \<le> n
         then fwd_loop w ks (copy_lanes w ks m d s, d + of_nat c, s + of_nat c, n - c)
         else (m, d, s, n))"
  by pat_completeness auto
termination
  by (relation "measure (\<lambda>(w, ks, m, d, s, n). n)") auto

function bwd_loop :: "nat \<Rightarrow> nat list \<Rightarrow> copy_state \<Rightarrow> copy_state" where
  "bwd_loop w ks (m, d, s, n) =
     (let c = w * length ks
      in if 0 < c \<and> c \<le> n
         then bwd_loop w ks (copy_lanes w ks m (d - of_nat c) (s - of_nat c),
                             d - of_nat c, s - of_nat c, n - c)
         else (m, d, s, n))"
  by pat_completeness auto
termination
  by (relation "measure (\<lambda>(w, ks, m, d, s, n). n)") auto

text \<open>The byte-wise prologues that bring \<open>d\<close> to a word boundary.\<close>

function align_fwd :: "copy_state \<Rightarrow> copy_state" where
  "align_fwd (m, d, s, n) =
     (if n \<noteq> 0 \<and> d AND 7 \<noteq> 0
      then align_fwd (copy_lane 1 m d s, d + 1, s + 1, n - 1)
      else (m, d, s, n))"
  by pat_completeness auto
termination
  by (relation "measure (\<lambda>(m, d, s, n). n)") auto

function align_bwd :: "copy_state \<Rightarrow> copy_state" where
  "align_bwd (m, d, s, n) =
     (if n \<noteq> 0 \<and> d AND 7 \<noteq> 0
      then align_bwd (copy_lane 1 m (d - 1) (s - 1), d - 1, s - 1, n - 1)
      else (m, d, s, n))"
  by pat_completeness auto
termination
  by (relation "measure (\<lambda>(m, d, s, n). n)") auto

declare fwd_loop.simps [simp del] bwd_loop.simps [simp del]
  align_fwd.simps [simp del] align_bwd.simps [simp del]

definition memcpy_forward_sse2 :: "mem \<Rightarrow> addr \<Rightarrow> addr \<Rightarrow> nat \<Rightarrow> mem \<times> addr" where
  "memcpy_forward_sse2 m dst src n =
     (fst (fwd_loop 1 [0] (fwd_loop 16 [0] (fwd_loop 16 [0, 1, 2, 3, 4, 5, 6, 7] (m, dst, src, n)))),
      dst)"

definition memmove_backward_sse2 :: "mem \<Rightarrow> addr \<Rightarrow> addr \<Rightarrow> nat \<Rightarrow> mem" where
  "memmove_backward_sse2 m d s n =
     fst (bwd_loop 1 [0] (bwd_loop 16 [0]
       (bwd_loop 16 [7, 6, 5, 4, 3, 2, 1, 0] (m, d + of_nat n, s + of_nat n, n))))"

definition memcpy_forward_avx :: "mem \<Rightarrow> addr \<Rightarrow> addr \<Rightarrow> nat \<Rightarrow> mem \<times> addr" where
  "memcpy_forward_avx m dst src n =
     (fst (fwd_loop 1 [0] (fwd_loop 32 [0] (fwd_loop 32 [0, 1, 2, 3, 4, 5, 6, 7] (m, dst, src, n)))),
      dst)"

definition memmove_backward_avx :: "mem \<Rightarrow> addr \<Rightarrow> addr \<Rightarrow> nat \<Rightarrow> mem" where
  "memmove_backward_avx m d s n =
     fst (bwd_loop 1 [0] (bwd_loop 32 [0]
       (bwd_loop 32 [7, 6, 5, 4, 3, 2, 1, 0] (m, d + of_nat n, s + of_nat n, n))))"

definition memcpy_forward :: "cpu \<Rightarrow> mem \<Rightarrow> addr \<Rightarrow> addr \<Rightarrow> nat \<Rightarrow> mem \<times> addr" where
  "memcpy_forward c m dst src n =
     (if 512 \<le> n \<and> simd_has c CPU_AVX then memcpy_forward_avx m dst src n
      else if 128 \<le> n \<and> simd_has c CPU_SSE2 then memcpy_forward_sse2 m dst src n
      else
        let st = (if 8 \<le> n \<and> same_alignment dst src
                  then fwd_loop 8 [0] (fwd_loop 8 [0, 1, 2, 3] (align_fwd (m, dst, src, n)))
                  else (m, dst, src, n))
        in (fst (fwd_loop 1 [0] st), dst))"

definition memcpy :: "cpu \<Rightarrow> mem \<Rightarrow> addr \<Rightarrow> addr \<Rightarrow> size_t \<Rightarrow> mem \<times> addr" where
  "memcpy c m dst src n = memcpy_forward c m dst src (unat n)"

definition memmove :: "cpu \<Rightarrow> mem \<Rightarrow> addr \<Rightarrow> addr \<Rightarrow> size_t \<Rightarrow> mem \<times> addr" where
  "memmove c m dst src n =
     (if dst = src \<or> n = 0 then (m, dst)
      else if dst - src \<ge> n then memcpy_forward c m dst src (unat n)
      else if n \<ge> 512 \<and> simd_has c CPU_AVX then (memmove_backward_avx m dst src (unat n), dst)
      else if n \<ge> 128 \<and> simd_has c CPU_SSE2 then (memmove_backward_sse2 m dst src (unat n), dst)
      else
        let d = dst + n; s = src + n;
            st = (if n \<ge> 8 \<and> same_alignment d s
                  then bwd_loop 8 [0] (bwd_loop 8 [3, 2, 1, 0] (align_bwd (m, d, s, unat n)))
                  else (m, d, s, unat n))
        in (fst (bwd_loop 1 [0] st), dst))"

section \<open>Filling\<close>

text \<open>
  A vector of 64-bit lanes is stored little-endian lane by lane. The loops store a row of
  \<open>j\<close> vectors \<open>ws\<close> per iteration.
\<close>

definition store_vec :: "mem \<Rightarrow> addr \<Rightarrow> u64 list \<Rightarrow> mem" where
  "store_vec m d ws = store_bytes m d (concat (map bytes_of_u64 ws))"

type_synonym fill_state = "mem \<times> addr \<times> nat"

function fill_vec_loop :: "u64 list \<Rightarrow> nat list \<Rightarrow> fill_state \<Rightarrow> fill_state" where
  "fill_vec_loop ws ks (m, d, n) =
     (let w = 8 * length ws; c = w * length ks
      in if 0 < c \<and> c \<le> n
         then fill_vec_loop ws ks
                (fold (\<lambda>k m. store_vec m (d + of_nat (w * k)) ws) ks m, d + of_nat c, n - c)
         else (m, d, n))"
  by pat_completeness auto
termination
  by (relation "measure (\<lambda>(ws, ks, m, d, n). n)") auto

function align_fill :: "u8 \<Rightarrow> fill_state \<Rightarrow> fill_state" where
  "align_fill c (m, d, n) =
     (if n \<noteq> 0 \<and> d AND 7 \<noteq> 0 then align_fill c (m(d := c), d + 1, n - 1) else (m, d, n))"
  by pat_completeness auto
termination
  by (relation "measure (\<lambda>(c, m, d, n). n)") auto

fun fill_byte_loop :: "u8 \<Rightarrow> mem \<Rightarrow> addr \<Rightarrow> nat \<Rightarrow> mem" where
  "fill_byte_loop c m d 0 = m"
| "fill_byte_loop c m d (Suc n) = fill_byte_loop c (m(d := c)) (d + 1) n"

declare fill_vec_loop.simps [simp del] align_fill.simps [simp del]

definition fill_tail :: "u8 \<Rightarrow> fill_state \<Rightarrow> mem" where
  "fill_tail c st = (case st of (m, d, n) \<Rightarrow> fill_byte_loop c m d n)"

definition memset_sse2 :: "mem \<Rightarrow> addr \<Rightarrow> u32 \<Rightarrow> nat \<Rightarrow> mem \<times> addr" where
  "memset_sse2 m dst value n =
     (let c = ucast value :: u8; w = ((NOT 0) div 0xff) * (ucast c :: u64); v = [w, w]
      in (fill_tail c (fill_vec_loop v [0] (fill_vec_loop v [0, 1, 2, 3, 4, 5, 6, 7] (m, dst, n))), dst))"

definition memset_avx :: "mem \<Rightarrow> addr \<Rightarrow> u32 \<Rightarrow> nat \<Rightarrow> mem \<times> addr" where
  "memset_avx m dst value n =
     (let c = ucast value :: u8; w = ((NOT 0) div 0xff) * (ucast c :: u64); v = [w, w, w, w]
      in (fill_tail c (fill_vec_loop v [0] (fill_vec_loop v [0, 1, 2, 3, 4, 5, 6, 7] (m, dst, n))), dst))"

definition memset :: "cpu \<Rightarrow> mem \<Rightarrow> addr \<Rightarrow> u32 \<Rightarrow> size_t \<Rightarrow> mem \<times> addr" where
  "memset cp m dst value n =
     (let c = ucast value :: u8
      in if n \<ge> 512 \<and> simd_has cp CPU_AVX then memset_avx m dst value (unat n)
         else if n \<ge> 128 \<and> simd_has cp CPU_SSE2 then memset_sse2 m dst value (unat n)
         else
           let st = (if n \<ge> 8
                     then let w = repeat_byte c
                          in fill_vec_loop [w] [0]
                               (fill_vec_loop [w] [0, 1, 2, 3] (align_fill c (m, dst, unat n)))
                     else (m, dst, unat n))
           in (fill_tail c st, dst))"

section \<open>Comparing\<close>

text \<open>
  \<open>cmp_align\<close> either finds a difference (\<open>Inl\<close> the value returned) or stops at a word
  boundary or at the end; \<open>cmp_words\<close> skips equal words.
\<close>

type_synonym cmp_state = "addr \<times> addr \<times> nat"

function cmp_align :: "mem \<Rightarrow> cmp_state \<Rightarrow> int + cmp_state" where
  "cmp_align m (x, y, n) =
     (if n \<noteq> 0 \<and> x AND 7 \<noteq> 0
      then if m x \<noteq> m y then Inl (uint (m x) - uint (m y)) else cmp_align m (x + 1, y + 1, n - 1)
      else Inr (x, y, n))"
  by pat_completeness auto
termination
  by (relation "measure (\<lambda>(m, x, y, n). n)") auto

function cmp_words :: "mem \<Rightarrow> cmp_state \<Rightarrow> cmp_state" where
  "cmp_words m (x, y, n) =
     (if 8 \<le> n \<and> load64 m x = load64 m y then cmp_words m (x + 8, y + 8, n - 8) else (x, y, n))"
  by pat_completeness auto
termination
  by (relation "measure (\<lambda>(m, x, y, n). n)") auto

fun cmp_bytes :: "mem \<Rightarrow> addr \<Rightarrow> addr \<Rightarrow> nat \<Rightarrow> int" where
  "cmp_bytes m x y 0 = 0"
| "cmp_bytes m x y (Suc n) =
     (if m x \<noteq> m y then uint (m x) - uint (m y) else cmp_bytes m (x + 1) (y + 1) n)"

declare cmp_align.simps [simp del] cmp_words.simps [simp del]

definition memcmp :: "mem \<Rightarrow> addr \<Rightarrow> addr \<Rightarrow> size_t \<Rightarrow> int" where
  "memcmp m a b n =
     (if n \<ge> 8 \<and> same_alignment a b
      then case cmp_align m (a, b, unat n) of
             Inl r \<Rightarrow> r
           | Inr st \<Rightarrow> (case cmp_words m st of (x, y, k) \<Rightarrow> cmp_bytes m x y k)
      else cmp_bytes m a b (unat n))"

section \<open>Searching\<close>

text \<open>
  A scan loop either returns a hit (\<open>Inl\<close>) or hands its pointer and remaining count on.
  \<open>eq_mask\<close> is the \<^verbatim>\<open>pmovmskb\<close> mask of the \<open>w\<close> bytes at \<open>p\<close> against \<open>ch\<close>.
\<close>

type_synonym scan_state = "addr \<times> nat"

definition eq_mask :: "nat \<Rightarrow> mem \<Rightarrow> addr \<Rightarrow> u8 \<Rightarrow> u32" where
  "eq_mask w m p ch = movemask (map (\<lambda>b. b = ch) (load_bytes m p w))"

function scan_vec4 :: "nat \<Rightarrow> mem \<Rightarrow> u8 \<Rightarrow> scan_state \<Rightarrow> addr + scan_state" where
  "scan_vec4 w m ch (p, n) =
     (if 0 < w \<and> w * 4 \<le> n then
        let m0 = eq_mask w m p ch;
            m1 = eq_mask w m (p + of_nat w) ch;
            m2 = eq_mask w m (p + of_nat (w * 2)) ch;
            m3 = eq_mask w m (p + of_nat (w * 3)) ch
        in if m0 \<noteq> 0 then Inl (p + of_nat (ctz m0))
           else if m1 \<noteq> 0 then Inl (p + of_nat w + of_nat (ctz m1))
           else if m2 \<noteq> 0 then Inl (p + of_nat (w * 2) + of_nat (ctz m2))
           else if m3 \<noteq> 0 then Inl (p + of_nat (w * 3) + of_nat (ctz m3))
           else scan_vec4 w m ch (p + of_nat (w * 4), n - w * 4)
      else Inr (p, n))"
  by pat_completeness auto
termination
  by (relation "measure (\<lambda>(w, m, ch, p, n). n)") auto

function scan_vec :: "nat \<Rightarrow> mem \<Rightarrow> u8 \<Rightarrow> scan_state \<Rightarrow> addr + scan_state" where
  "scan_vec w m ch (p, n) =
     (if 0 < w \<and> w \<le> n then
        let msk = eq_mask w m p ch
        in if msk \<noteq> 0 then Inl (p + of_nat (ctz msk)) else scan_vec w m ch (p + of_nat w, n - w)
      else Inr (p, n))"
  by pat_completeness auto
termination
  by (relation "measure (\<lambda>(w, m, ch, p, n). n)") auto

function scan_align :: "mem \<Rightarrow> u8 \<Rightarrow> addr \<Rightarrow> scan_state \<Rightarrow> addr + scan_state" where
  "scan_align m ch am (p, n) =
     (if n \<noteq> 0 \<and> p AND am \<noteq> 0
      then if m p = ch then Inl p else scan_align m ch am (p + 1, n - 1)
      else Inr (p, n))"
  by pat_completeness auto
termination
  by (relation "measure (\<lambda>(m, ch, am, p, n). n)") auto

function scan_words :: "mem \<Rightarrow> u8 \<Rightarrow> scan_state \<Rightarrow> scan_state" where
  "scan_words m ch (p, n) =
     (if 8 \<le> n \<and> \<not> has_zero_byte (load64 m p XOR repeat_byte ch)
      then scan_words m ch (p + 8, n - 8) else (p, n))"
  by pat_completeness auto
termination
  by (relation "measure (\<lambda>(m, ch, p, n). n)") auto

fun scan_bytes :: "mem \<Rightarrow> u8 \<Rightarrow> addr \<Rightarrow> nat \<Rightarrow> addr option" where
  "scan_bytes m ch p 0 = None"
| "scan_bytes m ch p (Suc n) = (if m p = ch then Some p else scan_bytes m ch (p + 1) n)"

declare scan_vec4.simps [simp del] scan_vec.simps [simp del]
  scan_align.simps [simp del] scan_words.simps [simp del]

text \<open>A null return is \<open>None\<close>.\<close>

definition memchr_sse2 :: "mem \<Rightarrow> addr \<Rightarrow> u32 \<Rightarrow> nat \<Rightarrow> addr option" where
  "memchr_sse2 m s c n =
     (let ch = ucast c
      in case scan_vec4 16 m ch (s, n) of
           Inl r \<Rightarrow> Some r
         | Inr st \<Rightarrow> (case scan_vec 16 m ch st of
                        Inl r \<Rightarrow> Some r
                      | Inr (p, k) \<Rightarrow> scan_bytes m ch p k))"

definition memchr_avx2 :: "mem \<Rightarrow> addr \<Rightarrow> u32 \<Rightarrow> nat \<Rightarrow> addr option" where
  "memchr_avx2 m s c n =
     (let ch = ucast c
      in case scan_vec4 32 m ch (s, n) of
           Inl r \<Rightarrow> Some r
         | Inr st \<Rightarrow> (case scan_vec 32 m ch st of
                        Inl r \<Rightarrow> Some r
                      | Inr (p, k) \<Rightarrow> memchr_sse2 m p c k))"

definition memchr :: "cpu \<Rightarrow> mem \<Rightarrow> addr \<Rightarrow> u32 \<Rightarrow> size_t \<Rightarrow> addr option" where
  "memchr cp m s c n =
     (if n \<ge> 96 \<and> simd_has cp CPU_AVX2 then memchr_avx2 m s c (unat n)
      else if n \<ge> 64 \<and> simd_has cp CPU_SSE2 then memchr_sse2 m s c (unat n)
      else
        let ch = ucast c
        in case scan_align m ch 7 (s, unat n) of
             Inl r \<Rightarrow> Some r
           | Inr st \<Rightarrow> (case scan_words m ch st of (p, k) \<Rightarrow> scan_bytes m ch p k))"

section \<open>Correctness of the copies\<close>

lemma copy_lane_blit: "w \<le> 2 ^ 64 \<Longrightarrow> copy_lane w m d s = blit m d s w"
  by (simp add: copy_lane_def store_load_bytes)

lemma copy_lanes_fwd:
  "fwd_ok d s (w * j) \<Longrightarrow> copy_lanes w [0..<j] m d s = blit m d s (w * j)"
proof (induction j)
  case 0
  then show ?case by (simp add: copy_lanes_def)
next
  case (Suc j)
  have ok: "fwd_ok d s (w * j)" and w: "w \<le> 2 ^ 64"
    using Suc.prems by (auto intro: fwd_ok_mono simp: fwd_ok_def)
  have "copy_lanes w [0..<Suc j] m d s =
      blit (blit m d s (w * j)) (d + of_nat (w * j)) (s + of_nat (w * j)) (w * Suc j - w * j)"
    using Suc.IH [OF ok] w by (simp add: copy_lanes_def copy_lane_blit)
  also have "\<dots> = blit m d s (w * Suc j)"
    by (rule blit_blit_fwd [OF Suc.prems]) simp
  finally show ?case .
qed

lemma bwd_ok_up: "bwd_ok d s n \<Longrightarrow> k \<le> n \<Longrightarrow> bwd_ok (d + x) (s + x) (n - k)"
  by (simp add: bwd_ok_def)

lemma copy_lanes_bwd:
  "bwd_ok d s (w * j) \<Longrightarrow> copy_lanes w (rev [0..<j]) m d s = blit m d s (w * j)"
proof (induction j arbitrary: m)
  case 0
  then show ?case by (simp add: copy_lanes_def)
next
  case (Suc j)
  have ok: "bwd_ok d s (w * j)" and w: "w \<le> 2 ^ 64"
    using Suc.prems by (auto intro: bwd_ok_mono simp: bwd_ok_def)
  let ?m = "blit m (d + of_nat (w * j)) (s + of_nat (w * j)) w"
  have "copy_lanes w (rev [0..<Suc j]) m d s = copy_lanes w (rev [0..<j]) ?m d s"
    using w by (simp add: copy_lanes_def copy_lane_blit)
  also have "\<dots> = blit ?m d s (w * j)" by (rule Suc.IH [OF ok])
  also have "\<dots> = blit m d s (w * Suc j)"
    using blit_blit_bwd [OF Suc.prems, of w m] by simp
  finally show ?case .
qed

text \<open>
  What every forward (backward) loop keeps: the state has copied the first (last) \<open>k\<close> of
  the \<open>n0\<close> bytes.
\<close>

definition fwd_inv :: "mem \<Rightarrow> addr \<Rightarrow> addr \<Rightarrow> nat \<Rightarrow> copy_state \<Rightarrow> bool" where
  "fwd_inv m0 d0 s0 n0 st \<longleftrightarrow>
     (\<exists>k\<le>n0. st = (blit m0 d0 s0 k, d0 + of_nat k, s0 + of_nat k, n0 - k))"

definition bwd_inv :: "mem \<Rightarrow> addr \<Rightarrow> addr \<Rightarrow> nat \<Rightarrow> copy_state \<Rightarrow> bool" where
  "bwd_inv m0 d0 s0 n0 st \<longleftrightarrow>
     (\<exists>k\<le>n0. st = (blit m0 (d0 + of_nat (n0 - k)) (s0 + of_nat (n0 - k)) k,
                   d0 + of_nat (n0 - k), s0 + of_nat (n0 - k), n0 - k))"

lemma fwd_inv_init: "fwd_inv m d s n (m, d, s, n)"
  unfolding fwd_inv_def by (rule exI [of _ 0]) simp

lemma bwd_inv_init: "bwd_inv m d s n (m, d + of_nat n, s + of_nat n, n)"
  unfolding bwd_inv_def by (rule exI [of _ 0]) simp

lemma fwd_inv_step:
  assumes inv: "fwd_inv m0 d0 s0 n0 (m, d, s, n)" and ok: "fwd_ok d0 s0 n0" and "c \<le> n"
  shows "fwd_inv m0 d0 s0 n0 (blit m d s c, d + of_nat c, s + of_nat c, n - c)"
    and "fwd_ok d s c"
proof -
  from inv obtain k where k: "k \<le> n0" "m = blit m0 d0 s0 k" "d = d0 + of_nat k"
      "s = s0 + of_nat k" "n = n0 - k"
    by (auto simp: fwd_inv_def)
  have kc: "k + c \<le> n0" using k \<open>c \<le> n\<close> by simp
  have "blit (blit m0 d0 s0 k) (d0 + of_nat k) (s0 + of_nat k) (k + c - k) = blit m0 d0 s0 (k + c)"
    by (rule blit_blit_fwd [OF fwd_ok_mono [OF ok kc]]) simp
  then show "fwd_inv m0 d0 s0 n0 (blit m d s c, d + of_nat c, s + of_nat c, n - c)"
    unfolding fwd_inv_def k using kc by (intro exI [of _ "k + c"]) (simp add: add.assoc)
  have "fwd_ok d s (n0 - k)" unfolding k by (rule fwd_ok_shift [OF ok k(1)])
  then show "fwd_ok d s c" by (rule fwd_ok_mono) (use kc in simp)
qed

lemma bwd_inv_step:
  assumes inv: "bwd_inv m0 d0 s0 n0 (m, d, s, n)" and ok: "bwd_ok d0 s0 n0" and "c \<le> n"
  shows "bwd_inv m0 d0 s0 n0 (blit m (d - of_nat c) (s - of_nat c) c, d - of_nat c, s - of_nat c, n - c)"
    and "bwd_ok (d - of_nat c) (s - of_nat c) c"
proof -
  from inv obtain k where k: "k \<le> n0" "m = blit m0 (d0 + of_nat (n0 - k)) (s0 + of_nat (n0 - k)) k"
      "d = d0 + of_nat (n0 - k)" "s = s0 + of_nat (n0 - k)" "n = n0 - k"
    by (auto simp: bwd_inv_def)
  have kc: "k + c \<le> n0" using k \<open>c \<le> n\<close> by simp
  define j where "j = n0 - (k + c)"
  have nk: "n0 - k = j + c" using kc by (simp add: j_def)
  have b: "bwd_ok (d0 + of_nat j) (s0 + of_nat j) (c + k)"
    using ok kc by (auto simp: bwd_ok_def)
  have "blit (blit m0 (d0 + of_nat j + of_nat (c + k - k)) (s0 + of_nat j + of_nat (c + k - k)) k)
      (d0 + of_nat j) (s0 + of_nat j) (c + k - k) = blit m0 (d0 + of_nat j) (s0 + of_nat j) (c + k)"
    by (rule blit_blit_bwd [OF b]) simp
  then show "bwd_inv m0 d0 s0 n0
      (blit m (d - of_nat c) (s - of_nat c) c, d - of_nat c, s - of_nat c, n - c)"
    unfolding bwd_inv_def k nk using kc
    by (intro exI [of _ "k + c"]) (simp add: add.assoc j_def [symmetric] add.commute [of c k])
  show "bwd_ok (d - of_nat c) (s - of_nat c) c"
    unfolding k nk using ok kc by (auto simp: bwd_ok_def)
qed

lemma fwd_loop_inv:
  assumes "fwd_ok d0 s0 n0"
  shows "fwd_inv m0 d0 s0 n0 st \<Longrightarrow> fwd_inv m0 d0 s0 n0 (fwd_loop w [0..<j] st)"
proof (induction w "[0..<j]" st rule: fwd_loop.induct)
  case (1 w m d s n)
  show ?case
  proof (cases "0 < w * j \<and> w * j \<le> n")
    case True
    then have "w * j \<le> n" by simp
    note step = fwd_inv_step [OF 1(2) assms this]
    have "fwd_inv m0 d0 s0 n0
        (fwd_loop w [0..<j] (copy_lanes w [0..<j] m d s, d + of_nat (w * j), s + of_nat (w * j), n - w * j))"
      using True step by (intro 1(1)) (simp_all add: copy_lanes_fwd)
    with True show ?thesis by (simp add: fwd_loop.simps [of _ _ m] Let_def)
  next
    case False
    then have "fwd_loop w [0..<j] (m, d, s, n) = (m, d, s, n)"
      unfolding fwd_loop.simps [of _ _ m] Let_def by auto
    with 1(2) show ?thesis by simp
  qed
qed

lemma bwd_loop_inv:
  assumes "bwd_ok d0 s0 n0"
  shows "bwd_inv m0 d0 s0 n0 st \<Longrightarrow> bwd_inv m0 d0 s0 n0 (bwd_loop w (rev [0..<j]) st)"
proof (induction w "rev [0..<j]" st rule: bwd_loop.induct)
  case (1 w m d s n)
  show ?case
  proof (cases "0 < w * j \<and> w * j \<le> n")
    case True
    then have "w * j \<le> n" by simp
    note step = bwd_inv_step [OF 1(2) assms this]
    have "bwd_inv m0 d0 s0 n0
        (bwd_loop w (rev [0..<j]) (copy_lanes w (rev [0..<j]) m (d - of_nat (w * j)) (s - of_nat (w * j)),
           d - of_nat (w * j), s - of_nat (w * j), n - w * j))"
      using True step by (intro 1(1)) (simp_all add: copy_lanes_bwd)
    with True show ?thesis by (simp add: bwd_loop.simps [of _ _ m] Let_def)
  next
    case False
    then have "bwd_loop w (rev [0..<j]) (m, d, s, n) = (m, d, s, n)"
      unfolding bwd_loop.simps [of _ _ m] Let_def by auto
    with 1(2) show ?thesis by simp
  qed
qed

lemma align_fwd_inv:
  assumes "fwd_ok d0 s0 n0"
  shows "fwd_inv m0 d0 s0 n0 st \<Longrightarrow> fwd_inv m0 d0 s0 n0 (align_fwd st)"
proof (induction st rule: align_fwd.induct)
  case (1 m d s n)
  show ?case
  proof (cases "n \<noteq> 0 \<and> d AND 7 \<noteq> 0")
    case True
    then have "fwd_inv m0 d0 s0 n0 (blit m d s 1, d + of_nat 1, s + of_nat 1, n - 1)"
      by (intro fwd_inv_step [OF 1(2) assms]) simp
    then have "fwd_inv m0 d0 s0 n0 (align_fwd (copy_lane 1 m d s, d + 1, s + 1, n - 1))"
      by (intro 1(1) [OF True]) (simp add: copy_lane_blit)
    with True show ?thesis by (simp add: align_fwd.simps [of m])
  next
    case False
    with 1(2) show ?thesis by (auto simp: align_fwd.simps [of m])
  qed
qed

lemma align_bwd_inv:
  assumes "bwd_ok d0 s0 n0"
  shows "bwd_inv m0 d0 s0 n0 st \<Longrightarrow> bwd_inv m0 d0 s0 n0 (align_bwd st)"
proof (induction st rule: align_bwd.induct)
  case (1 m d s n)
  show ?case
  proof (cases "n \<noteq> 0 \<and> d AND 7 \<noteq> 0")
    case True
    then have "bwd_inv m0 d0 s0 n0 (blit m (d - of_nat 1) (s - of_nat 1) 1, d - of_nat 1, s - of_nat 1, n - 1)"
      by (intro bwd_inv_step [OF 1(2) assms]) simp
    then have "bwd_inv m0 d0 s0 n0 (align_bwd (copy_lane 1 m (d - 1) (s - 1), d - 1, s - 1, n - 1))"
      by (intro 1(1) [OF True]) (simp add: copy_lane_blit)
    with True show ?thesis by (simp add: align_bwd.simps [of m])
  next
    case False
    with 1(2) show ?thesis by (auto simp: align_bwd.simps [of m])
  qed
qed

text \<open>The closing byte loop leaves nothing to copy.\<close>

lemma fwd_loop_drained: "snd (snd (snd (fwd_loop 1 [0] st))) = 0"
  by (induction "1 :: nat" "[0 :: nat]" st rule: fwd_loop.induct)
     (simp add: fwd_loop.simps Let_def)

lemma bwd_loop_drained: "snd (snd (snd (bwd_loop 1 [0] st))) = 0"
  by (induction "1 :: nat" "[0 :: nat]" st rule: bwd_loop.induct)
     (simp add: bwd_loop.simps Let_def)

lemma lanes_upt:
  "[0] = [0..<1]" "[0] = rev [0..<1]" "[0, 1, 2, 3] = [0..<4]" "[3, 2, 1, 0] = rev [0..<4]"
  "[0, 1, 2, 3, 4, 5, 6, 7] = [0..<8]" "[7, 6, 5, 4, 3, 2, 1, 0] = rev [0..<8]"
  by (simp_all add: upt_rec)

lemma fwd_finish:
  assumes "fwd_ok d s n" and "fwd_inv m d s n st"
  shows "fst (fwd_loop 1 [0] st) = blit m d s n"
proof -
  have "fwd_inv m d s n (fwd_loop 1 [0] st)"
    unfolding lanes_upt(1) by (rule fwd_loop_inv [OF assms])
  then show ?thesis using fwd_loop_drained [of st] by (auto simp: fwd_inv_def)
qed

lemma bwd_finish:
  assumes "bwd_ok d s n" and "bwd_inv m d s n st"
  shows "fst (bwd_loop 1 [0] st) = blit m d s n"
proof -
  have "bwd_inv m d s n (bwd_loop 1 [0] st)"
    unfolding lanes_upt(2) by (rule bwd_loop_inv [OF assms])
  then show ?thesis using bwd_loop_drained [of st] by (auto simp: bwd_inv_def)
qed

lemmas fwd_invs = fwd_inv_init fwd_loop_inv align_fwd_inv
lemmas bwd_invs = bwd_inv_init bwd_loop_inv align_bwd_inv

lemma fwd_vector_copies:
  assumes "fwd_ok d s n"
  shows "memcpy_forward_sse2 m d s n = (blit m d s n, d)"
    and "memcpy_forward_avx m d s n = (blit m d s n, d)"
proof -
  have "fwd_inv m d s n (fwd_loop w [0] (fwd_loop w [0, 1, 2, 3, 4, 5, 6, 7] (m, d, s, n)))" for w
    unfolding lanes_upt(1) lanes_upt(5) by (intro fwd_invs assms)
  then show "memcpy_forward_sse2 m d s n = (blit m d s n, d)"
    and "memcpy_forward_avx m d s n = (blit m d s n, d)"
    by (simp_all add: memcpy_forward_sse2_def memcpy_forward_avx_def fwd_finish [OF assms]
        del: One_nat_def)
qed

lemma bwd_vector_copies:
  assumes "bwd_ok d s n"
  shows "memmove_backward_sse2 m d s n = blit m d s n"
    and "memmove_backward_avx m d s n = blit m d s n"
proof -
  have "bwd_inv m d s n (bwd_loop w [0] (bwd_loop w [7, 6, 5, 4, 3, 2, 1, 0]
      (m, d + of_nat n, s + of_nat n, n)))" for w
    unfolding lanes_upt(6) unfolding lanes_upt(2) by (intro bwd_invs assms)
  then show "memmove_backward_sse2 m d s n = blit m d s n"
    and "memmove_backward_avx m d s n = blit m d s n"
    by (simp_all add: memmove_backward_sse2_def memmove_backward_avx_def bwd_finish [OF assms]
        del: One_nat_def)
qed

lemma memcpy_forward_blit [mem_spec]:
  assumes "fwd_ok d s n"
  shows "memcpy_forward c m d s n = (blit m d s n, d)"
proof -
  have "fwd_inv m d s n (fwd_loop 8 [0] (fwd_loop 8 [0, 1, 2, 3] (align_fwd (m, d, s, n))))"
    unfolding lanes_upt(1) lanes_upt(3) by (intro fwd_invs assms)
  then show ?thesis
    by (simp add: memcpy_forward_def fwd_vector_copies [OF assms] fwd_finish [OF assms] fwd_inv_init
        del: One_nat_def)
qed

lemma memcpy_blit [mem_spec]:
  "fwd_ok d s (unat n) \<Longrightarrow> memcpy c m d s n = (blit m d s (unat n), d)"
  by (simp add: memcpy_def memcpy_forward_blit)

lemma memmove_blit [mem_spec]:
  assumes "unat n \<le> 2 ^ 63"
  shows "memmove c m d s n = (blit m d s (unat n), d)"
proof (cases "d = s \<or> n = 0 \<or> d - s \<ge> n")
  case True
  then show ?thesis
    using assms by (auto simp: memmove_def memcpy_forward_blit fwd_ok_def word_le_nat_alt)
next
  case False
  then have ok: "bwd_ok d s (unat n)"
    using assms by (simp add: bwd_ok_def word_le_nat_alt not_le)
  have "bwd_inv m d s (unat n)
      (bwd_loop 8 [0] (bwd_loop 8 [3, 2, 1, 0] (align_bwd (m, d + of_nat (unat n), s + of_nat (unat n), unat n))))"
    unfolding lanes_upt(4) unfolding lanes_upt(2) by (intro bwd_invs ok)
  moreover have "bwd_inv m d s (unat n) (m, d + of_nat (unat n), s + of_nat (unat n), unat n)"
    by (rule bwd_inv_init)
  ultimately show ?thesis
    using False by (simp add: memmove_def Let_def bwd_vector_copies [OF ok] bwd_finish [OF ok]
        del: One_nat_def)
qed

section \<open>Correctness of the fills\<close>

lemma LOW_ONES_eq: "((NOT 0) div 0xff :: u64) = 0x0101010101010101"
  by simp

lemma repeat_byte_bytes: "repeat_byte c = u64_of_bytes (replicate 8 c)"
proof -
  have "u64_of_bytes (replicate 8 c) = word_of_int (uint c * 0x0101010101010101)"
    by (simp add: u64_of_bytes_def numeral_eq_Suc)
  also have "\<dots> = word_of_int (uint c) * 0x0101010101010101"
    by simp
  also have "word_of_int (uint c) = (ucast c :: u64)"
    by simp
  finally show ?thesis
    by (simp add: repeat_byte_def mult.commute)
qed

lemma bytes_repeat_byte [simp]: "bytes_of_u64 (repeat_byte c) = replicate 8 c"
  by (simp add: repeat_byte_bytes)

lemma store_vec_repeat:
  assumes "8 * j \<le> 2 ^ 64"
  shows "store_vec m d (replicate j (repeat_byte c)) = fill m d c (8 * j)"
proof -
  have "concat (map bytes_of_u64 (replicate j (repeat_byte c))) = replicate (8 * j) c"
    by (induction j) (auto simp: replicate_add [symmetric] numeral_eq_Suc)
  then show ?thesis
    using assms by (simp add: store_vec_def store_bytes_replicate)
qed

definition fill_inv :: "mem \<Rightarrow> addr \<Rightarrow> u8 \<Rightarrow> nat \<Rightarrow> fill_state \<Rightarrow> bool" where
  "fill_inv m0 d0 c n0 st \<longleftrightarrow> (\<exists>k\<le>n0. st = (fill m0 d0 c k, d0 + of_nat k, n0 - k))"

lemma fill_inv_init: "fill_inv m d c n (m, d, n)"
  unfolding fill_inv_def by (rule exI [of _ 0]) simp

lemma fill_inv_step:
  assumes "fill_inv m0 d0 c n0 (m, d, n)" and "n0 \<le> 2 ^ 64" and "k \<le> n"
  shows "fill_inv m0 d0 c n0 (fill m d c k, d + of_nat k, n - k)"
proof -
  from assms(1) obtain l where l: "l \<le> n0" "m = fill m0 d0 c l" "d = d0 + of_nat l" "n = n0 - l"
    by (auto simp: fill_inv_def)
  have "fill (fill m0 d0 c l) (d0 + of_nat l) c (l + k - l) = fill m0 d0 c (l + k)"
    by (rule fill_fill) (use l assms in simp_all)
  then show ?thesis
    unfolding fill_inv_def l using l assms(3)
    by (intro exI [of _ "l + k"]) (simp add: add.assoc)
qed

lemma fill_row:
  assumes "8 * w * j \<le> 2 ^ 64"
  shows "fold (\<lambda>k m. store_vec m (d + of_nat (8 * w * k)) (replicate w (repeat_byte c))) [0..<j] m =
         fill m d c (8 * w * j)"
  using assms
proof (induction j)
  case 0
  then show ?case by simp
next
  case (Suc j)
  have w: "8 * w \<le> 2 ^ 64" using Suc.prems by simp
  have "fill (fill m d c (8 * w * j)) (d + of_nat (8 * w * j)) c (8 * w * Suc j - 8 * w * j) =
      fill m d c (8 * w * Suc j)"
    by (rule fill_fill) (use Suc.prems in simp_all)
  moreover have "fold (\<lambda>k m. store_vec m (d + of_nat (8 * w * k)) (replicate w (repeat_byte c))) [0..<j] m =
      fill m d c (8 * w * j)"
    by (rule Suc.IH) (rule order_trans [OF _ Suc.prems], simp)
  ultimately show ?case by (simp add: store_vec_repeat [OF w] del: of_nat_mult)
qed

lemma fill_vec_loop_inv:
  assumes "n0 \<le> 2 ^ 64"
  shows "fill_inv m0 d0 c n0 st \<Longrightarrow>
         fill_inv m0 d0 c n0 (fill_vec_loop (replicate w (repeat_byte c)) [0..<j] st)"
proof (induction "replicate w (repeat_byte c)" "[0..<j]" st rule: fill_vec_loop.induct)
  case (1 m d n)
  let ?c = "8 * w * j"
  show ?case
  proof (cases "0 < ?c \<and> ?c \<le> n")
    case True
    then have le: "?c \<le> n" by simp
    have "n \<le> n0" using 1(2) by (auto simp: fill_inv_def)
    then have "?c \<le> 2 ^ 64" using le assms by (blast intro: order_trans)
    note row = fill_row [OF this, of d c m]
    have "fill_inv m0 d0 c n0 (fill_vec_loop (replicate w (repeat_byte c)) [0..<j]
        (fold (\<lambda>k m. store_vec m (d + of_nat (8 * w * k)) (replicate w (repeat_byte c))) [0..<j] m,
         d + of_nat ?c, n - ?c))"
      using True fill_inv_step [OF 1(2) assms le] by (intro 1(1) refl) (simp_all add: row del: of_nat_mult)
    then show ?thesis
      unfolding fill_vec_loop.simps [of _ _ m] Let_def using True by simp
  next
    case False
    then have "fill_vec_loop (replicate w (repeat_byte c)) [0..<j] (m, d, n) = (m, d, n)"
      unfolding fill_vec_loop.simps [of _ _ m] Let_def by auto
    with 1(2) show ?thesis by simp
  qed
qed

lemma fill_1: "m(d := c) = fill m d c 1"
  by (auto simp: fill_def unat_eq_0)

lemma align_fill_inv:
  assumes "n0 \<le> 2 ^ 64"
  shows "fill_inv m0 d0 c n0 st \<Longrightarrow> fill_inv m0 d0 c n0 (align_fill c st)"
proof (induction c st rule: align_fill.induct)
  case (1 c m d n)
  show ?case
  proof (cases "n \<noteq> 0 \<and> d AND 7 \<noteq> 0")
    case True
    then have "fill_inv m0 d0 c n0 (fill m d c 1, d + of_nat 1, n - 1)"
      by (intro fill_inv_step [OF 1(2) assms]) simp
    then have "fill_inv m0 d0 c n0 (align_fill c (m(d := c), d + 1, n - 1))"
      by (intro 1(1) [OF True]) (simp add: fill_1)
    with True show ?thesis by (simp add: align_fill.simps [of _ m])
  next
    case False
    with 1(2) show ?thesis by (auto simp: align_fill.simps [of _ m])
  qed
qed

lemma fill_byte_loop_fill: "n \<le> 2 ^ 64 \<Longrightarrow> fill_byte_loop c m d n = fill m d c n"
proof (induction n arbitrary: m d)
  case 0
  then show ?case by simp
next
  case (Suc n)
  have "fill (fill m d c 1) (d + of_nat 1) c (Suc n - 1) = fill m d c (Suc n)"
    by (rule fill_fill) (use Suc.prems in simp_all)
  then show ?case using Suc by (simp add: fill_1)
qed

lemma fill_finish:
  assumes "fill_inv m0 d0 c n0 st" and "n0 \<le> 2 ^ 64"
  shows "fill_tail c st = fill m0 d0 c n0"
proof -
  from assms(1) obtain l where l: "l \<le> n0" "st = (fill m0 d0 c l, d0 + of_nat l, n0 - l)"
    by (auto simp: fill_inv_def)
  have "fill (fill m0 d0 c l) (d0 + of_nat l) c (n0 - l) = fill m0 d0 c n0"
    by (rule fill_fill [OF l(1) assms(2)])
  then show ?thesis using assms(2) by (simp add: fill_tail_def l fill_byte_loop_fill)
qed

lemmas fill_invs = fill_inv_init fill_vec_loop_inv align_fill_inv

lemma replicate_lanes:
  "[w] = replicate 1 w" "[w, w] = replicate 2 w" "[w, w, w, w] = replicate 4 w"
  by (simp_all add: numeral_eq_Suc)

lemma unat_le_2_64: "unat (n :: u64) \<le> 2 ^ 64"
  using unat_lt64 [of n] by simp

lemma memset_fill [mem_spec]:
  "memset cp m d v n = (fill m d (ucast v) (unat n), d)"
proof -
  let ?n = "unat n" and ?c = "ucast v :: u8"
  have a: "fill_inv m d ?c ?n (fill_vec_loop (replicate w (repeat_byte ?c)) [0..<i]
      (fill_vec_loop (replicate w (repeat_byte ?c)) [0..<j] (m, d, ?n)))" for w i j
    by (intro fill_invs unat_le_2_64)
  have b: "fill_inv m d ?c ?n (fill_vec_loop (replicate 1 (repeat_byte ?c)) [0..<1]
      (fill_vec_loop (replicate 1 (repeat_byte ?c)) [0..<4] (align_fill ?c (m, d, ?n))))"
    by (intro fill_invs unat_le_2_64)
  note finish = a [THEN fill_finish, OF unat_le_2_64] b [THEN fill_finish, OF unat_le_2_64]
    fill_inv_init [THEN fill_finish, OF unat_le_2_64]
  have "memset_avx m d v ?n = (fill m d ?c ?n, d)"
    unfolding memset_avx_def Let_def repeat_byte_def [symmetric] lanes_upt(5)
    unfolding replicate_lanes(3) lanes_upt(1) by (simp only: finish)
  moreover have "memset_sse2 m d v ?n = (fill m d ?c ?n, d)"
    unfolding memset_sse2_def Let_def repeat_byte_def [symmetric] lanes_upt(5)
    unfolding replicate_lanes(2) lanes_upt(1) by (simp only: finish)
  ultimately show ?thesis
    unfolding memset_def Let_def lanes_upt(3)
    unfolding replicate_lanes(1) [of "repeat_byte _"] lanes_upt(1)
    by (simp only: finish if_cancel if_distrib cong: if_cong)
qed

section \<open>Correctness of the comparison\<close>

definition diff_at :: "mem \<Rightarrow> addr \<Rightarrow> addr \<Rightarrow> nat \<Rightarrow> int" where
  "diff_at m a b n =
     (case find (\<lambda>i. m (a + of_nat i) \<noteq> m (b + of_nat i)) [0..<n] of
        None \<Rightarrow> 0
      | Some i \<Rightarrow> uint (m (a + of_nat i)) - uint (m (b + of_nat i)))"

lemma diff_at_skip:
  assumes "k \<le> n" and "\<And>i. i < k \<Longrightarrow> m (a + of_nat i) = m (b + of_nat i)"
  shows "diff_at m a b n = diff_at m (a + of_nat k) (b + of_nat k) (n - k)"
proof -
  have none: "find (\<lambda>i. m (a + of_nat i) \<noteq> m (b + of_nat i)) [0..<k] = None"
    using assms(2) by (simp add: find_upt_eq_None_iff)
  have "find (\<lambda>i. m (a + of_nat i) \<noteq> m (b + of_nat i)) [0..<k + (n - k)] =
      map_option ((+) k) (find (\<lambda>i. m (a + of_nat (k + i)) \<noteq> m (b + of_nat (k + i))) [0..<n - k])"
    by (simp only: find_upt_append none option.case)
  then show ?thesis
    using assms(1) by (simp add: diff_at_def add.assoc split: option.split)
qed

lemma diff_at_0 [simp]: "diff_at m a b 0 = 0"
  by (simp add: diff_at_def)

lemma diff_at_first:
  "0 < n \<Longrightarrow> m a \<noteq> m b \<Longrightarrow> diff_at m a b n = uint (m a) - uint (m b)"
  by (simp add: diff_at_def upt_rec [of 0])

lemma cmp_bytes_diff: "cmp_bytes m a b n = diff_at m a b n"
proof (induction n arbitrary: a b)
  case 0
  then show ?case by simp
next
  case (Suc n)
  show ?case
  proof (cases "m a = m b")
    case True
    then show ?thesis using Suc diff_at_skip [of 1 "Suc n" m a b] by simp
  next
    case False
    then show ?thesis by (simp add: diff_at_first)
  qed
qed

lemma cmp_words_diff:
  "case cmp_words m (x, y, n) of (x', y', n') \<Rightarrow> diff_at m x' y' n' = diff_at m x y n"
proof (induction m "(x, y, n)" arbitrary: x y n rule: cmp_words.induct)
  case (1 m x y n)
  show ?case
  proof (cases "8 \<le> n \<and> load64 m x = load64 m y")
    case True
    then have "m (x + of_nat i) = m (y + of_nat i)" if "i < 8" for i
      using that by (metis load64_eq_iff nth_load_bytes)
    then have "diff_at m x y n = diff_at m (x + of_nat 8) (y + of_nat 8) (n - 8)"
      using True by (intro diff_at_skip) simp_all
    with True 1 show ?thesis by (simp add: cmp_words.simps [of m x])
  next
    case False
    then show ?thesis by (auto simp: cmp_words.simps [of m x])
  qed
qed

lemma cmp_align_diff:
  "case cmp_align m (x, y, n) of
     Inl r \<Rightarrow> diff_at m x y n = r
   | Inr (x', y', n') \<Rightarrow> diff_at m x' y' n' = diff_at m x y n"
proof (induction m "(x, y, n)" arbitrary: x y n rule: cmp_align.induct)
  case (1 m x y n)
  show ?case
  proof (cases "n \<noteq> 0 \<and> x AND 7 \<noteq> 0 \<and> m x = m y")
    case True
    then have "diff_at m x y n = diff_at m (x + of_nat 1) (y + of_nat 1) (n - 1)"
      by (intro diff_at_skip) simp_all
    moreover have "cmp_align m (x, y, n) = cmp_align m (x + 1, y + 1, n - 1)"
      using True by (simp add: cmp_align.simps [of m x])
    ultimately show ?thesis
      using 1 True by (auto split: sum.splits)
  next
    case False
    then show ?thesis by (auto simp: cmp_align.simps [of m x] diff_at_first)
  qed
qed

lemma memcmp_diff [mem_spec]: "memcmp m a b n = diff_at m a b (unat n)"
proof (cases "n \<ge> 8 \<and> same_alignment a b")
  case False
  then show ?thesis by (auto simp: memcmp_def cmp_bytes_diff)
next
  case True
  note al = cmp_align_diff [of m a b "unat n"]
  show ?thesis
  proof (cases "cmp_align m (a, b, unat n)")
    case (Inl r)
    then show ?thesis using True al by (simp add: memcmp_def)
  next
    case (Inr st)
    then obtain x y k where st: "cmp_align m (a, b, unat n) = Inr (x, y, k)"
      by (cases st) auto
    then show ?thesis
      using True al cmp_words_diff [of m x y k]
      by (simp add: memcmp_def cmp_bytes_diff split: prod.splits)
  qed
qed

lemma diff_at_eq_0_iff: "diff_at m a b n = 0 \<longleftrightarrow> (\<forall>i<n. m (a + of_nat i) = m (b + of_nat i))"
proof (cases "find (\<lambda>i. m (a + of_nat i) \<noteq> m (b + of_nat i)) [0..<n]")
  case None
  moreover from None have "\<forall>i<n. m (a + of_nat i) = m (b + of_nat i)"
    by (simp add: find_upt_eq_None_iff)
  ultimately show ?thesis by (simp add: diff_at_def)
next
  case (Some i)
  then have "i < n" "m (a + of_nat i) \<noteq> m (b + of_nat i)"
    by (simp_all add: find_upt_eq_Some_iff)
  with Some show ?thesis by (auto simp: diff_at_def word_eq_iff_unsigned [where 'a = int])
qed

section \<open>Correctness of the search\<close>

subsection \<open>The zero-byte test\<close>

text \<open>
  On the integers, borrow by borrow: subtracting 1 from every byte sets the top bit of a
  byte whose top bit was clear exactly when some byte was 0.
\<close>

lemma zero_byte_borrow:
  "(\<exists>i<length bs. bit (horner_sum uint 256 bs - horner_sum (\<lambda>_. 1) 256 bs :: int) (8 * i + 7)
       \<and> \<not> bit (horner_sum uint 256 bs :: int) (8 * i + 7))
   \<longleftrightarrow> (0 :: u8) \<in> set bs"
proof (induction bs)
  case Nil
  then show ?case by simp
next
  case (Cons b bs)
  define X where "X = (horner_sum uint 256 bs :: int)"
  define N where "N = (horner_sum (\<lambda>_. 1) 256 bs :: int)"
  have b: "0 \<le> uint b" "uint b < 256" using uint_bounded [of b] by simp_all
  have top: "bit k 7 \<longleftrightarrow> 128 \<le> k" if "0 \<le> k" "k < 256" for k :: int
    using that by (simp add: bit_iff_odd) presburger
  have hs: "horner_sum uint 256 (b # bs) = uint b + 256 * X"
       "horner_sum (\<lambda>_. 1) 256 (b # bs) = 1 + 256 * N"
    by (simp_all add: X_def N_def)
  have shift: "8 * i + 7 - 8 = 8 * (i - 1) + (7 :: nat)" if "i \<noteq> 0" for i
    using that by simp
  have low: "bit (uint b + 256 * X) (8 * i + 7) = (if i = 0 then bit (uint b) 7 else bit X (8 * (i - 1) + 7))" for i
    using bit_byte_cons [OF b, of X "8 * i + 7"] shift [of i] by auto
  show ?case
  proof (cases "b = 0")
    case True
    have e: "uint b + 256 * X - (1 + 256 * N) = 255 + 256 * (X - N - 1)"
      using True by simp
    have "bit (255 + 256 * (X - N - 1)) 7" "\<not> bit (uint b + 256 * X) 7"
      by (subst bit_byte_cons, simp_all add: top del: right_diff_distrib_numeral)
         (use True bit_byte_cons [OF b, of X 7] in simp)
    then have "bit (uint b + 256 * X - (1 + 256 * N)) 7" "\<not> bit (uint b + 256 * X) 7"
      unfolding e by simp_all
    then show ?thesis unfolding hs using True by auto
  next
    case False
    then have b1: "0 \<le> uint b - 1" "uint b - 1 < 256"
      using b uint_0_iff [of b] by linarith+
    have e: "uint b + 256 * X - (1 + 256 * N) = (uint b - 1) + 256 * (X - N)" by simp
    have step: "bit ((uint b - 1) + 256 * (X - N)) (8 * i + 7) =
        (if i = 0 then bit (uint b - 1) 7 else bit (X - N) (8 * (i - 1) + 7))" for i
      using bit_byte_cons [OF b1, of "X - N" "8 * i + 7"] shift [of i]
      by (auto simp del: right_diff_distrib_numeral)
    have no: "\<not> (bit (uint b - 1) 7 \<and> \<not> bit (uint b) 7)"
      using top [OF b] top [OF b1] by simp
    have "(\<exists>i<length (b # bs). bit ((uint b - 1) + 256 * (X - N)) (8 * i + 7) \<and> \<not> bit (uint b + 256 * X) (8 * i + 7))
        \<longleftrightarrow> (\<exists>i<length bs. bit (X - N) (8 * i + 7) \<and> \<not> bit X (8 * i + 7))"
      unfolding step low using no by (auto simp: less_Suc_eq_0_disj)
    also have "\<dots> \<longleftrightarrow> 0 \<in> set bs" using Cons.IH by (simp add: X_def N_def)
    finally show ?thesis unfolding hs e using False by simp
  qed
qed

lemma bit_high_bits:
  "bit (push_bit 7 ((NOT 0) div 0xff) :: u64) n \<longleftrightarrow> n < 64 \<and> n mod 8 = 7"
proof -
  have eq: "((NOT 0) div 0xff :: u64) = u64_of_bytes (replicate 8 1)"
    using repeat_byte_bytes [of 1] by (simp add: repeat_byte_def)
  have "bit (push_bit 7 ((NOT 0) div 0xff) :: u64) n \<longleftrightarrow>
      7 \<le> n \<and> n < 64 \<and> (n - 7) div 8 < 8 \<and> (n - 7) mod 8 = 0"
    unfolding eq by (auto simp: bit_push_bit_iff bit_u64_of_bytes bit_1_iff)
  also have "\<dots> \<longleftrightarrow> n < 64 \<and> n mod 8 = 7"
  proof (cases "7 \<le> n")
    case True
    then obtain k where n: "n = k + 7" by (metis le_add_diff_inverse2)
    have "(k + 7) mod 8 = 7 \<longleftrightarrow> k mod 8 = 0" by presburger
    moreover have "k + 7 < 64 \<Longrightarrow> k div 8 < 8" by simp
    ultimately show ?thesis unfolding n by auto
  next
    case False
    then show ?thesis by simp
  qed
  finally show ?thesis .
qed

lemma has_zero_byte_iff: "has_zero_byte x \<longleftrightarrow> 0 \<in> set (bytes_of_u64 x)"
proof -
  let ?ones = "(NOT 0) div 0xff :: u64" and ?bs = "bytes_of_u64 x"
  define X where "X = (horner_sum uint 256 ?bs :: int)"
  define N where "N = (horner_sum (\<lambda>_. 1) 256 ?bs :: int)"
  have x: "x = word_of_int X"
    using u64_of_bytes_of_u64 [of x] by (simp add: u64_of_bytes_def X_def)
  have o: "?ones = word_of_int N"
  proof -
    have "N = 0x0101010101010101"
      unfolding N_def by (simp add: horner_sum_eq_sum numeral_eq_Suc)
    then show ?thesis by simp
  qed
  have d: "x - ?ones = word_of_int (X - N)" unfolding o by (subst x) simp
  have bx: "bit x n \<longleftrightarrow> n < 64 \<and> bit X n" for n by (subst x) (simp add: bit_word_of_int_iff)
  have "has_zero_byte x \<longleftrightarrow> (\<exists>n. bit ((x - ?ones) AND NOT x AND push_bit 7 ?ones) n)"
    unfolding has_zero_byte_def Let_def by (metis bit_0_eq bit_eqI bot_apply bot_bool_def)
  also have "\<dots> \<longleftrightarrow> (\<exists>n. n < 64 \<and> n mod 8 = 7 \<and> bit (x - ?ones) n \<and> \<not> bit x n)"
    unfolding bit_and_iff bit_not_iff bit_high_bits by auto
  also have "\<dots> \<longleftrightarrow> (\<exists>n. n < 64 \<and> n mod 8 = 7 \<and> bit (X - N) n \<and> \<not> bit X n)"
    unfolding d bx bit_word_of_int_iff by auto
  also have "\<dots> \<longleftrightarrow> (\<exists>i<8. bit (X - N) (8 * i + 7) \<and> \<not> bit X (8 * i + 7))"
  proof
    assume "\<exists>n. n < 64 \<and> n mod 8 = 7 \<and> bit (X - N) n \<and> \<not> bit X n"
    then obtain n where n: "n < 64" "n mod 8 = 7" "bit (X - N) n" "\<not> bit X n" by auto
    have "8 * (n div 8) + 7 = n" "n div 8 < 8" using n(1,2) by presburger+
    with n(3,4) show "\<exists>i<8. bit (X - N) (8 * i + 7) \<and> \<not> bit X (8 * i + 7)" by metis
  next
    assume "\<exists>i<8. bit (X - N) (8 * i + 7) \<and> \<not> bit X (8 * i + 7)"
    then obtain i where "i < 8" "bit (X - N) (8 * i + 7)" "\<not> bit X (8 * i + 7)" by auto
    then show "\<exists>n. n < 64 \<and> n mod 8 = 7 \<and> bit (X - N) n \<and> \<not> bit X n"
      by (intro exI [of _ "8 * i + 7"]) simp
  qed
  also have "\<dots> \<longleftrightarrow> 0 \<in> set ?bs"
    using zero_byte_borrow [of ?bs] by (simp add: X_def N_def)
  finally show ?thesis .
qed

lemma bytes_of_u64_xor:
  "bytes_of_u64 (x XOR y) = map2 (XOR) (bytes_of_u64 x) (bytes_of_u64 y)"
proof (rule nth_equalityI)
  fix i assume "i < length (bytes_of_u64 (x XOR y))"
  then have i: "i < 8" by simp
  show "bytes_of_u64 (x XOR y) ! i = map2 (XOR) (bytes_of_u64 x) (bytes_of_u64 y) ! i"
    by (rule bit_word_eqI) (use i in \<open>simp add: bit_bytes_of_u64 bit_xor_iff\<close>)
qed simp

lemma word_xor_eq_0: "a XOR b = 0 \<longleftrightarrow> a = (b :: 'a::len word)"
  by (metis xor.assoc xor.left_neutral xor.right_neutral xor_self_eq)

text \<open>A word XORed with a repeated byte has a zero byte exactly where it held that byte.\<close>

lemma word_holds_byte:
  "has_zero_byte (load64 m p XOR repeat_byte ch) \<longleftrightarrow> ch \<in> set (load_bytes m p 8)"
proof -
  have "bytes_of_u64 (load64 m p XOR repeat_byte ch) = map (\<lambda>b. b XOR ch) (load_bytes m p 8)"
    by (simp add: bytes_of_u64_xor load64_def zip_replicate2)
  then show ?thesis
    unfolding has_zero_byte_iff by (auto simp: word_xor_eq_0 intro: rev_image_eqI)
qed

subsection \<open>Scans\<close>

definition scan_ok :: "mem \<Rightarrow> u8 \<Rightarrow> addr \<Rightarrow> nat \<Rightarrow> addr + scan_state \<Rightarrow> bool" where
  "scan_ok m ch p n r \<longleftrightarrow>
     (case r of
        Inl a \<Rightarrow> \<exists>i. find_byte m p ch n = Some i \<and> a = p + of_nat i
      | Inr (q, k) \<Rightarrow> \<exists>j. n = j + k \<and> q = p + of_nat j \<and> find_byte m p ch j = None)"

definition byte_addr :: "mem \<Rightarrow> addr \<Rightarrow> u8 \<Rightarrow> nat \<Rightarrow> addr option" where
  "byte_addr m p ch n = map_option (\<lambda>i. p + of_nat i) (find_byte m p ch n)"

lemma scan_ok_stop: "scan_ok m ch p n (Inr (p, n))"
  by (simp add: scan_ok_def)

lemma scan_ok_hit:
  "find_byte m p ch k = Some i \<Longrightarrow> k \<le> n \<Longrightarrow> scan_ok m ch p n (Inl (p + of_nat i))"
  by (auto simp: scan_ok_def find_byte_Some_iff intro!: exI [of _ i])

lemma scan_ok_step:
  assumes "find_byte m p ch k = None" and "k \<le> n" and "scan_ok m ch (p + of_nat k) (n - k) r"
  shows "scan_ok m ch p n r"
proof -
  have split: "find_byte m p ch (k + j) = map_option ((+) k) (find_byte m (p + of_nat k) ch j)" for j
    by (simp add: find_byte_split assms(1))
  show ?thesis
  proof (cases r)
    case (Inl a)
    then show ?thesis
      using assms(2,3) split [of "n - k"] by (auto simp: scan_ok_def add.assoc)
  next
    case (Inr qk)
    then obtain q l j where "r = Inr (q, l)" "n - k = j + l" "q = p + of_nat k + of_nat j"
        "find_byte m (p + of_nat k) ch j = None"
      using assms(3) by (cases qk) (auto simp: scan_ok_def)
    then show ?thesis
      using assms(2) split [of j] by (auto simp: scan_ok_def intro!: exI [of _ "k + j"])
  qed
qed

lemma scan_ok_trans:
  assumes "scan_ok m ch p n (Inr (q, k))" and "scan_ok m ch q k r"
  shows "scan_ok m ch p n r"
proof -
  from assms(1) obtain j where "n = j + k" "q = p + of_nat j" "find_byte m p ch j = None"
    by (auto simp: scan_ok_def)
  then show ?thesis using assms(2) by (intro scan_ok_step [of m p ch j]) simp_all
qed

lemma scan_ok_result:
  "scan_ok m ch p n (Inl a) \<Longrightarrow> byte_addr m p ch n = Some a"
  "scan_ok m ch p n (Inr (q, k)) \<Longrightarrow> byte_addr m p ch n = byte_addr m q ch k"
  by (auto simp: scan_ok_def byte_addr_def find_byte_split option.map_comp comp_def add.assoc)

lemma eq_mask_find:
  assumes "w \<le> 32"
  shows "eq_mask w m p ch = 0 \<Longrightarrow> find_byte m p ch w = None"
    and "eq_mask w m p ch \<noteq> 0 \<Longrightarrow> find_byte m p ch w = Some (ctz (eq_mask w m p ch))"
proof -
  let ?bs = "map (\<lambda>b. b = ch) (load_bytes m p w)"
  have bs: "length ?bs = w" "\<And>i. i < w \<Longrightarrow> ?bs ! i \<longleftrightarrow> m (p + of_nat i) = ch" by simp_all
  have f: "find (\<lambda>i. ?bs ! i) [0..<length ?bs] = find_byte m p ch w"
    unfolding find_byte_def bs(1) by (rule find_cong) (simp_all add: bs(2) del: nth_map)
  have zero: "eq_mask w m p ch = 0 \<longleftrightarrow> find_byte m p ch w = None"
    unfolding eq_mask_def using assms
    by (subst movemask_eq_0) (auto simp: find_byte_None_iff set_load_bytes)
  show "eq_mask w m p ch = 0 \<Longrightarrow> find_byte m p ch w = None" using zero by simp
  assume "eq_mask w m p ch \<noteq> 0"
  then obtain i where "find_byte m p ch w = Some i" using zero by auto
  then show "find_byte m p ch w = Some (ctz (eq_mask w m p ch))"
    unfolding eq_mask_def using ctz_movemask [of ?bs i] assms f by simp
qed

lemma scan_vec_ok: "w \<le> 32 \<Longrightarrow> scan_ok m ch p n (scan_vec w m ch (p, n))"
proof (induction w m ch "(p, n)" arbitrary: p n rule: scan_vec.induct)
  case (1 w m ch p n)
  let ?k = "eq_mask w m p ch"
  show ?case
  proof (cases "0 < w \<and> w \<le> n")
    case False
    then have "scan_vec w m ch (p, n) = Inr (p, n)"
      unfolding scan_vec.simps [of w m ch p] by auto
    then show ?thesis by (simp add: scan_ok_stop)
  next
    case True
    note find = eq_mask_find [OF 1(2), of m p ch]
    show ?thesis
    proof (cases "?k = 0")
      case False
      then show ?thesis
        unfolding scan_vec.simps [of w m ch p] Let_def using True
        by (simp add: scan_ok_hit [OF find(2) [OF False]])
    next
      case k: True
      have "scan_ok m ch (p + of_nat w) (n - w) (scan_vec w m ch (p + of_nat w, n - w))"
        using True k 1(2) by (intro 1(1)) simp_all
      then have "scan_ok m ch p n (scan_vec w m ch (p + of_nat w, n - w))"
        using True by (intro scan_ok_step [OF find(1) [OF k]]) simp_all
      then show ?thesis
        unfolding scan_vec.simps [of w m ch p] Let_def using True k by simp
    qed
  qed
qed

text \<open>Lanes that do not match, and the first that does.\<close>

lemma eq_mask_row_none:
  assumes "w \<le> 32" and "\<And>j. j < i \<Longrightarrow> eq_mask w m (p + of_nat (w * j)) ch = 0"
  shows "find_byte m p ch (w * i) = None"
  using assms(2)
proof (induction i)
  case 0
  then show ?case by simp
next
  case (Suc i)
  have "find_byte m (p + of_nat (w * i)) ch w = None"
    using Suc.prems by (intro eq_mask_find(1) [OF assms(1)]) simp
  with Suc show ?case
    using find_byte_split [of m p ch "w * i" w] by (simp add: add.commute)
qed

lemma scan_ok_lane:
  assumes "w \<le> 32" and "\<And>j. j < i \<Longrightarrow> eq_mask w m (p + of_nat (w * j)) ch = 0"
    and "eq_mask w m (p + of_nat (w * i)) ch \<noteq> 0" and "w * i + w \<le> n"
  shows "scan_ok m ch p n (Inl (p + of_nat (w * i) + of_nat (ctz (eq_mask w m (p + of_nat (w * i)) ch))))"
proof -
  have "scan_ok m ch (p + of_nat (w * i)) (n - w * i)
      (Inl (p + of_nat (w * i) + of_nat (ctz (eq_mask w m (p + of_nat (w * i)) ch))))"
    using assms(4) by (intro scan_ok_hit [OF eq_mask_find(2) [OF assms(1,3)]]) linarith
  moreover have "w * i \<le> n" using assms(4) by linarith
  ultimately show ?thesis
    by (intro scan_ok_step [OF eq_mask_row_none [OF assms(1,2)]])
qed

lemma scan_vec4_ok: "w \<le> 32 \<Longrightarrow> scan_ok m ch p n (scan_vec4 w m ch (p, n))"
proof (induction w m ch "(p, n)" arbitrary: p n rule: scan_vec4.induct)
  case (1 w m ch p n)
  let ?k = "\<lambda>i. eq_mask w m (p + of_nat (w * i)) ch"
  show ?case
  proof (cases "0 < w \<and> w * 4 \<le> n")
    case False
    then have "scan_vec4 w m ch (p, n) = Inr (p, n)"
      unfolding scan_vec4.simps [of w m ch p] by auto
    then show ?thesis by (simp add: scan_ok_stop)
  next
    case True
    have eq: "scan_vec4 w m ch (p, n) =
        (if ?k 0 \<noteq> 0 then Inl (p + of_nat (w * 0) + of_nat (ctz (?k 0)))
         else if ?k 1 \<noteq> 0 then Inl (p + of_nat (w * 1) + of_nat (ctz (?k 1)))
         else if ?k 2 \<noteq> 0 then Inl (p + of_nat (w * 2) + of_nat (ctz (?k 2)))
         else if ?k 3 \<noteq> 0 then Inl (p + of_nat (w * 3) + of_nat (ctz (?k 3)))
         else scan_vec4 w m ch (p + of_nat (w * 4), n - w * 4))"
      unfolding scan_vec4.simps [of w m ch p] Let_def using True by simp
    have hit: "scan_ok m ch p n (Inl (p + of_nat (w * i) + of_nat (ctz (?k i))))"
      if "i < 4" "\<And>j. j < i \<Longrightarrow> ?k j = 0" "?k i \<noteq> 0" for i
    proof (rule scan_ok_lane [OF 1(2) that(2,3)])
      have "w * Suc i \<le> w * 4" using that(1) by (intro mult_le_mono2) simp
      then show "w * i + w \<le> n" using True unfolding mult_Suc_right by linarith
    qed
    have all: "scan_ok m ch p n (scan_vec4 w m ch (p + of_nat (w * 4), n - w * 4))"
      if "?k 0 = 0" "?k 1 = 0" "?k 2 = 0" "?k 3 = 0"
    proof (rule scan_ok_step [where k = "w * 4"])
      show "find_byte m p ch (w * 4) = None"
      proof (rule eq_mask_row_none [OF 1(2)])
        fix j :: nat assume "j < 4"
        then have "j = 0 \<or> j = 1 \<or> j = 2 \<or> j = 3" by auto
        with that show "?k j = 0" by blast
      qed
      show "scan_ok m ch (p + of_nat (w * 4)) (n - w * 4) (scan_vec4 w m ch (p + of_nat (w * 4), n - w * 4))"
        using True that 1(2) by (intro 1(1)) simp_all
    qed (use True in simp)
    have less: "j < 1 \<Longrightarrow> j = 0" "j < 2 \<Longrightarrow> j = 0 \<or> j = 1" "j < 3 \<Longrightarrow> j = 0 \<or> j = 1 \<or> j = 2" for j :: nat
      by auto
    have h0: "scan_ok m ch p n (Inl (p + of_nat (w * 0) + of_nat (ctz (?k 0))))"
      if  "?k 0 \<noteq> 0"
      using that by (intro hit) (auto dest!: less(1))
    have h1: "scan_ok m ch p n (Inl (p + of_nat (w * 1) + of_nat (ctz (?k 1))))"
      if "?k 0 = 0" "?k 1 \<noteq> 0"
      using that by (intro hit) (auto dest!: less(1))
    have h2: "scan_ok m ch p n (Inl (p + of_nat (w * 2) + of_nat (ctz (?k 2))))"
      if "?k 0 = 0" "?k 1 = 0" "?k 2 \<noteq> 0"
      using that by (intro hit) (auto dest!: less(2))
    have h3: "scan_ok m ch p n (Inl (p + of_nat (w * 3) + of_nat (ctz (?k 3))))"
      if "?k 0 = 0" "?k 1 = 0" "?k 2 = 0" "?k 3 \<noteq> 0"
      using that by (intro hit) (auto dest!: less(3))
    show ?thesis
      unfolding eq using h0 h1 h2 h3 all by (simp only: split: if_split) blast
  qed
qed

lemma scan_align_ok: "scan_ok m ch p n (scan_align m ch am (p, n))"
proof (induction m ch am "(p, n)" arbitrary: p n rule: scan_align.induct)
  case (1 m ch am p n)
  show ?case
  proof (cases "n \<noteq> 0 \<and> p AND am \<noteq> 0")
    case False
    then have "scan_align m ch am (p, n) = Inr (p, n)"
      unfolding scan_align.simps [of m ch am p] by auto
    then show ?thesis by (simp add: scan_ok_stop)
  next
    case True
    show ?thesis
    proof (cases "m p = ch")
      case hit: True
      then have "find_byte m p ch 1 = Some 0" by (simp add: find_byte_1)
      then show ?thesis
        using True hit scan_ok_hit [of m p ch 1 0 n] by (simp add: scan_align.simps [of m ch am p])
    next
      case False
      have "scan_ok m ch p n (scan_align m ch am (p + 1, n - 1))"
        by (rule scan_ok_step [of m p ch 1]) (use True False 1 in \<open>simp_all add: find_byte_1\<close>)
      then show ?thesis using True False by (simp add: scan_align.simps [of m ch am p])
    qed
  qed
qed

lemma scan_words_ok: "scan_ok m ch p n (Inr (scan_words m ch (p, n)))"
proof (induction m ch "(p, n)" arbitrary: p n rule: scan_words.induct)
  case (1 m ch p n)
  show ?case
  proof (cases "8 \<le> n \<and> \<not> has_zero_byte (load64 m p XOR repeat_byte ch)")
    case False
    then have "scan_words m ch (p, n) = (p, n)"
      unfolding scan_words.simps [of m ch p] by auto
    then show ?thesis by (simp add: scan_ok_stop)
  next
    case True
    then have "find_byte m p ch 8 = None"
      by (auto simp: word_holds_byte find_byte_None_iff set_load_bytes)
    then have "scan_ok m ch p n (Inr (scan_words m ch (p + of_nat 8, n - 8)))"
      using True 1 by (intro scan_ok_step [of m p ch 8]) simp_all
    then show ?thesis using True by (simp add: scan_words.simps [of m ch p])
  qed
qed

lemma scan_bytes_addr: "scan_bytes m ch p n = byte_addr m p ch n"
  by (induction n arbitrary: p)
     (auto simp: byte_addr_def find_byte_Suc option.map_comp comp_def add.assoc)

lemmas scan_oks = scan_vec4_ok scan_vec_ok scan_align_ok scan_words_ok

lemma memchr_sse2_addr: "memchr_sse2 m s c n = byte_addr m s (ucast c) n"
proof -
  let ?ch = "ucast c :: u8"
  have a: "scan_ok m ?ch p k (scan_vec4 16 m ?ch (p, k))" "scan_ok m ?ch p k (scan_vec 16 m ?ch (p, k))"
    for p k by (simp_all add: scan_oks)
  show ?thesis
    using a(1) [of s n] a(2)
    by (auto simp: memchr_sse2_def Let_def scan_bytes_addr scan_ok_result
        split: sum.split prod.split) (metis scan_ok_result)+
qed

lemma memchr_avx2_addr: "memchr_avx2 m s c n = byte_addr m s (ucast c) n"
proof -
  let ?ch = "ucast c :: u8"
  have a: "scan_ok m ?ch p k (scan_vec4 32 m ?ch (p, k))" "scan_ok m ?ch p k (scan_vec 32 m ?ch (p, k))"
    for p k by (simp_all add: scan_oks)
  show ?thesis
    using a(1) [of s n] a(2)
    by (auto simp: memchr_avx2_def Let_def memchr_sse2_addr scan_ok_result
        split: sum.split prod.split) (metis scan_ok_result)+
qed

lemma memchr_addr [mem_spec]: "memchr cp m s c n = byte_addr m s (ucast c) (unat n)"
proof -
  let ?ch = "ucast c :: u8"
  have a: "scan_ok m ?ch s (unat n) (scan_align m ?ch 7 (s, unat n))"
    "scan_ok m ?ch p k (Inr (scan_words m ?ch (p, k)))" for p k
    by (simp_all add: scan_oks)
  show ?thesis
    using a
    by (auto simp: memchr_def Let_def memchr_sse2_addr memchr_avx2_addr scan_bytes_addr scan_ok_result
        split: sum.split prod.split) (metis scan_ok_result)+
qed

section \<open>CPU features are detected once\<close>

lemma or_nonneg: "0 \<le> a \<Longrightarrow> 0 \<le> b \<Longrightarrow> 0 \<le> a OR (b :: int)"
  by simp

lemma cpu_features_nonneg: "0 \<le> fst (cpu_features c 0)"
  by (auto simp: cpu_features_def Let_def CPU_SSE2_def CPU_AVX_def CPU_AVX2_def split: prod.split)

lemma cpu_features_cached:
  "cpu_features c (snd (cpu_features c 0)) = (fst (cpu_features c 0), snd (cpu_features c 0))"
proof -
  have snd: "snd (cpu_features c 0) =
      (if fst (cpu_features c 0) \<noteq> 0 then fst (cpu_features c 0) else -1)"
    by (simp add: cpu_features_def Let_def split: prod.split)
  have *: "cpu_features c k = (if k > 0 then k else 0, k)" if "k \<noteq> 0" for k
    using that by (simp add: cpu_features_def)
  show ?thesis
    using cpu_features_nonneg [of c] unfolding snd by (auto simp: *)
qed

section \<open>The contract of the memory routines\<close>

text \<open>
  What the clients of the memory routines rely on. The closed forms are the laws; the
  lemmas of the locale are the facts that hold of every implementation, the optimised
  routines of the C library and the byte loops of the kernel alike.
\<close>

locale mem_ops =
  fixes cpy mov :: "mem \<Rightarrow> addr \<Rightarrow> addr \<Rightarrow> size_t \<Rightarrow> mem \<times> addr"
    and set :: "mem \<Rightarrow> addr \<Rightarrow> u32 \<Rightarrow> size_t \<Rightarrow> mem \<times> addr"
    and cmp :: "mem \<Rightarrow> addr \<Rightarrow> addr \<Rightarrow> size_t \<Rightarrow> int"
  assumes cpy: "fwd_ok d s (unat n) \<Longrightarrow> cpy m d s n = (blit m d s (unat n), d)"
    and mov: "unat n \<le> 2 ^ 63 \<Longrightarrow> unat s + unat n \<le> 2 ^ 64 \<Longrightarrow>
      mov m d s n = (blit m d s (unat n), d)"
    and set: "set m d v n = (fill m d (ucast v) (unat n), d)"
    and cmp: "cmp m a b n = 0 \<longleftrightarrow> load_bytes m a (unat n) = load_bytes m b (unat n)"
begin

lemma cpy_eq_mov:
  "fwd_ok d s (unat n) \<Longrightarrow> unat n \<le> 2 ^ 63 \<Longrightarrow> unat s + unat n \<le> 2 ^ 64 \<Longrightarrow>
   cpy m d s n = mov m d s n"
  by (simp add: cpy mov)

lemma mov_reads_source:
  assumes "unat n \<le> 2 ^ 63" and "unat s + unat n \<le> 2 ^ 64"
  shows "load_bytes (fst (mov m d s n)) d (unat n) = load_bytes m s (unat n)"
  using assms by (simp add: mov load_bytes_blit_same)

lemma mov_frame:
  assumes "unat n \<le> 2 ^ 63" and "unat s + unat n \<le> 2 ^ 64" and "unat n \<le> unat (a - d)"
  shows "fst (mov m d s n) a = m a"
  using assms by (simp add: mov blit_def)

lemma cmp_after_cpy:
  assumes "fwd_ok d s (unat n)" and "unat n \<le> unat (s - d)" and "n \<noteq> 0"
  shows "cmp (fst (cpy m d s n)) d s n = 0"
proof -
  have "d \<noteq> s" using assms by (auto simp: unat_eq_0)
  then have "unat n \<le> unat (d - s)" using assms by (simp add: fwd_ok_def)
  then have fit: "unat (s - d) + unat n \<le> 2 ^ 64"
    using assms(2,3) unat_lt64 [of s] unat_lt64 [of d] by (simp add: unat_sub64 split: if_splits)
  show ?thesis
    unfolding cmp cpy [OF assms(1)] fst_conv
    using unat_lt64 [of n]
    by (simp add: load_bytes_blit_same load_bytes_blit_other [OF assms(2) fit])
qed

lemma set_twice: "set (fst (set m d v n)) d v' n = set m d v' n"
  by (auto simp: set fill_def)

end

lemma memcmp_eq_0:
  "memcmp m a b n = 0 \<longleftrightarrow> load_bytes m a (unat n) = load_bytes m b (unat n)"
  by (auto simp: memcmp_diff diff_at_eq_0_iff load_bytes_def)

interpretation libc_mem: mem_ops "memcpy c" "memmove c" "memset c" memcmp
  by unfold_locales (simp_all add: memcpy_blit memmove_blit memset_fill memcmp_eq_0)

section \<open>Properties\<close>

text \<open>
  C1: \<open>memmove\<close> returns its destination, and afterwards the \<open>n\<close> bytes at \<open>dst\<close> are the
  \<open>n\<close> bytes that were at \<open>src\<close> before the call, however the two regions overlap, and no
  other byte of memory has changed; on every CPU, alignment and length up to half the
  address space.
\<close>

theorem memmove_correct:
  assumes "unat n \<le> 2 ^ 63"
  shows "snd (memmove c m dst src n) = dst \<and>
    load_bytes (fst (memmove c m dst src n)) dst (unat n) = load_bytes m src (unat n) \<and>
    (\<forall>a. unat n \<le> unat (a - dst) \<longrightarrow> fst (memmove c m dst src n) a = m a)"
  using assms load_bytes_blit_same [of "unat n" m dst src] by (auto simp: memmove_blit blit_def)

text \<open>A processor that reports no vector unit, for the concrete evaluations.\<close>

definition plain_cpu :: cpu where
  "plain_cpu = \<lparr>cpuid_leaf = \<lambda>_ _. (0, 0, 0, 0), xgetbv0 = 0\<rparr>"

theorem memmove_correct_witness:
  "unat (5 :: size_t) \<le> 2 ^ 63 \<and>
   load_bytes (fst (memmove plain_cpu ucast 3 1 5)) 3 5 = load_bytes ucast 1 5"
  using memmove_correct [of 5 plain_cpu ucast 3 1] by simp

text \<open>
  \<open>memcpy\<close> of regions that do not overlap (or where the destination lies below the
  source) copies exactly \<open>n\<close> bytes, whichever of the byte, word, SSE2 and AVX loops run,
  and \<open>memcmp\<close> of the two regions then reports equality when they are disjoint.
\<close>

theorem memcpy_then_memcmp:
  assumes "fwd_ok dst src (unat n)" and "unat n \<le> unat (src - dst)" and "n \<noteq> 0"
  shows "fst (memcpy c m dst src n) = blit m dst src (unat n) \<and>
    memcmp (fst (memcpy c m dst src n)) dst src n = 0"
  using libc_mem.cmp_after_cpy [OF assms] libc_mem.cpy [OF assms(1)] by simp

theorem memcpy_then_memcmp_witness:
  "fwd_ok 0x2000 0x1000 (unat (16 :: size_t)) \<and>
   memcmp (fst (memcpy plain_cpu ucast 0x2000 0x1000 16)) 0x2000 0x1000 16 = 0"
proof -
  have ok: "fwd_ok 0x2000 0x1000 (unat (16 :: size_t))" by (simp add: fwd_ok_def)
  have "unat (16 :: size_t) \<le> unat (0x1000 - 0x2000 :: addr)" "(16 :: size_t) \<noteq> 0" by simp_all
  then show ?thesis
    using ok memcpy_then_memcmp [OF ok, of plain_cpu ucast] by blast
qed

text \<open>
  \<open>memset\<close> stores the low byte of its value in exactly the \<open>n\<close> bytes at \<open>dst\<close>, for
  every length, alignment and instruction set.
\<close>

theorem memset_correct:
  "memset c m dst v n = (\<lambda>a. if unat (a - dst) < unat n then ucast v else m a, dst)"
  by (simp add: libc_mem.set fill_def)

text \<open>
  \<open>memcmp\<close>, with its word-at-a-time skip, returns the difference of the first pair of
  bytes that differ, and 0 when there is none.
\<close>

theorem memcmp_first_difference:
  "memcmp m a b n =
     (case find (\<lambda>i. m (a + of_nat i) \<noteq> m (b + of_nat i)) [0..<unat n] of
        None \<Rightarrow> 0
      | Some i \<Rightarrow> uint (m (a + of_nat i)) - uint (m (b + of_nat i)))"
  by (simp add: memcmp_diff diff_at_def)

text \<open>
  C2: \<open>memchr\<close>, in its AVX2, SSE2 and word-at-a-time forms, returns the address of the
  first of the \<open>n\<close> bytes equal to the character, or null.
\<close>

theorem memchr_first:
  "memchr c m s ch n =
     map_option (\<lambda>i. s + of_nat i) (find (\<lambda>i. m (s + of_nat i) = ucast ch) [0..<unat n])"
  by (simp add: memchr_addr byte_addr_def find_byte_def)

text \<open>
  The carry trick \<open>has_zero_byte\<close> is exact: it holds of a 64-bit word if and only if
  one of its eight bytes is zero.
\<close>

theorem has_zero_byte_exact: "has_zero_byte x \<longleftrightarrow> 0 \<in> set (bytes_of_u64 x)"
  by (rule has_zero_byte_iff)

end
