(* ===== verification/Libc_Strings.thy ===== *)
theory Libc_Strings
  imports Libc_Memory "HOL-Library.Monad_Syntax" "HOL-Library.List_Lexorder"
begin

text \<open>
  The string half of \<^verbatim>\<open>src/src/libc/src/string.c\<close>. A loop that runs until it meets
  a terminator may run for ever on memory without one, so it is a partial function whose
  value \<open>None\<close> means that it does not return; the theorems show that every routine
  returns on C strings (\<open>cstr m s k\<close>: \<open>k\<close> non-zero bytes, then a zero) and what it
  returns. A null pointer result is an inner \<open>None\<close>.
\<close>

section \<open>Pointer loops\<close>

lemma unat_SIZE_MAX: "unat SIZE_MAX = 2 ^ 64 - 1"
  by (simp add: unsigned_minus_1_eq_mask mask_eq_exp_minus_1)

text \<open>\<^verbatim>\<open>while (!P(p)) p += w;\<close>\<close>

partial_function (option) advance :: "nat \<Rightarrow> (addr \<Rightarrow> bool) \<Rightarrow> addr \<Rightarrow> addr option" where
  "advance w P p = (if P p then Some p else advance w P (p + of_nat w))"

lemma advance_stop: "P p \<Longrightarrow> advance w P p = Some p"
  by (simp add: advance.simps)

lemma advance_go: "\<not> P p \<Longrightarrow> advance w P p = advance w P (p + of_nat w)"
  by (subst advance.simps) simp

lemma advance_reaches:
  "P (p + of_nat (w * i)) \<Longrightarrow>
   \<exists>j\<le>i. advance w P p = Some (p + of_nat (w * j)) \<and> P (p + of_nat (w * j)) \<and>
     (\<forall>l<j. \<not> P (p + of_nat (w * l)))"
proof (induction i arbitrary: p)
  case 0
  then show ?case by (auto intro: advance_stop)
next
  case (Suc i)
  show ?case
  proof (cases "P p")
    case True
    then show ?thesis by (auto intro!: exI [of _ 0] advance_stop)
  next
    case False
    from Suc.prems have "P ((p + of_nat w) + of_nat (w * i))"
      by (simp add: algebra_simps)
    from Suc.IH [OF this] obtain j where j: "j \<le> i"
      "advance w P (p + of_nat w) = Some (p + of_nat w + of_nat (w * j))"
      "P (p + of_nat w + of_nat (w * j))" "\<forall>l<j. \<not> P (p + of_nat w + of_nat (w * l))"
      by blast
    have shift: "p + of_nat w + of_nat (w * l) = p + of_nat (w * Suc l)" for l
      by (simp add: algebra_simps)
    have "\<forall>l<Suc j. \<not> P (p + of_nat (w * l))"
      using j(4) False unfolding shift All_less_Suc2 by simp
    then show ?thesis
      using j(1,2,3) advance_go [of P p w] False unfolding shift
      by (intro exI [of _ "Suc j"]) simp
  qed
qed

lemma cstr_suffix: "cstr m s k \<Longrightarrow> j \<le> k \<Longrightarrow> cstr m (s + of_nat j) (k - j)"
  by (auto simp: cstr_def add.assoc simp flip: of_nat_add)

lemma find_byte_row:
  "(\<And>l. l < j \<Longrightarrow> find_byte m (p + of_nat (w * l)) ch w = None) \<Longrightarrow> find_byte m p ch (w * j) = None"
proof (induction j)
  case 0
  then show ?case by simp
next
  case (Suc j)
  then show ?case using find_byte_split [of m p ch "w * j" w] by (simp add: add.commute)
qed

text \<open>
  One stage of a scan: from \<open>p\<close>, where a string of length \<open>r\<close> starts, the loop stops at
  some \<open>q\<close> inside the string, having skipped no occurrence of \<open>ch\<close>.
\<close>

lemma advance_scan:
  assumes str: "cstr m p r" and w: "0 < w" and stop: "P (p + of_nat (w * (r div w)))"
    and skip: "\<And>q. \<not> P q \<Longrightarrow> find_byte m q ch w = None"
  obtains q t where "advance w P p = Some q" "P q" "cstr m q t" "scan_ok m ch p r (Inr (q, t))"
proof -
  from advance_reaches [of P, OF stop] obtain j where j: "j \<le> r div w"
    "advance w P p = Some (p + of_nat (w * j))" "P (p + of_nat (w * j))"
    "\<forall>l<j. \<not> P (p + of_nat (w * l))" by blast
  have le: "w * j \<le> r"
    using mult_le_mono2 [OF j(1), of w] times_div_less_eq_dividend [of w r] by linarith
  have "find_byte m p ch (w * j) = None"
    by (rule find_byte_row) (use j(4) skip in blast)
  then have "scan_ok m ch p r (Inr (p + of_nat (w * j), r - w * j))"
    using le by (auto simp: scan_ok_def intro!: exI [of _ "w * j"])
  then show ?thesis
    using that [OF j(2,3) cstr_suffix [OF str le]] by blast
qed

section \<open>Lengths\<close>

text \<open>The tail loop \<^verbatim>\<open>while (n && *p) { p++; n--; }\<close>.\<close>

fun str_tail :: "mem \<Rightarrow> addr \<Rightarrow> nat \<Rightarrow> addr" where
  "str_tail m p 0 = p"
| "str_tail m p (Suc n) = (if m p \<noteq> 0 then str_tail m (p + 1) n else p)"

definition strnlen_sse2 :: "mem \<Rightarrow> addr \<Rightarrow> nat \<Rightarrow> size_t" where
  "strnlen_sse2 m s maxlen =
     (case scan_align m 0 15 (s, maxlen) of
        Inl p \<Rightarrow> p - s
      | Inr st \<Rightarrow> (case scan_vec 16 m 0 st of
                     Inl p \<Rightarrow> p - s
                   | Inr (p, n) \<Rightarrow> str_tail m p n - s))"

definition strnlen_avx2 :: "mem \<Rightarrow> addr \<Rightarrow> nat \<Rightarrow> size_t" where
  "strnlen_avx2 m s maxlen =
     (case scan_align m 0 31 (s, maxlen) of
        Inl p \<Rightarrow> p - s
      | Inr st \<Rightarrow> (case scan_vec 32 m 0 st of
                     Inl p \<Rightarrow> p - s
                   | Inr (p, n) \<Rightarrow> (p - s) + strnlen_sse2 m p n))"

definition strlen :: "cpu \<Rightarrow> mem \<Rightarrow> addr \<Rightarrow> size_t option" where
  "strlen c m s =
     (if simd_has c CPU_AVX2 then Some (strnlen_avx2 m s (unat SIZE_MAX))
      else if simd_has c CPU_SSE2 then Some (strnlen_sse2 m s (unat SIZE_MAX))
      else do {
        p \<leftarrow> advance 1 (\<lambda>p. p AND 7 = 0 \<or> m p = 0) s;
        if p AND 7 \<noteq> 0 then Some (p - s)
        else do {
          p \<leftarrow> advance 8 (\<lambda>p. has_zero_byte (load64 m p)) p;
          p \<leftarrow> advance 1 (\<lambda>p. m p = 0) p;
          Some (p - s)
        }
      })"

definition strnlen :: "cpu \<Rightarrow> mem \<Rightarrow> addr \<Rightarrow> size_t \<Rightarrow> size_t" where
  "strnlen c m s maxlen =
     (if maxlen \<ge> 96 \<and> simd_has c CPU_AVX2 then strnlen_avx2 m s (unat maxlen)
      else if maxlen \<ge> 64 \<and> simd_has c CPU_SSE2 then strnlen_sse2 m s (unat maxlen)
      else case scan_align m 0 7 (s, unat maxlen) of
             Inl p \<Rightarrow> p - s
           | Inr st \<Rightarrow> (case scan_words m 0 st of (p, n) \<Rightarrow> str_tail m p n - s))"

subsection \<open>Correctness\<close>

definition len_upto :: "mem \<Rightarrow> addr \<Rightarrow> nat \<Rightarrow> nat" where
  "len_upto m s n = (case find_byte m s 0 n of None \<Rightarrow> n | Some i \<Rightarrow> i)"

lemma str_tail_len: "str_tail m p n = p + of_nat (len_upto m p n)"
  by (induction n arbitrary: p) (auto simp: len_upto_def find_byte_Suc add.assoc split: option.split)

lemma scan_ok_len:
  "scan_ok m 0 p n (Inl a) \<Longrightarrow> a = p + of_nat (len_upto m p n)"
  "scan_ok m 0 p n (Inr (q, k)) \<Longrightarrow> q + of_nat (len_upto m q k) = p + of_nat (len_upto m p n)"
  by (auto simp: scan_ok_def len_upto_def find_byte_split add.assoc split: option.split)

lemma strnlen_sse2_len: "strnlen_sse2 m s n = of_nat (len_upto m s n)"
proof -
  have a: "scan_ok m 0 s n (scan_align m 0 15 (s, n))"
    and v: "scan_ok m 0 p k (scan_vec 16 m 0 (p, k))" for p k
    by (simp_all add: scan_oks)
  show ?thesis
    using a v unfolding strnlen_sse2_def
    by (auto split: sum.split prod.split simp: str_tail_len)
      (metis add_diff_cancel_left' scan_ok_len)+
qed

lemma strnlen_avx2_len: "strnlen_avx2 m s n = of_nat (len_upto m s n)"
proof -
  have a: "scan_ok m 0 s n (scan_align m 0 31 (s, n))"
    and v: "scan_ok m 0 p k (scan_vec 32 m 0 (p, k))" for p k
    by (simp_all add: scan_oks)
  have e: "x - y + z = (x + z) - (y :: addr)" for x y z by simp
  show ?thesis
    using a v unfolding strnlen_avx2_def
    by (auto split: sum.split prod.split simp: strnlen_sse2_len e simp del: add_diff_eq)
      (metis add_diff_cancel_left' scan_ok_len)+
qed

lemma strnlen_len: "strnlen c m s n = of_nat (len_upto m s (unat n))"
proof -
  have a: "scan_ok m 0 s (unat n) (scan_align m 0 7 (s, unat n))"
    and v: "scan_ok m 0 p k (Inr (scan_words m 0 (p, k)))" for p k
    by (simp_all add: scan_oks)
  show ?thesis
    using a v unfolding strnlen_def
    by (auto split: sum.split prod.split simp: str_tail_len strnlen_sse2_len strnlen_avx2_len)
      (metis add_diff_cancel_left' scan_ok_len)+
qed

lemma len_upto_cstr: "cstr m s k \<Longrightarrow> len_upto m s n = min k n"
  by (auto simp: len_upto_def find_byte_cstr)

lemma zero_byte_at: "has_zero_byte (load64 m q) \<longleftrightarrow> find_byte m q 0 8 \<noteq> None"
  by (auto simp: has_zero_byte_iff load64_def set_load_bytes find_byte_None_iff)

lemma cstr_at: "cstr m p r \<Longrightarrow> 0 < w \<Longrightarrow> find_byte m (p + of_nat (w * (r div w))) 0 w \<noteq> None"
  using cstr_suffix [of m p r "w * (r div w)"]
  by (auto simp: find_byte_cstr minus_mult_div_eq_mod)

lemma strlen_cstr [mem_spec]:
  assumes "cstr m s k"
  shows "strlen c m s = Some (of_nat k)"
proof (cases "simd_has c CPU_AVX2 \<or> simd_has c CPU_SSE2")
  case True
  have "len_upto m s (unat SIZE_MAX) = k"
    using assms cstr_bound [OF assms] by (simp add: len_upto_cstr unat_SIZE_MAX)
  then show ?thesis
    using True by (auto simp: strlen_def strnlen_avx2_len strnlen_sse2_len)
next
  case False
  let ?P = "\<lambda>p. p AND 7 = 0 \<or> m p = 0"
  obtain q t where q: "advance 1 ?P s = Some q" "?P q" "cstr m q t" "scan_ok m 0 s k (Inr (q, t))"
    using assms
    by (rule advance_scan [where P = ?P and w = 1 and ch = 0])
       (use assms in \<open>auto simp: cstr_def find_byte_1\<close>)
  let ?Q = "\<lambda>p. has_zero_byte (load64 m p)"
  obtain r u where r: "advance 8 ?Q q = Some r" "cstr m r u" "scan_ok m 0 q t (Inr (r, u))"
    using q(3)
    by (rule advance_scan [where P = ?Q and w = 8 and ch = 0])
       (use cstr_at [OF q(3), of 8] in \<open>auto simp: zero_byte_at\<close>)
  obtain x v where x: "advance 1 (\<lambda>p. m p = 0) r = Some x" "m x = 0" "cstr m x v"
      "scan_ok m 0 r u (Inr (x, v))"
    using r(2)
    by (rule advance_scan [where P = "\<lambda>p. m p = 0" and w = 1 and ch = 0])
       (use r(2) in \<open>auto simp: cstr_def find_byte_1\<close>)
  have end1: "t = 0" if "m q = 0" using q(3) that cstr_unique [of m q t 0] by simp
  have end2: "v = 0" using x cstr_unique [of m x v 0] by simp
  have sx: "x - s = of_nat k"
    using scan_ok_trans [OF q(4) scan_ok_trans [OF r(3) x(4)]] end2 by (auto simp: scan_ok_def)
  have sq: "q - s = of_nat k" if "m q = 0"
    using q(4) end1 [OF that] by (auto simp: scan_ok_def)
  show ?thesis
    using False q(1,2) r(1) x(1) sx sq by (auto simp: strlen_def)
qed


section \<open>Searching for a character\<close>

text \<open>
  The prologue common to the three variants: \<open>Inl\<close> is a result of the byte loop up to the
  \<open>am + 1\<close>-byte boundary, \<open>Inr\<close> the boundary reached.
\<close>

definition strchr_align :: "mem \<Rightarrow> u8 \<Rightarrow> addr \<Rightarrow> addr \<Rightarrow> (addr option + addr) option" where
  "strchr_align m ch am s = do {
     p \<leftarrow> advance 1 (\<lambda>p. p AND am = 0 \<or> m p = ch \<or> m p = 0) s;
     Some (if p AND am = 0 then Inr p else if m p = ch then Inl (Some p) else Inl None)
   }"

text \<open>The vector loop, \<open>w\<close> bytes at a time.\<close>

definition strchr_vec :: "nat \<Rightarrow> mem \<Rightarrow> u8 \<Rightarrow> addr \<Rightarrow> addr option option" where
  "strchr_vec w m ch p = do {
     p \<leftarrow> advance w (\<lambda>p. eq_mask w m p ch OR eq_mask w m p 0 \<noteq> 0) p;
     let hit = eq_mask w m p ch;
         off = ctz (hit OR eq_mask w m p 0)
     in Some (if bit hit off then Some (p + of_nat off) else None)
   }"

definition strchr_sse2 :: "mem \<Rightarrow> addr \<Rightarrow> u32 \<Rightarrow> addr option option" where
  "strchr_sse2 m s c =
     do { r \<leftarrow> strchr_align m (ucast c) 15 s;
          case r of Inl x \<Rightarrow> Some x | Inr p \<Rightarrow> strchr_vec 16 m (ucast c) p }"

definition strchr_avx2 :: "mem \<Rightarrow> addr \<Rightarrow> u32 \<Rightarrow> addr option option" where
  "strchr_avx2 m s c =
     do { r \<leftarrow> strchr_align m (ucast c) 31 s;
          case r of Inl x \<Rightarrow> Some x | Inr p \<Rightarrow> strchr_vec 32 m (ucast c) p }"

definition strchr :: "cpu \<Rightarrow> mem \<Rightarrow> addr \<Rightarrow> u32 \<Rightarrow> addr option option" where
  "strchr cp m s c =
     (let ch = ucast c :: u8
      in if ch = 0 then do { n \<leftarrow> strlen cp m s; Some (Some (s + n)) }
         else if simd_has cp CPU_AVX2 then strchr_avx2 m s c
         else if simd_has cp CPU_SSE2 then strchr_sse2 m s c
         else do {
           r \<leftarrow> strchr_align m ch 7 s;
           case r of
             Inl x \<Rightarrow> Some x
           | Inr p \<Rightarrow> do {
               p \<leftarrow> advance 8 (\<lambda>p. has_zero_byte (load64 m p) \<or>
                                   has_zero_byte (load64 m p XOR repeat_byte ch)) p;
               p \<leftarrow> advance 1 (\<lambda>p. m p = 0 \<or> m p = ch) p;
               Some (if m p = 0 then None else Some p)
             }
         })"

text \<open>
  The state between two stages: a string of length \<open>t\<close> starts at \<open>q\<close> and the first
  occurrence of \<open>ch\<close> from \<open>s\<close> is the first one from \<open>q\<close>.
\<close>

lemma byte_addr_hit: "m p = ch \<Longrightarrow> 0 < n \<Longrightarrow> byte_addr m p ch n = Some p"
  by (cases n) (simp_all add: byte_addr_def find_byte_Suc)

lemma cstr_pos: "cstr m p r \<Longrightarrow> m p \<noteq> 0 \<Longrightarrow> 0 < r"
  by (rule ccontr) (simp add: cstr_def)

lemma cstr_end: "cstr m p r \<Longrightarrow> m p = 0 \<Longrightarrow> r = 0"
  using cstr_unique [of m p r 0] by simp

lemma byte_addr_0 [simp]: "byte_addr m p ch 0 = None"
  by (simp add: byte_addr_def)

lemma strchr_align_cstr:
  assumes "cstr m s k" and "ch \<noteq> 0"
  shows "(\<exists>r. strchr_align m ch am s = Some (Inl r) \<and> r = byte_addr m s ch k) \<or>
    (\<exists>q t. strchr_align m ch am s = Some (Inr q) \<and> cstr m q t \<and> byte_addr m s ch k = byte_addr m q ch t)"
proof -
  let ?P = "\<lambda>p. p AND am = 0 \<or> m p = ch \<or> m p = 0"
  obtain q t where q: "advance 1 ?P s = Some q" "?P q" "cstr m q t" "scan_ok m ch s k (Inr (q, t))"
    using assms(1)
    by (rule advance_scan [where P = ?P and w = 1 and ch = ch])
       (use assms in \<open>auto simp: cstr_def find_byte_1\<close>)
  have b: "byte_addr m s ch k = byte_addr m q ch t" by (rule scan_ok_result(2) [OF q(4)])
  have "t = 0" if "m q = 0" using cstr_end [OF q(3) that] .
  moreover have "byte_addr m q ch t = Some q" if "m q = ch"
    using that assms(2) cstr_pos [OF q(3)] by (intro byte_addr_hit) auto
  ultimately show ?thesis
    using q(1,2,3) b by (auto simp: strchr_align_def)
qed

lemma bit_eq_mask: "w \<le> 32 \<Longrightarrow> bit (eq_mask w m p ch) n \<longleftrightarrow> n < w \<and> m (p + of_nat n) = ch"
  by (auto simp: eq_mask_def bit_movemask)

lemma eq_mask_eq_0: "w \<le> 32 \<Longrightarrow> eq_mask w m p ch = 0 \<longleftrightarrow> find_byte m p ch w = None"
  using eq_mask_find [of w m p ch] by (cases "eq_mask w m p ch = 0") auto

lemma ctz_lowest:
  assumes "(x :: u32) \<noteq> 0"
  shows "bit x (ctz x)" and "j < ctz x \<Longrightarrow> \<not> bit x j"
proof -
  have "x = 0" if "\<nexists>n. bit x n" using that by (intro bit_word_eqI) simp
  with assms obtain n where "bit x n" by blast
  define i where "i = (LEAST n. bit x n)"
  have l: "bit x i" "\<And>j. j < i \<Longrightarrow> \<not> bit x j"
    unfolding i_def by (rule LeastI, fact) (rule not_less_Least)
  have "ctz x = i"
    using l bit_imp_le_length [OF l(1)] by (intro ctz_eq) simp_all
  with l show "bit x (ctz x)" "j < ctz x \<Longrightarrow> \<not> bit x j" by simp_all
qed

lemma strchr_vec_cstr:
  assumes str: "cstr m p r" and ch: "ch \<noteq> 0" and w: "0 < w" "w \<le> 32"
  shows "strchr_vec w m ch p = Some (byte_addr m p ch r)"
proof -
  let ?P = "\<lambda>p. eq_mask w m p ch OR eq_mask w m p 0 \<noteq> 0"
  have or0: "a OR b = 0 \<longleftrightarrow> a = 0 \<and> b = 0" for a b :: u32
    by (metis or.left_neutral or.right_neutral or_eq_0_iff)
  obtain q t where q: "advance w ?P p = Some q" "?P q" "cstr m q t" "scan_ok m ch p r (Inr (q, t))"
    using str
    by (rule advance_scan [where P = ?P and w = w and ch = ch])
       (use w cstr_at [OF str w(1)] in \<open>auto simp: or0 eq_mask_eq_0\<close>)
  define i where "i = ctz (eq_mask w m q ch OR eq_mask w m q 0)"
  have i: "i < w" "m (q + of_nat i) = ch \<or> m (q + of_nat i) = 0"
    using ctz_lowest(1) [OF q(2)] w(2) by (auto simp: i_def bit_or_iff bit_eq_mask)
  have before: "m (q + of_nat j) \<noteq> ch" "m (q + of_nat j) \<noteq> 0" if "j < i" for j
    using ctz_lowest(2) [OF q(2), of j] that i(1) w(2) by (auto simp: i_def bit_or_iff bit_eq_mask)
  have "byte_addr m q ch t = (if m (q + of_nat i) = ch then Some (q + of_nat i) else None)"
  proof (cases "m (q + of_nat i) = ch")
    case True
    then have "i < t"
      using before(2) ch q(3) by (metis cstr_def linorder_neqE_nat)
    then have "find_byte m q ch t = Some i"
      using True before by (simp add: find_byte_Some_iff)
    then show ?thesis using True by (simp add: byte_addr_def)
  next
    case False
    then have "cstr m q i" using i before by (simp add: cstr_def)
    then have "t = i" using q(3) cstr_unique by blast
    then show ?thesis using False before by (simp add: byte_addr_def find_byte_None_iff)
  qed
  then show ?thesis
    using q(1) scan_ok_result(2) [OF q(4)] i(1) w(2)
    by (simp add: strchr_vec_def bit_eq_mask i_def [symmetric] Let_def)
qed

lemma strchr_cstr [mem_spec]:
  assumes "cstr m s k"
  shows "strchr cp m s c =
    Some (if (ucast c :: u8) = 0 then Some (s + of_nat k) else byte_addr m s (ucast c) k)"
proof (cases "(ucast c :: u8) = 0")
  case True
  then show ?thesis using strlen_cstr [OF assms] by (simp add: strchr_def)
next
  case nz: False
  let ?ch = "ucast c :: u8"
  let ?b = "byte_addr m s ?ch k"
  have vec: "do { r \<leftarrow> strchr_align m ?ch am s;
          case r of Inl x \<Rightarrow> Some x | Inr p \<Rightarrow> strchr_vec w m ?ch p } = Some ?b"
    if "0 < w" "w \<le> 32" for w am
    using strchr_align_cstr [OF assms nz, of am] strchr_vec_cstr [OF _ nz that] by auto
  have word: "do {
        p \<leftarrow> advance 8 (\<lambda>p. has_zero_byte (load64 m p) \<or>
                            has_zero_byte (load64 m p XOR repeat_byte ?ch)) q;
        p \<leftarrow> advance 1 (\<lambda>p. m p = 0 \<or> m p = ?ch) p;
        Some (if m p = 0 then None else Some p) } = Some (byte_addr m q ?ch t)"
    if str: "cstr m q t" for q t
  proof -
    let ?P = "\<lambda>p. has_zero_byte (load64 m p) \<or> has_zero_byte (load64 m p XOR repeat_byte ?ch)"
    let ?Q = "\<lambda>p. m p = 0 \<or> m p = ?ch"
    obtain x u where x: "advance 8 ?P q = Some x" "cstr m x u" "scan_ok m ?ch q t (Inr (x, u))"
      using str
      by (rule advance_scan [where P = ?P and w = 8 and ch = ?ch])
         (use cstr_at [OF str, of 8] in \<open>auto simp: zero_byte_at word_holds_byte find_byte_None_iff set_load_bytes\<close>)
    obtain y v where y: "advance 1 ?Q x = Some y" "?Q y" "cstr m y v" "scan_ok m ?ch x u (Inr (y, v))"
      using x(2)
      by (rule advance_scan [where P = ?Q and w = 1 and ch = ?ch])
         (use x(2) in \<open>auto simp: cstr_def find_byte_1\<close>)
    have "byte_addr m q ?ch t = byte_addr m y ?ch v"
      by (rule scan_ok_result(2) [OF scan_ok_trans [OF x(3) y(4)]])
    moreover have "byte_addr m y ?ch v = (if m y = 0 then None else Some y)"
      using y(2,3) cstr_end [OF y(3)] cstr_pos [OF y(3)] byte_addr_hit [of m y ?ch v] by auto
    ultimately show ?thesis using x(1) y(1) by simp
  qed
  show ?thesis
    using nz vec [of 16 15] vec [of 32 31] strchr_align_cstr [OF assms nz, of 7] word
    by (auto simp: strchr_def strchr_sse2_def strchr_avx2_def Let_def)
qed

section \<open>Strings as lists of bytes\<close>

text \<open>\<open>str_at m s xs\<close>: the C string at \<open>s\<close> has the characters \<open>xs\<close>.\<close>

primrec str_at :: "mem \<Rightarrow> addr \<Rightarrow> u8 list \<Rightarrow> bool" where
  "str_at m s [] \<longleftrightarrow> m s = 0"
| "str_at m s (x # xs) \<longleftrightarrow> x \<noteq> 0 \<and> m s = x \<and> str_at m (s + 1) xs"

lemma load_bytes_0 [simp]: "load_bytes m s 0 = []"
  by (simp add: load_bytes_def)

lemma load_bytes_Suc [simp]: "load_bytes m s (Suc n) = m s # load_bytes m (s + 1) n"
  unfolding load_bytes_def upt_conv_Cons [OF zero_less_Suc] map_Suc_upt [symmetric]
  by (simp add: comp_def add.assoc)

lemma str_at_iff: "str_at m s xs \<longleftrightarrow> cstr m s (length xs) \<and> load_bytes m s (length xs) = xs"
  by (induction xs arbitrary: s) (auto simp: cstr_Suc)

lemma str_at_cstr: "str_at m s xs \<Longrightarrow> cstr m s (length xs)"
  by (simp add: str_at_iff)

lemma cstr_str_at: "cstr m s k \<Longrightarrow> str_at m s (load_bytes m s k)"
  by (simp add: str_at_iff)

lemma str_at_nz: "str_at m s xs \<Longrightarrow> 0 \<notin> set xs"
  by (induction xs arbitrary: s) auto

section \<open>Comparing strings\<close>

text \<open>\<^verbatim>\<open>while (*a && *a == *b) { a++; b++; }\<close> and the final difference.\<close>

partial_function (option) strcmp :: "mem \<Rightarrow> addr \<Rightarrow> addr \<Rightarrow> int option" where
  "strcmp m a b =
     (if m a \<noteq> 0 \<and> m a = m b then strcmp m (a + 1) (b + 1)
      else Some (uint (m a) - uint (m b)))"

fun strncmp_loop :: "mem \<Rightarrow> addr \<Rightarrow> addr \<Rightarrow> nat \<Rightarrow> int" where
  "strncmp_loop m a b 0 = 0"
| "strncmp_loop m a b (Suc n) =
     (let ca = m a; cb = m b
      in if ca \<noteq> cb \<or> ca = 0 then uint ca - uint cb else strncmp_loop m (a + 1) (b + 1) n)"

definition strncmp :: "mem \<Rightarrow> addr \<Rightarrow> addr \<Rightarrow> size_t \<Rightarrow> int" where
  "strncmp m a b n = strncmp_loop m a b (unat n)"

text \<open>The specification: the difference at the first position where the strings part.\<close>

fun str_cmp :: "u8 list \<Rightarrow> u8 list \<Rightarrow> int" where
  "str_cmp [] [] = 0"
| "str_cmp [] (y # ys) = - uint y"
| "str_cmp (x # xs) [] = uint x"
| "str_cmp (x # xs) (y # ys) = (if x = y then str_cmp xs ys else uint x - uint y)"

lemma str_cmp_sign:
  assumes "0 \<notin> set xs" and "0 \<notin> set ys"
  shows "str_cmp xs ys < 0 \<longleftrightarrow> xs < ys" and "str_cmp xs ys = 0 \<longleftrightarrow> xs = ys"
proof -
  have pos: "0 < uint y" if "y \<noteq> 0" for y :: u8
    using that by (simp add: word_neq_0_conv word_less_def)
  show "str_cmp xs ys < 0 \<longleftrightarrow> xs < ys" "str_cmp xs ys = 0 \<longleftrightarrow> xs = ys"
    using assms pos
    by (induction xs ys rule: str_cmp.induct) (auto simp: word_less_def word_uint_eq_iff)
qed

lemma strcmp_str_at [mem_spec]:
  "str_at m a xs \<Longrightarrow> str_at m b ys \<Longrightarrow> strcmp m a b = Some (str_cmp xs ys)"
  by (induction xs ys arbitrary: a b rule: str_cmp.induct) (subst strcmp.simps, simp)+

lemma strncmp_loop_str_at:
  "str_at m a xs \<Longrightarrow> str_at m b ys \<Longrightarrow> strncmp_loop m a b n = str_cmp (take n xs) (take n ys)"
proof (induction n arbitrary: a b xs ys)
  case 0
  then show ?case by simp
next
  case (Suc n)
  then show ?case by (cases xs; cases ys) (auto simp: Let_def)
qed

section \<open>Copying strings\<close>

partial_function (option) strcpy_loop :: "mem \<Rightarrow> addr \<Rightarrow> addr \<Rightarrow> mem option" where
  "strcpy_loop m d src =
     (let m' = m(d := m src)
      in if m' d \<noteq> 0 then strcpy_loop m' (d + 1) (src + 1) else Some m')"

definition strcpy :: "mem \<Rightarrow> addr \<Rightarrow> addr \<Rightarrow> (mem \<times> addr) option" where
  "strcpy m dst src = do { m' \<leftarrow> strcpy_loop m dst src; Some (m', dst) }"

text \<open>\<^verbatim>\<open>for (; i < n && src[i]; i++) dst[i] = src[i];\<close>, shared by \<open>strncpy\<close> and \<open>strncat\<close>.\<close>

function copy_str :: "mem \<Rightarrow> addr \<Rightarrow> addr \<Rightarrow> nat \<Rightarrow> nat \<Rightarrow> mem \<times> nat" where
  "copy_str m dst src n i =
     (if i < n \<and> m (src + of_nat i) \<noteq> 0
      then copy_str (m(dst + of_nat i := m (src + of_nat i))) dst src n (i + 1)
      else (m, i))"
  by pat_completeness auto
termination
  by (relation "measure (\<lambda>(m, dst, src, n, i). n - i)") auto

declare copy_str.simps [simp del]

definition strncpy :: "cpu \<Rightarrow> mem \<Rightarrow> addr \<Rightarrow> addr \<Rightarrow> size_t \<Rightarrow> mem \<times> addr" where
  "strncpy c m dst src n =
     (case copy_str m dst src (unat n) 0 of
        (m', i) \<Rightarrow>
          (if i < unat n then fst (memset c m' (dst + of_nat i) 0 (n - of_nat i)) else m', dst))"

definition strcat :: "cpu \<Rightarrow> mem \<Rightarrow> addr \<Rightarrow> addr \<Rightarrow> (mem \<times> addr) option" where
  "strcat c m dst src = do {
     n \<leftarrow> strlen c m dst;
     (m', _) \<leftarrow> strcpy m (dst + n) src;
     Some (m', dst)
   }"

definition strncat :: "cpu \<Rightarrow> mem \<Rightarrow> addr \<Rightarrow> addr \<Rightarrow> size_t \<Rightarrow> (mem \<times> addr) option" where
  "strncat c m dst src n = do {
     l \<leftarrow> strlen c m dst;
     let d = dst + l; (m', i) = copy_str m d src (unat n) 0
     in Some (m'(d + of_nat i := 0), dst)
   }"

lemma blit_Suc:
  assumes "i < 2 ^ 64"
  shows "(blit m d s i)(d + of_nat i := m (s + of_nat i)) = blit m d s (Suc i)"
proof (rule ext)
  fix a
  have "a = d + of_nat i \<longleftrightarrow> unat (a - d) = i"
    using assms by auto
  then show "((blit m d s i)(d + of_nat i := m (s + of_nat i))) a = blit m d s (Suc i) a"
    by (auto simp: blit_def less_Suc_eq)
qed

lemma blit_ahead:
  assumes "fwd_ok d s (Suc i)"
  shows "blit m d s i (s + of_nat i) = m (s + of_nat i)"
proof (cases "d = s")
  case False
  then have "Suc i \<le> unat (d - s)" using assms by (simp add: fwd_ok_def)
  then have "\<not> unat (s + of_nat i - d) < i"
    using unat_sub64 [of "of_nat i" "d - s"] unat_lt64 [of "d - s"] by (simp add: algebra_simps)
  then show ?thesis by (simp add: blit_def)
qed simp

lemma blit_at: "i < n \<Longrightarrow> i < 2 ^ 64 \<Longrightarrow> blit m d s n (d + of_nat i) = m (s + of_nat i)"
  by (simp add: blit_def)

lemma strcpy_loop_cstr:
  assumes "cstr m s k" and "fwd_ok d s (Suc k)" and "i \<le> k"
  shows "strcpy_loop (blit m d s i) (d + of_nat i) (s + of_nat i) = Some (blit m d s (Suc k))"
  using assms(3)
proof (induction i rule: inc_induct)
  case base
  have "k < 2 ^ 64" by (rule cstr_bound [OF assms(1)])
  then show ?case
    using assms(1) blit_ahead [OF assms(2)] blit_Suc [of k m d s]
    by (subst strcpy_loop.simps) (simp add: cstr_def Let_def blit_at)
next
  case (step i)
  have i: "i < 2 ^ 64" using cstr_bound [OF assms(1)] step by simp
  have "fwd_ok d s (Suc i)" using assms(2) step by (auto intro: fwd_ok_mono)
  then show ?case
    using step assms(1) i
    by (subst strcpy_loop.simps) (simp add: blit_ahead cstr_def blit_Suc blit_at Let_def ac_simps)
qed

lemma strcpy_cstr [mem_spec]:
  "cstr m s k \<Longrightarrow> fwd_ok d s (Suc k) \<Longrightarrow> strcpy m d s = Some (blit m d s (Suc k), d)"
  using strcpy_loop_cstr [of m s k d 0] by (simp add: strcpy_def)

lemma copy_str_blit:
  assumes "fwd_ok d s (Suc (len_upto m s n))" and "i \<le> len_upto m s n"
  shows "copy_str (blit m d s i) d s n i = (blit m d s (len_upto m s n), len_upto m s n)"
  using assms(2)
proof (induction i rule: inc_induct)
  case base
  let ?L = "len_upto m s n"
  have "m (s + of_nat ?L) = 0" if "?L < n"
    using that by (cases "find_byte m s 0 n") (auto simp: len_upto_def dest: find_byte_Some_iff [THEN iffD1])
  then show ?case
    using blit_ahead [OF assms(1)] by (subst copy_str.simps) auto
next
  case (step i)
  let ?L = "len_upto m s n"
  have "i < n" "m (s + of_nat i) \<noteq> 0"
    using step(2) by (auto simp: len_upto_def find_byte_None_iff find_byte_Some_iff split: option.splits)
  moreover have "fwd_ok d s (Suc i)" using assms(1) step by (auto intro: fwd_ok_mono)
  moreover have "i < 2 ^ 64" using assms(1) step by (simp add: fwd_ok_def)
  ultimately show ?case
    using step by (subst copy_str.simps) (simp add: blit_ahead blit_Suc)
qed

lemma strncpy_blit [mem_spec]:
  assumes "fwd_ok dst src (Suc (len_upto m src (unat n)))"
  defines "L \<equiv> len_upto m src (unat n)"
  shows "strncpy c m dst src n =
    (fill (blit m dst src L) (dst + of_nat L) 0 (unat n - L), dst)"
proof -
  have L: "L \<le> unat n"
    by (auto simp: L_def len_upto_def find_byte_Some_iff split: option.split)
  then have "unat (n - of_nat L) = unat n - L"
    using unat_lt64 [of n] by (simp add: unat_sub_of_nat64)
  then show ?thesis
    using copy_str_blit [OF assms(1), of 0] L
    by (auto simp: strncpy_def L_def [symmetric] libc_mem.set)
qed

lemma strcat_cstr [mem_spec]:
  "cstr m dst j \<Longrightarrow> cstr m src k \<Longrightarrow> fwd_ok (dst + of_nat j) src (Suc k) \<Longrightarrow>
   strcat c m dst src = Some (blit m (dst + of_nat j) src (Suc k), dst)"
  by (simp add: strcat_def strlen_cstr strcpy_cstr)

lemma strncat_cstr [mem_spec]:
  assumes "cstr m dst j" and "fwd_ok (dst + of_nat j) src (Suc L)" and "L = len_upto m src (unat n)"
  shows "strncat c m dst src n =
    Some ((blit m (dst + of_nat j) src L)(dst + of_nat j + of_nat L := 0), dst)"
  using assms(1,2) copy_str_blit [of "dst + of_nat j" src m "unat n" 0]
  by (simp add: strncat_def strlen_cstr assms(3) Let_def)

section \<open>Last occurrence\<close>

partial_function (option) strrchr_loop :: "mem \<Rightarrow> u8 \<Rightarrow> addr option \<Rightarrow> addr \<Rightarrow> addr option option" where
  "strrchr_loop m ch lst s =
     (let lst' = (if m s = ch then Some s else lst)
      in if m s \<noteq> 0 then strrchr_loop m ch lst' (s + 1) else Some lst')"

definition strrchr :: "mem \<Rightarrow> addr \<Rightarrow> u32 \<Rightarrow> addr option option" where
  "strrchr m s c = strrchr_loop m (ucast c) None s"

lemma strrchr_loop_str_at:
  "str_at m s xs \<Longrightarrow>
   strrchr_loop m ch l s =
     Some (case find (\<lambda>i. (xs @ [0]) ! i = ch) (rev [0..<Suc (length xs)]) of
             None \<Rightarrow> l | Some i \<Rightarrow> Some (s + of_nat i))"
proof (induction xs arbitrary: s l)
  case Nil
  then show ?case by (subst strrchr_loop.simps) simp
next
  case (Cons x xs)
  let ?R = "rev [0..<Suc (length xs)]"
  have "[0..<Suc (Suc n)] = 0 # map Suc [0..<Suc n]" for n
    by (subst upt_conv_Cons) (simp_all only: map_Suc_upt zero_less_Suc)
  then have "rev [0..<Suc (length (x # xs))] = map Suc ?R @ [0]"
    by (simp add: rev_map del: upt_Suc)
  moreover have "find P (as @ bs) = (case find P as of None \<Rightarrow> find P bs | Some a \<Rightarrow> Some a)"
    and "find P (map f as) = map_option f (find (P \<circ> f) as)"
    for P :: "nat \<Rightarrow> bool" and f :: "nat \<Rightarrow> nat" and as bs
    by (induction as) auto
  ultimately have eq: "find (\<lambda>i. ((x # xs) @ [0]) ! i = ch) (rev [0..<Suc (length (x # xs))]) =
      (case find (\<lambda>i. (xs @ [0]) ! i = ch) ?R of
         None \<Rightarrow> if x = ch then Some 0 else None | Some i \<Rightarrow> Some (Suc i))"
    by (simp add: comp_def del: upt_Suc split: option.split)
  have "strrchr_loop m ch l s = strrchr_loop m ch (if x = ch then Some s else l) (s + 1)"
    using Cons.prems by (subst strrchr_loop.simps) (simp add: Let_def)
  then show ?case
    using Cons.IH [of "s + 1" "if x = ch then Some s else l"] Cons.prems unfolding eq
    by (auto simp: add.assoc simp del: upt_Suc split: option.split)
qed

lemma strrchr_str_at [mem_spec]:
  "str_at m s xs \<Longrightarrow>
   strrchr m s c =
     Some (map_option (\<lambda>i. s + of_nat i)
       (find (\<lambda>i. (xs @ [0]) ! i = ucast c) (rev [0..<Suc (length xs)])))"
  by (auto simp: strrchr_def strrchr_loop_str_at simp del: upt_Suc split: option.split)

section \<open>Character sets and spans\<close>

text \<open>The 256-bit set of a string's characters, as an array of 32 bytes.\<close>

partial_function (option) byte_set_loop :: "mem \<Rightarrow> addr \<Rightarrow> u8 list \<Rightarrow> u8 list option" where
  "byte_set_loop m s bset =
     (if m s \<noteq> 0
      then let c = m s; i = unat (drop_bit 3 c)
           in byte_set_loop m (s + 1) (bset[i := bset ! i OR push_bit (unat (c AND 7)) 1])
      else Some bset)"

definition byte_set :: "mem \<Rightarrow> addr \<Rightarrow> u8 list option" where
  "byte_set m s = byte_set_loop m s (replicate 32 0)"

definition byte_set_has :: "u8 list \<Rightarrow> u8 \<Rightarrow> bool" where
  "byte_set_has bset c \<longleftrightarrow> bset ! unat (drop_bit 3 c) AND push_bit (unat (c AND 7)) 1 \<noteq> 0"

definition strspn :: "mem \<Rightarrow> addr \<Rightarrow> addr \<Rightarrow> size_t option" where
  "strspn m s accept = do {
     bset \<leftarrow> byte_set m accept;
     p \<leftarrow> advance 1 (\<lambda>p. \<not> (m p \<noteq> 0 \<and> byte_set_has bset (m p))) s;
     Some (p - s)
   }"

definition strcspn :: "mem \<Rightarrow> addr \<Rightarrow> addr \<Rightarrow> size_t option" where
  "strcspn m s reject = do {
     bset \<leftarrow> byte_set m reject;
     p \<leftarrow> advance 1 (\<lambda>p. \<not> (m p \<noteq> 0 \<and> \<not> byte_set_has bset (m p))) s;
     Some (p - s)
   }"

definition strpbrk :: "mem \<Rightarrow> addr \<Rightarrow> addr \<Rightarrow> addr option option" where
  "strpbrk m s accept = do {
     bset \<leftarrow> byte_set m accept;
     p \<leftarrow> advance 1 (\<lambda>p. m p = 0 \<or> byte_set_has bset (m p)) s;
     Some (if m p = 0 then None else Some p)
   }"

lemma byte_index:
  "unat (drop_bit 3 (c :: u8)) = unat c div 8" "unat ((c :: u8) AND 7) = unat c mod 8"
  "unat (c :: u8) div 8 < 32"
proof -
  show "unat (drop_bit 3 c) = unat c div 8" by (simp add: drop_bit_eq_div unat_div_distrib)
  have "c AND 7 = take_bit 3 c" by (simp add: take_bit_eq_mask mask_eq_exp_minus_1)
  then show "unat (c AND 7) = unat c mod 8"
    by (simp add: take_bit_eq_mod unat_mod_distrib)
  show "unat c div 8 < 32" using unsigned_less [of c, where ?'a = nat] by simp
qed

lemma byte_set_has_bit: "byte_set_has bset c \<longleftrightarrow> bit (bset ! (unat c div 8)) (unat c mod 8)"
  by (simp add: byte_set_has_def byte_index bit_iff_and_push_bit_not_eq_0)

lemma byte_set_has_add:
  assumes "length bset = 32"
  shows "byte_set_has (bset[unat d div 8 := bset ! (unat d div 8) OR push_bit (unat d mod 8) 1]) c
    \<longleftrightarrow> c = d \<or> byte_set_has bset c"
proof -
  have "c = d" if "unat c div 8 = unat d div 8" "unat c mod 8 = unat d mod 8"
    using that by (metis div_mult_mod_eq word_unat_eq_iff)
  then show ?thesis
    using assms byte_index(3) [of d]
    by (cases "unat c div 8 = unat d div 8") 
       (auto simp: byte_set_has_bit bit_or_iff bit_push_bit_iff bit_exp_iff nth_list_update)
qed

lemma byte_set_loop_str_at:
  "str_at m s xs \<Longrightarrow> length b = 32 \<Longrightarrow>
   \<exists>b'. byte_set_loop m s b = Some b' \<and> length b' = 32 \<and>
     (\<forall>c. byte_set_has b' c \<longleftrightarrow> c \<in> set xs \<or> byte_set_has b c)"
proof (induction xs arbitrary: s b)
  case Nil
  then show ?case by (subst byte_set_loop.simps) simp
next
  case (Cons x xs)
  let ?b = "b[unat x div 8 := b ! (unat x div 8) OR push_bit (unat x mod 8) 1]"
  have "byte_set_loop m s b = byte_set_loop m (s + 1) ?b"
    using Cons.prems by (subst byte_set_loop.simps) (simp add: Let_def byte_index)
  then show ?case
    using Cons.IH [of "s + 1" ?b] Cons.prems byte_set_has_add [of b x] by auto
qed

lemma byte_set_str_at:
  assumes "str_at m s xs"
  obtains b where "byte_set m s = Some b" "\<And>c. byte_set_has b c \<longleftrightarrow> c \<in> set xs"
proof -
  have "\<not> byte_set_has (replicate 32 0) c" for c
    using byte_index(3) [of c] by (simp add: byte_set_has_bit)
  then show ?thesis
    using that byte_set_loop_str_at [OF assms, of "replicate 32 0"]
    by (auto simp: byte_set_def)
qed

lemma advance_str_at:
  "str_at m s xs \<Longrightarrow>
   advance 1 (\<lambda>p. \<not> (m p \<noteq> 0 \<and> Q (m p))) s = Some (s + of_nat (length (takeWhile Q xs)))"
proof (induction xs arbitrary: s)
  case Nil
  then show ?case by (simp add: advance_stop)
next
  case (Cons x xs)
  then show ?case
    by (cases "Q x") (simp_all add: advance_stop advance_go add.assoc)
qed

lemma strspn_str_at [mem_spec]:
  assumes "str_at m s xs" and "str_at m a as"
  shows "strspn m s a = Some (of_nat (length (takeWhile (\<lambda>x. x \<in> set as) xs)))"
proof -
  obtain b where b: "byte_set m a = Some b" "\<And>c. byte_set_has b c \<longleftrightarrow> c \<in> set as"
    using byte_set_str_at [OF assms(2)] by blast
  show ?thesis
    using advance_str_at [OF assms(1), of "byte_set_has b"]
    by (simp add: strspn_def b takeWhile_cong [OF refl b(2)])
qed

lemma strcspn_str_at [mem_spec]:
  assumes "str_at m s xs" and "str_at m a as"
  shows "strcspn m s a = Some (of_nat (length (takeWhile (\<lambda>x. x \<notin> set as) xs)))"
proof -
  obtain b where b: "byte_set m a = Some b" "\<And>c. byte_set_has b c \<longleftrightarrow> c \<in> set as"
    using byte_set_str_at [OF assms(2)] by blast
  show ?thesis
    using advance_str_at [OF assms(1), of "\<lambda>x. \<not> byte_set_has b x"] by (simp add: strcspn_def b)
qed

lemma strpbrk_str_at [mem_spec]:
  assumes "str_at m s xs" and "str_at m a as"
  shows "strpbrk m s a =
    Some (map_option (\<lambda>i. s + of_nat i) (find (\<lambda>i. xs ! i \<in> set as) [0..<length xs]))"
proof -
  obtain b where b: "byte_set m a = Some b" "\<And>c. byte_set_has b c \<longleftrightarrow> c \<in> set as"
    using byte_set_str_at [OF assms(2)] by blast
  let ?n = "length (takeWhile (\<lambda>x. x \<notin> set as) xs)"
  have adv: "advance 1 (\<lambda>p. m p = 0 \<or> m p \<in> set as) s = Some (s + of_nat ?n)"
    using advance_str_at [OF assms(1), of "\<lambda>x. x \<notin> set as"] by simp
  have at: "m (s + of_nat i) = (xs @ [0]) ! i" if "i \<le> length xs" for i
  proof (cases "i < length xs")
    case True
    have "load_bytes m s (length xs) = xs" using assms(1) by (simp add: str_at_iff)
    then show ?thesis
      using nth_load_bytes [OF True, of m s] True by (simp add: nth_append)
  next
    case False
    then show ?thesis using that assms(1) by (simp add: str_at_iff cstr_def)
  qed
  have le: "?n \<le> length xs" by (rule length_takeWhile_le)
  have nz: "0 \<notin> set xs" by (rule str_at_nz [OF assms(1)])
  show ?thesis
  proof (cases "?n < length xs")
    case True
    then have "xs ! ?n \<in> set as" using nth_length_takeWhile [OF True] by simp
    moreover have "xs ! j \<notin> set as" if "j < ?n" for j
      using set_takeWhileD [OF nth_mem [OF that]] takeWhile_nth [OF that] by simp
    ultimately have "find (\<lambda>i. xs ! i \<in> set as) [0..<length xs] = Some ?n"
      using True by (simp add: find_upt_eq_Some_iff)
    moreover have "xs ! ?n \<noteq> 0" using nz nth_mem [OF True] by metis
    then have "m (s + of_nat ?n) \<noteq> 0" using at [OF le] True by (simp add: nth_append)
    ultimately show ?thesis using adv by (simp add: strpbrk_def b)
  next
    case False
    then have n: "?n = length xs" using le by simp
    then have "takeWhile (\<lambda>x. x \<notin> set as) xs = xs"
      using takeWhile_eq_take [of "\<lambda>x. x \<notin> set as" xs] by simp
    then have "\<forall>x\<in>set xs. x \<notin> set as" unfolding takeWhile_eq_all_conv .
    then have "find (\<lambda>i. xs ! i \<in> set as) [0..<length xs] = None"
      unfolding find_upt_eq_None_iff by simp
    then show ?thesis using at [OF le] adv by (simp add: strpbrk_def b n)
  qed
qed

section \<open>Substrings\<close>

text \<open>
  The loop of \<open>strstr\<close>: \<open>memchr\<close> finds the next candidate for the first character,
  \<open>memcmp\<close> compares the rest.
\<close>

partial_function (option) strstr_loop ::
  "cpu \<Rightarrow> mem \<Rightarrow> addr \<Rightarrow> size_t \<Rightarrow> addr \<Rightarrow> size_t \<Rightarrow> u8 \<Rightarrow> addr option option" where
  "strstr_loop c m haystack hlen needle nlen first =
     (if hlen \<ge> nlen then
        (case memchr c m haystack (ucast first) (hlen - nlen + 1) of
           None \<Rightarrow> Some None
         | Some p \<Rightarrow>
             let hlen = hlen - (p - haystack); haystack = p
             in if memcmp m (haystack + 1) (needle + 1) (nlen - 1) = 0 then Some (Some haystack)
                else strstr_loop c m (haystack + 1) (hlen - 1) needle nlen first)
      else Some None)"

definition strstr :: "cpu \<Rightarrow> mem \<Rightarrow> addr \<Rightarrow> addr \<Rightarrow> addr option option" where
  "strstr c m haystack needle =
     (let first = m needle
      in if first = 0 then Some (Some haystack)
         else do {
           nlen \<leftarrow> strlen c m needle;
           if nlen = 1 then strchr c m haystack (ucast first)
           else do {
             hlen \<leftarrow> strlen c m haystack;
             strstr_loop c m haystack hlen needle nlen first
           }
         })"

text \<open>
  The specification: the first position of the haystack from which the needle's \<open>b\<close>
  characters follow.
\<close>

definition occurs :: "mem \<Rightarrow> addr \<Rightarrow> addr \<Rightarrow> nat \<Rightarrow> nat \<Rightarrow> bool" where
  "occurs m h x b i \<longleftrightarrow> load_bytes m (h + of_nat i) b = load_bytes m x b"

definition first_occurrence :: "mem \<Rightarrow> addr \<Rightarrow> nat \<Rightarrow> addr \<Rightarrow> nat \<Rightarrow> addr option" where
  "first_occurrence m h a x b =
     map_option (\<lambda>i. h + of_nat i) (find (occurs m h x b) [0..<Suc a - b])"

lemma strstr_loop_first:
  assumes "2 \<le> b" and "b < 2 ^ 64" and "a < 2 ^ 64" and "m x = first"
  shows "strstr_loop c m h (of_nat a) x (of_nat b) first = Some (first_occurrence m h a x b)"
  using assms(3)
proof (induction a arbitrary: h rule: less_induct)
  case (less a)
  let ?k = "Suc a - b"
  have cnt: "unat (of_nat a - of_nat b + 1 :: size_t) = ?k" if "b \<le> a"
  proof -
    have "(of_nat a - of_nat b + 1 :: size_t) = of_nat ?k" using that by (simp add: of_nat_diff Suc_diff_le)
    then show ?thesis using less.prems assms(1) by simp
  qed
  show ?case
  proof (cases "b \<le> a")
    case False
    then have "\<not> (of_nat b :: size_t) \<le> of_nat a"
      using assms less.prems by (simp add: word_le_nat_alt)
    then show ?thesis
      using False by (subst strstr_loop.simps) (simp add: first_occurrence_def)
  next
    case True
    then have le: "(of_nat b :: size_t) \<le> of_nat a"
      using assms less.prems by (simp add: word_le_nat_alt)
    have head: "m (h + of_nat i) = first" if "occurs m h x b i" for i
      using that assms(1,4) by (cases b) (auto simp: occurs_def)
    show ?thesis
    proof (cases "find_byte m h first ?k")
      case None
      then have "memchr c m h (ucast first) (of_nat a - of_nat b + 1) = None"
        by (simp add: memchr_addr cnt [OF True] byte_addr_def ucast_up_ucast_id is_up)
      moreover have "find (occurs m h x b) [0..<?k] = None"
        using None head unfolding find_upt_eq_None_iff find_byte_None_iff by blast
      ultimately show ?thesis
        using le by (subst strstr_loop.simps) (simp add: first_occurrence_def)
    next
      case (Some i)
      then have i: "i < ?k" "m (h + of_nat i) = first" "\<And>j. j < i \<Longrightarrow> m (h + of_nat j) \<noteq> first"
        by (auto simp: find_byte_Some_iff)
      then have none: "\<not> occurs m h x b j" if "j < i" for j
        using that head by blast
      have chr: "memchr c m h (ucast first) (of_nat a - of_nat b + 1) = Some (h + of_nat i)"
        using Some by (simp add: memchr_addr cnt [OF True] byte_addr_def ucast_up_ucast_id is_up)
      have rest: "(of_nat a - of_nat i - 1 :: size_t) = of_nat (a - Suc i)"
        using i(1) assms(1) by (simp add: of_nat_diff)
      have b: "unat (of_nat b - 1 :: size_t) = b - 1"
        using assms(1,2) by (metis One_nat_def Suc_leD unat_of_nat64 of_nat_1 of_nat_diff less_imp_diff_less one_le_numeral order_trans)
      have cmp: "memcmp m (h + of_nat i + 1) (x + 1) (of_nat b - 1) = 0 \<longleftrightarrow> occurs m h x b i"
        using i(2) assms(1,4) unfolding memcmp_eq_0 b
        by (cases b) (auto simp: occurs_def)
      show ?thesis
      proof (cases "occurs m h x b i")
        case hit: True
        then have "find (occurs m h x b) [0..<?k] = Some i"
          using i(1) none by (simp add: find_upt_eq_Some_iff)
        then show ?thesis
          using le chr cmp hit by (subst strstr_loop.simps) (simp add: first_occurrence_def Let_def)
      next
        case miss: False
        have "find (occurs m h x b) [0..<?k] =
            map_option ((+) (Suc i)) (find (\<lambda>j. occurs m h x b (Suc i + j)) [0..<Suc (a - Suc i) - b])"
        proof -
          have k: "?k = Suc i + (Suc (a - Suc i) - b)" using i(1) assms(1) by simp
          have "find (occurs m h x b) [0..<Suc i] = None"
            using none miss unfolding find_upt_eq_None_iff by (auto simp: less_Suc_eq)
          then show ?thesis unfolding k by (subst find_upt_append) simp
        qed
        moreover have "occurs m (h + of_nat i + 1) x b = (\<lambda>j. occurs m h x b (Suc i + j))"
          by (rule ext) (simp add: occurs_def ac_simps)
        ultimately have "first_occurrence m h a x b =
            first_occurrence m (h + of_nat i + 1) (a - Suc i) x b"
          by (simp add: first_occurrence_def option.map_comp comp_def ac_simps)
        moreover have "strstr_loop c m (h + of_nat i + 1) (of_nat a - of_nat i - 1) x (of_nat b) first =
            Some (first_occurrence m (h + of_nat i + 1) (a - Suc i) x b)"
          unfolding rest by (rule less.IH) (use less.prems i(1) assms(1) in simp_all)
        ultimately show ?thesis
          using le chr cmp miss by (subst strstr_loop.simps) (simp add: Let_def)
      qed
    qed
  qed
qed

lemma strstr_cstr [mem_spec]:
  assumes h: "cstr m h a" and x: "cstr m x b"
  shows "strstr c m h x = Some (first_occurrence m h a x b)"
proof (cases "b \<le> 1")
  case False
  have "(of_nat b :: size_t) \<noteq> 1"
  proof
    assume "(of_nat b :: size_t) = 1"
    then have "unat (of_nat b :: size_t) = unat (1 :: size_t)" by simp
    then show False using False cstr_bound [OF x] by simp
  qed
  moreover have "m x \<noteq> 0" using False cstr_end [OF x] by auto
  ultimately show ?thesis
    using False strstr_loop_first [of b a m x "m x" c h] cstr_bound [OF h] cstr_bound [OF x]
    by (simp add: strstr_def strlen_cstr [OF h] strlen_cstr [OF x])
next
  case True
  then consider "b = 0" | "b = 1" by linarith
  then show ?thesis
  proof cases
    case 1
    have "find (occurs m h x 0) [0..<Suc a] = Some 0"
      by (subst find_upt_eq_Some_iff) (simp add: occurs_def)
    then show ?thesis using 1 x by (simp add: strstr_def first_occurrence_def del: upt_Suc)
  next
    case 2
    have "occurs m h x 1 = (\<lambda>i. m (h + of_nat i) = m x)"
      by (rule ext) (simp add: occurs_def)
    moreover have "m x \<noteq> 0" using x 2 by (simp add: cstr_Suc)
    moreover have "Suc a - 1 = a" by simp
    ultimately show ?thesis
      using 2 strlen_cstr [OF x, of c] strchr_cstr [OF h, of c "ucast (m x)"]
      by (simp add: strstr_def first_occurrence_def byte_addr_def find_byte_def
          ucast_up_ucast_id is_up)
  qed
qed

section \<open>Tokens\<close>

text \<open>
  \<open>strtok_r m str delim save\<close> returns the new memory, the new \<^verbatim>\<open>*saveptr\<close> and the token;
  null pointers are \<open>None\<close>. \<open>strtok\<close> keeps its save pointer in a static variable, here
  the argument and result of the same name.
\<close>

definition strtok_r ::
  "mem \<Rightarrow> addr option \<Rightarrow> addr \<Rightarrow> addr option \<Rightarrow> (mem \<times> addr option \<times> addr option) option" where
  "strtok_r m str delim saveptr =
     (case (case str of Some s \<Rightarrow> Some s | None \<Rightarrow> saveptr) of
        None \<Rightarrow> Some (m, saveptr, None)
      | Some s \<Rightarrow> do {
          n \<leftarrow> strspn m s delim;
          let s = s + n
          in if m s = 0 then Some (m, None, None)
             else do {
               k \<leftarrow> strcspn m s delim;
               let e = s + k
               in if m e \<noteq> 0 then Some (m(e := 0), Some (e + 1), Some s)
                  else Some (m, None, Some s)
             }
        })"

definition strtok ::
  "mem \<Rightarrow> addr option \<Rightarrow> addr \<Rightarrow> addr option \<Rightarrow> (mem \<times> addr option \<times> addr option) option" where
  "strtok m str delim save = strtok_r m str delim save"

lemma str_at_append:
  "str_at m s (xs @ ys) \<Longrightarrow> str_at m (s + of_nat (length xs)) ys"
proof (induction xs arbitrary: s)
  case (Cons x xs)
  then show ?case using Cons.IH [of "s + 1"] by (simp add: ac_simps)
qed simp

lemma str_at_head: "str_at m s xs \<Longrightarrow> m s = 0 \<longleftrightarrow> xs = []"
  by (cases xs) auto

lemma str_at_length: "str_at m s xs \<Longrightarrow> length xs < 2 ^ 64"
  using cstr_bound str_at_cstr by blast

text \<open>Writing a terminator over the first byte of \<open>ys\<close> cuts the string there.\<close>

lemma str_at_cut:
  assumes "str_at m s (xs @ ys)"
  shows "str_at (m(s + of_nat (length xs) := 0)) s xs"
    and "ys \<noteq> [] \<Longrightarrow> str_at (m(s + of_nat (length xs) := 0)) (s + of_nat (length xs) + 1) (tl ys)"
proof -
  define e where "e = s + of_nat (length xs)"
  define M where "M = m(e := 0)"
  have far: "s + of_nat i \<noteq> e" if "i \<le> length (xs @ ys)" "i \<noteq> length xs" for i
  proof
    assume "s + of_nat i = e"
    then have "unat (of_nat i :: addr) = unat (of_nat (length xs) :: addr)" by (simp add: e_def)
    then show False using that str_at_length [OF assms] by simp
  qed
  have M: "M e = 0" "\<And>a. a \<noteq> e \<Longrightarrow> M a = m a" by (simp_all add: M_def)
  have shift: "s + of_nat (Suc j) = s + of_nat j + 1" for j by simp
  have keep: "str_at M (s + of_nat j) zs"
    if "str_at m (s + of_nat j) zs" "\<And>i. j \<le> i \<Longrightarrow> i \<le> j + length zs \<Longrightarrow> s + of_nat i \<noteq> e" for zs j
    using that
  proof (induction zs arbitrary: j)
    case Nil
    then show ?case using Nil(2) [of j] M(2) by simp
  next
    case (Cons z zs)
    have "str_at M (s + of_nat (Suc j)) zs"
      by (rule Cons.IH) (use Cons.prems in \<open>simp_all add: shift del: of_nat_Suc\<close>)
    then show ?case
      using Cons.prems(1) Cons.prems(2) [of j] M(2) unfolding shift by simp
  qed
  have pre: "str_at M (s + of_nat j) zs"
    if "str_at m (s + of_nat j) (zs @ ys)" "j + length zs = length xs" for zs j
    using that
  proof (induction zs arbitrary: j)
    case Nil
    then have "s + of_nat j = e" by (simp add: e_def)
    then show ?case using M(1) by simp
  next
    case (Cons z zs)
    have "str_at M (s + of_nat (Suc j)) zs"
      by (rule Cons.IH) (use Cons.prems in \<open>simp_all add: shift del: of_nat_Suc\<close>)
    moreover have "s + of_nat j \<noteq> e" using Cons.prems(2) by (intro far) auto
    ultimately show ?case
      using Cons.prems M(2) unfolding shift by simp
  qed
  show "str_at (m(s + of_nat (length xs) := 0)) s xs"
    using pre [of 0 xs] assms by (simp add: M_def e_def)
  assume "ys \<noteq> []"
  then obtain y zs where ys: "ys = y # zs" by (cases ys) auto
  have "str_at m (s + of_nat (Suc (length xs))) zs"
    unfolding shift using str_at_append [OF assms] ys by simp
  then have "str_at M (s + of_nat (Suc (length xs))) zs"
    by (rule keep) (use ys in \<open>intro far; simp\<close>)
  then show "str_at (m(s + of_nat (length xs) := 0)) (s + of_nat (length xs) + 1) (tl ys)"
    unfolding shift by (simp add: M_def e_def ys)
qed

lemma strtok_r_str_at:
  assumes "str_at m s xs" and "str_at m d ds"
    and "case str of Some p \<Rightarrow> p = s | None \<Rightarrow> save = Some s"
  defines "ys \<equiv> dropWhile (\<lambda>x. x \<in> set ds) xs"
  defines "tok \<equiv> takeWhile (\<lambda>x. x \<notin> set ds) ys" and "rest \<equiv> dropWhile (\<lambda>x. x \<notin> set ds) ys"
  defines "t \<equiv> s + of_nat (length xs - length ys)"
  defines "e \<equiv> t + of_nat (length tok)"
  shows "strtok_r m str d save =
    Some (if ys = [] then (m, None, None)
          else if rest = [] then (m, None, Some t)
          else (m(e := 0), Some (e + 1), Some t))"
proof -
  let ?sp = "takeWhile (\<lambda>x. x \<in> set ds) xs"
  have xs: "xs = ?sp @ ys" by (simp add: ys_def)
  then have len: "length ?sp = length xs - length ys"
    by (metis add_diff_cancel_right' length_append)
  have t: "str_at m t ys"
    using str_at_append [of m s ?sp ys] assms(1) xs len by (simp add: t_def)
  have ys: "ys = tok @ rest" by (simp add: tok_def rest_def)
  have e: "str_at m e rest"
    using str_at_append [of m t tok rest] t ys by (simp add: e_def)
  have sp: "strspn m s d = Some (of_nat (length xs - length ys))"
    using strspn_str_at [OF assms(1,2)] len by simp
  have cs: "strcspn m t d = Some (of_nat (length tok))"
    using strcspn_str_at [OF t assms(2)] by (simp add: tok_def)
  have s: "(case str of Some s \<Rightarrow> Some s | None \<Rightarrow> save) = Some s"
    using assms(3) by (simp split: option.splits)
  show ?thesis
    unfolding strtok_r_def s
    using str_at_head [OF t] str_at_head [OF e] cs
    by (simp add: sp t_def [symmetric] e_def [symmetric] Let_def)
qed

section \<open>Properties\<close>

text \<open>A memory that holds the strings \<open>''ab,c''\<close>, \<open>''ab''\<close>, \<open>'',''\<close> and \<open>''b,''\<close>.\<close>

definition demo_mem :: mem where
  "demo_mem =
     store_bytes (store_bytes (store_bytes (store_bytes (\<lambda>_. 0)
       0x1000 [97, 98, 44, 99]) 0x2000 [97, 98]) 0x3000 [44]) 0x4000 [98, 44]"

lemma demo_mem_strings:
  "str_at demo_mem 0x1000 [97, 98, 44, 99]" "str_at demo_mem 0x2000 [97, 98]"
  "str_at demo_mem 0x3000 [44]" "str_at demo_mem 0x4000 [98, 44]"
  by (simp_all add: demo_mem_def)

text \<open>
  C3: \<open>strlen\<close> returns on every C string, on every CPU and alignment, and its result is
  the length of the string; \<open>strnlen\<close> returns that length cut at its bound.
\<close>

theorem strlen_correct:
  assumes "cstr m s k"
  shows "strlen c m s = Some (of_nat k) \<and> strnlen c m s n = of_nat (min k (unat n))"
  using assms by (simp add: strlen_cstr strnlen_len len_upto_cstr)

theorem strlen_correct_witness:
  "cstr demo_mem 0x1000 4 \<and> strlen plain_cpu demo_mem 0x1000 = Some 4"
  using strlen_correct [where m = demo_mem and s = "0x1000" and k = 4] str_at_cstr [OF demo_mem_strings(1)]
  by (simp add: eval_nat_numeral)

text \<open>
  \<open>strchr\<close>, in its AVX2, SSE2 and word-at-a-time forms, returns on every C string the
  address of the first occurrence of the character (the terminator for character 0), or null.
\<close>

theorem strchr_correct:
  assumes "cstr m s k"
  shows "strchr cp m s c =
    Some (map_option (\<lambda>i. s + of_nat i) (find (\<lambda>i. m (s + of_nat i) = ucast c) [0..<Suc k]))"
proof -
  have "find (\<lambda>i. m (s + of_nat i) = ucast c) [0..<Suc k] =
      (if (ucast c :: u8) = 0 then Some k else find_byte m s (ucast c) k)"
  proof (cases "(ucast c :: u8) = 0")
    case True
    then show ?thesis using assms by (simp add: find_upt_eq_Some_iff cstr_def del: upt_Suc)
  next
    case False
    then have "find_byte m s (ucast c) (Suc k) = find_byte m s (ucast c) k"
      using find_byte_split [of m s "ucast c" k 1] assms
      by (simp add: find_byte_1 cstr_def split: option.split)
    then show ?thesis using False by (simp add: find_byte_def del: upt_Suc)
  qed
  then show ?thesis
    by (simp add: strchr_cstr [OF assms] byte_addr_def del: upt_Suc)
qed

theorem strchr_correct_witness:
  "cstr demo_mem 0x1000 4 \<and> strchr plain_cpu demo_mem 0x1000 44 =
     Some (map_option (\<lambda>i. 0x1000 + of_nat i)
       (find (\<lambda>i. demo_mem (0x1000 + of_nat i) = ucast (44 :: u32)) [0..<Suc 4]))"
  using strchr_correct [where m = demo_mem and s = "0x1000" and k = 4] str_at_cstr [OF demo_mem_strings(1)]
  by (simp add: eval_nat_numeral)

text \<open>
  C4: \<open>strcmp\<close> returns on any two C strings; its sign is the lexicographic order of their
  bytes taken as unsigned, and it is zero exactly when the strings are equal.
\<close>

theorem strcmp_lexicographic:
  assumes "str_at m a xs" and "str_at m b ys"
  shows "\<exists>r. strcmp m a b = Some r \<and> (r = 0 \<longleftrightarrow> xs = ys) \<and> (r < 0 \<longleftrightarrow> xs < ys)"
  using strcmp_str_at [OF assms] str_cmp_sign [OF str_at_nz [OF assms(1)] str_at_nz [OF assms(2)]]
  by simp

theorem strcmp_lexicographic_witness:
  "str_at demo_mem 0x1000 [97, 98, 44, 99] \<and> str_at demo_mem 0x2000 [97, 98] \<and>
   (\<exists>r. strcmp demo_mem 0x1000 0x2000 = Some r \<and> r \<noteq> 0)"
  using strcmp_lexicographic [OF demo_mem_strings(1,2)] demo_mem_strings by auto

text \<open>
  C5: \<open>strcpy\<close> returns when its source is a C string that the destination does not overlap
  from above; the destination then holds the same string, and no byte beyond its terminator
  has changed.
\<close>

theorem strcpy_correct:
  assumes "str_at m src xs" and "fwd_ok dst src (Suc (length xs))"
  shows "\<exists>m'. strcpy m dst src = Some (m', dst) \<and> str_at m' dst xs \<and>
    (\<forall>a. length xs < unat (a - dst) \<longrightarrow> m' a = m a)"
proof -
  let ?m = "blit m dst src (Suc (length xs))"
  have at: "?m (dst + of_nat i) = m (src + of_nat i)" if "i \<le> length xs" for i
    using that str_at_length [OF assms(1)] by (simp add: blit_at)
  have "load_bytes ?m dst (length xs) = load_bytes m src (length xs)"
    by (rule nth_equalityI) (simp_all add: at)
  moreover have "cstr ?m dst (length xs)"
    using str_at_cstr [OF assms(1)] by (simp add: cstr_def at)
  ultimately have "str_at ?m dst xs" using assms(1) by (simp add: str_at_iff)
  then show ?thesis
    using strcpy_cstr [OF str_at_cstr [OF assms(1)] assms(2)] by (auto simp: blit_def)
qed

theorem strcpy_correct_witness:
  "str_at demo_mem 0x2000 [97, 98] \<and> fwd_ok 0x5000 0x2000 (Suc (length [97, 98 :: u8])) \<and>
   (\<exists>m'. strcpy demo_mem 0x5000 0x2000 = Some (m', 0x5000) \<and> str_at m' 0x5000 [97, 98])"
proof -
  have ok: "fwd_ok 0x5000 0x2000 (Suc (length [97, 98 :: u8]))" by (simp add: fwd_ok_def)
  show ?thesis using strcpy_correct [OF demo_mem_strings(2) ok] demo_mem_strings(2) ok by blast
qed

text \<open>
  C6: \<open>strstr\<close> returns on any two C strings the address of the first position of the
  haystack at which the needle's characters stand, or null when there is none.
\<close>

theorem strstr_correct:
  assumes "str_at m h xs" and "str_at m x ys"
  shows "strstr c m h x =
    Some (map_option (\<lambda>i. h + of_nat i)
      (find (\<lambda>i. take (length ys) (drop i xs) = ys) [0..<Suc (length xs) - length ys]))"
proof -
  have lx: "load_bytes m h (length xs) = xs" and ly: "load_bytes m x (length ys) = ys"
    using assms by (simp_all add: str_at_iff)
  have sub: "load_bytes m (h + of_nat i) b = take b (drop i (load_bytes m h a))" if "i + b \<le> a" for i b a
    by (rule nth_equalityI) (use that in \<open>simp_all add: add.assoc\<close>)
  have cong: "find P zs = find Q zs" if "\<And>z. z \<in> set zs \<Longrightarrow> P z = Q z" for P Q :: "nat \<Rightarrow> bool" and zs
    using that by (induction zs) auto
  have "find (occurs m h x (length ys)) [0..<Suc (length xs) - length ys] =
      find (\<lambda>i. take (length ys) (drop i xs) = ys) [0..<Suc (length xs) - length ys]"
    by (rule cong) (simp add: occurs_def ly sub [where a = "length xs", unfolded lx])
  then show ?thesis
    using strstr_cstr [OF str_at_cstr [OF assms(1)] str_at_cstr [OF assms(2)]]
    by (simp add: first_occurrence_def)
qed

theorem strstr_correct_witness:
  "str_at demo_mem 0x1000 [97, 98, 44, 99] \<and> str_at demo_mem 0x4000 [98, 44] \<and>
   strstr plain_cpu demo_mem 0x1000 0x4000 = Some (Some 0x1001)"
  using strstr_correct [OF demo_mem_strings(1,4), of plain_cpu] demo_mem_strings
  by (simp add: upt_rec)

text \<open>
  C7: \<open>strtok_r\<close> on a C string skips the leading delimiters, returns the maximal run of
  other characters as a C string of its own, and leaves the save pointer at the string
  behind the delimiter that ended it (null at the end of the input); with only delimiters
  left it returns null.
\<close>

theorem strtok_r_correct:
  assumes "str_at m s xs" and "str_at m d ds"
    and "case str of Some p \<Rightarrow> p = s | None \<Rightarrow> save = Some s"
  shows "\<exists>m' save' r. strtok_r m str d save = Some (m', save', r) \<and>
    (case dropWhile (\<lambda>x. x \<in> set ds) xs of
       [] \<Rightarrow> r = None \<and> save' = None \<and> m' = m
     | y # ys \<Rightarrow> \<exists>t. r = Some t \<and>
         str_at m' t (takeWhile (\<lambda>x. x \<notin> set ds) (y # ys)) \<and>
         (case dropWhile (\<lambda>x. x \<notin> set ds) (y # ys) of
            [] \<Rightarrow> save' = None
          | z # zs \<Rightarrow> \<exists>q. save' = Some q \<and> str_at m' q zs))" (is "?R (dropWhile _ xs)")
proof -
  define ys where "ys = dropWhile (\<lambda>x. x \<in> set ds) xs"
  define tok where "tok = takeWhile (\<lambda>x. x \<notin> set ds) ys"
  define rest where "rest = dropWhile (\<lambda>x. x \<notin> set ds) ys"
  define t where "t = s + of_nat (length xs - length ys)"
  define e where "e = t + of_nat (length tok)"
  have res: "strtok_r m str d save =
    Some (if ys = [] then (m, None, None)
          else if rest = [] then (m, None, Some t)
          else (m(e := 0), Some (e + 1), Some t))"
    unfolding e_def t_def tok_def rest_def ys_def by (rule strtok_r_str_at [OF assms])
  have "xs = takeWhile (\<lambda>x. x \<in> set ds) xs @ ys" by (simp add: ys_def)
  moreover from this have "length (takeWhile (\<lambda>x. x \<in> set ds) xs) = length xs - length ys"
    by (metis add_diff_cancel_right' length_append)
  ultimately have t: "str_at m t (tok @ rest)"
    using str_at_append [of m s "takeWhile (\<lambda>x. x \<in> set ds) xs" ys] assms(1)
    by (simp add: t_def tok_def rest_def)
  show ?thesis
    unfolding ys_def [symmetric]
  proof (cases ys)
    case Nil
    then show "?R ys" using res by simp
  next
    case (Cons y zs)
    have tk: "takeWhile (\<lambda>x. x \<notin> set ds) (y # zs) = tok" "dropWhile (\<lambda>x. x \<notin> set ds) (y # zs) = rest"
      unfolding tok_def rest_def Cons by simp_all
    show "?R ys"
      unfolding Cons list.case tk using res t str_at_cut [OF t] Cons
      by (cases rest) (simp_all add: e_def)
  qed
qed

theorem strtok_r_correct_witness:
  "str_at demo_mem 0x1000 [97, 98, 44, 99] \<and> str_at demo_mem 0x3000 [44] \<and>
   (\<exists>m' q t. strtok_r demo_mem (Some 0x1000) 0x3000 None = Some (m', Some q, Some t) \<and>
      str_at m' t [97, 98] \<and> str_at m' q [99])"
  using strtok_r_correct [OF demo_mem_strings(1,3), where str = "Some 0x1000" and save = None] demo_mem_strings
  by auto

text \<open>
  \<open>strspn\<close>, \<open>strcspn\<close> and \<open>strpbrk\<close>, through the 256-bit set \<open>byte_set\<close> builds, return
  on C strings the length of the initial run inside or outside the set, and the first member.
\<close>

theorem spans_correct:
  assumes "str_at m s xs" and "str_at m a as"
  shows "strspn m s a = Some (of_nat (length (takeWhile (\<lambda>x. x \<in> set as) xs))) \<and>
    strcspn m s a = Some (of_nat (length (takeWhile (\<lambda>x. x \<notin> set as) xs))) \<and>
    strpbrk m s a =
      Some (map_option (\<lambda>i. s + of_nat i) (find (\<lambda>i. xs ! i \<in> set as) [0..<length xs]))"
  using assms by (simp add: strspn_str_at strcspn_str_at strpbrk_str_at)

theorem spans_correct_witness:
  "str_at demo_mem 0x1000 [97, 98, 44, 99] \<and> str_at demo_mem 0x2000 [97, 98] \<and>
   strspn demo_mem 0x1000 0x2000 = Some 2"
  using spans_correct [OF demo_mem_strings(1,2)] demo_mem_strings by simp

end
