(* ===== verification/Libc_Stdlib.thy ===== *)
theory Libc_Stdlib
  imports Libc_Strings "HOL-Library.Multiset"
begin

text \<open>
  \<^verbatim>\<open>src/src/libc/src/ctype.c\<close> and \<^verbatim>\<open>src/src/libc/src/stdlib.c\<close>: character classes,
  number parsing (\<open>strtoul\<close>, \<open>strtol\<close> and their callers), \<open>bsearch\<close> and \<open>qsort\<close>. A C
  \<^verbatim>\<open>int\<close> is an \<open>int\<close>; \<^verbatim>\<open>unsigned long\<close> is a 64-bit word; comparison callbacks are
  parameters.
\<close>

section \<open>Character classes\<close>

definition isdigit :: "int \<Rightarrow> bool" where "isdigit c \<longleftrightarrow> c \<ge> 48 \<and> c \<le> 57"
definition islower :: "int \<Rightarrow> bool" where "islower c \<longleftrightarrow> c \<ge> 97 \<and> c \<le> 122"
definition isupper :: "int \<Rightarrow> bool" where "isupper c \<longleftrightarrow> c \<ge> 65 \<and> c \<le> 90"
definition isalpha :: "int \<Rightarrow> bool" where "isalpha c \<longleftrightarrow> islower c \<or> isupper c"
definition isalnum :: "int \<Rightarrow> bool" where "isalnum c \<longleftrightarrow> isalpha c \<or> isdigit c"
definition isblank :: "int \<Rightarrow> bool" where "isblank c \<longleftrightarrow> c = 32 \<or> c = 9"
definition isspace :: "int \<Rightarrow> bool" where
  "isspace c \<longleftrightarrow> isblank c \<or> c = 10 \<or> c = 13 \<or> c = 12 \<or> c = 11"
definition iscntrl :: "int \<Rightarrow> bool" where "iscntrl c \<longleftrightarrow> (c \<ge> 0 \<and> c < 0x20) \<or> c = 0x7f"
definition isprint :: "int \<Rightarrow> bool" where "isprint c \<longleftrightarrow> c \<ge> 0x20 \<and> c < 0x7f"
definition isgraph :: "int \<Rightarrow> bool" where "isgraph c \<longleftrightarrow> c > 0x20 \<and> c < 0x7f"
definition ispunct :: "int \<Rightarrow> bool" where "ispunct c \<longleftrightarrow> isgraph c \<and> \<not> isalnum c"
definition isxdigit :: "int \<Rightarrow> bool" where
  "isxdigit c \<longleftrightarrow> isdigit c \<or> (c \<ge> 97 \<and> c \<le> 102) \<or> (c \<ge> 65 \<and> c \<le> 70)"
definition tolower :: "int \<Rightarrow> int" where "tolower c = (if isupper c then c + (97 - 65) else c)"
definition toupper :: "int \<Rightarrow> int" where "toupper c = (if islower c then c - (97 - 65) else c)"

section \<open>Parsing numbers\<close>

abbreviation ULONG_MAX :: u64 where "ULONG_MAX \<equiv> -1"
abbreviation LONG_MAX :: u64 where "LONG_MAX \<equiv> 0x7fffffffffffffff"

definition digit_value :: "int \<Rightarrow> int" where
  "digit_value c =
     (if c \<ge> 48 \<and> c \<le> 57 then c - 48
      else if c \<ge> 97 \<and> c \<le> 122 then c - 97 + 10
      else if c \<ge> 65 \<and> c \<le> 90 then c - 65 + 10
      else -1)"

definition digit_ok :: "int \<Rightarrow> u8 \<Rightarrow> bool" where
  "digit_ok base c \<longleftrightarrow> \<not> (digit_value (uint c) < 0 \<or> digit_value (uint c) \<ge> base)"

text \<open>
  The accumulation loop of \<open>parse_unsigned\<close>: the pointer, the value and the flag
  \<^verbatim>\<open>any\<close> when it leaves the loop. On overflow it skips the remaining digits.
\<close>

partial_function (option) parse_digits ::
  "mem \<Rightarrow> int \<Rightarrow> addr \<Rightarrow> u64 \<Rightarrow> bool \<Rightarrow> (addr \<times> u64 \<times> bool) option" where
  "parse_digits m base s acc any =
     (if \<not> digit_ok base (m s) then Some (s, acc, any)
      else
        let ud = word_of_int (digit_value (uint (m s)))
        in if acc > (ULONG_MAX - ud) div word_of_int base then do {
             s \<leftarrow> advance 1 (\<lambda>p. \<not> digit_ok base (m p)) (s + 1);
             Some (s, ULONG_MAX, True)
           }
           else parse_digits m base (s + 1) (acc * word_of_int base + ud) True)"

text \<open>The value, \<^verbatim>\<open>*neg\<close> and \<^verbatim>\<open>*endptr\<close>.\<close>

definition parse_unsigned :: "mem \<Rightarrow> addr \<Rightarrow> int \<Rightarrow> (u64 \<times> bool \<times> addr) option" where
  "parse_unsigned m nptr base = do {
     s \<leftarrow> advance 1 (\<lambda>p. \<not> isspace (uint (m p))) nptr;
     let neg = (m s = 45);
         s = (if m s = 43 \<or> m s = 45 then s + 1 else s);
         hex = (m s = 48 \<and> (m (s + 1) = 120 \<or> m (s + 1) = 88));
         (base, s) =
           (if base = 0 then
              (if hex then (16, s + 2) else if m s = 48 then (8, s) else (10, s))
            else if base = 16 \<and> hex then (16, s + 2)
            else (base, s))
     in if base < 2 \<or> base > 36 then Some (0, neg, nptr)
        else do {
          (s, acc, any) \<leftarrow> parse_digits m base s 0 False;
          Some (acc, neg, if any then s else nptr)
        }
   }"

definition strtoul :: "mem \<Rightarrow> addr \<Rightarrow> int \<Rightarrow> (u64 \<times> addr) option" where
  "strtoul m nptr base = do {
     (value, neg, endptr) \<leftarrow> parse_unsigned m nptr base;
     Some (if neg then 0 - value else value, endptr)
   }"

definition strtol :: "mem \<Rightarrow> addr \<Rightarrow> int \<Rightarrow> (int \<times> addr) option" where
  "strtol m nptr base = do {
     (value, neg, endptr) \<leftarrow> parse_unsigned m nptr base;
     let limit = (if neg then LONG_MAX + 1 else LONG_MAX);
         value = (if value > limit then limit else value)
     in Some (if neg then (if value = LONG_MAX + 1 then - (2 ^ 63) else - uint value) else uint value,
              endptr)
   }"

text \<open>The conversion of a \<^verbatim>\<open>long\<close> to \<^verbatim>\<open>int\<close> keeps the low 32 bits.\<close>

definition atoi :: "mem \<Rightarrow> addr \<Rightarrow> int option" where
  "atoi m nptr = do { (v, _) \<leftarrow> strtol m nptr 10; Some (sint (word_of_int v :: u32)) }"

definition atol :: "mem \<Rightarrow> addr \<Rightarrow> int option" where
  "atol m nptr = do { (v, _) \<leftarrow> strtol m nptr 10; Some v }"

subsection \<open>Correctness\<close>

text \<open>The number a list of digits denotes, continuing from \<open>a\<close>.\<close>

definition digits_val :: "int \<Rightarrow> int \<Rightarrow> u8 list \<Rightarrow> int" where
  "digits_val base a ds = foldl (\<lambda>a d. a * base + digit_value (uint d)) a ds"

lemma digits_val_simps [simp]:
  "digits_val base a [] = a"
  "digits_val base a (d # ds) = digits_val base (a * base + digit_value (uint d)) ds"
  by (simp_all add: digits_val_def)

lemma digits_val_mono:
  assumes "1 \<le> base" and "\<forall>d\<in>set ds. digit_ok base d" and "0 \<le> a"
  shows "a \<le> digits_val base a ds"
  using assms(2,3)
proof (induction ds arbitrary: a)
  case (Cons d ds)
  have "a * 1 \<le> a * base" using assms(1) Cons.prems(2) by (intro mult_left_mono) simp_all
  then have "a \<le> a * base + digit_value (uint d)" using Cons.prems by (simp add: digit_ok_def)
  then show ?case using Cons.IH [of "a * base + digit_value (uint d)"] Cons.prems by simp
qed simp

lemma digit_ok_0 [simp]: "\<not> digit_ok base 0"
  by (simp add: digit_ok_def digit_value_def)

lemma advance_digits:
  "str_at m s xs \<Longrightarrow>
   advance 1 (\<lambda>p. \<not> digit_ok base (m p)) s = Some (s + of_nat (length (takeWhile (digit_ok base) xs)))"
proof (induction xs arbitrary: s)
  case Nil
  then show ?case by (simp add: advance_stop)
next
  case (Cons x xs)
  then show ?case by (cases "digit_ok base x") (simp_all add: advance_stop advance_go add.assoc)
qed

lemma uint_ULONG_MAX: "uint ULONG_MAX = 2 ^ 64 - 1"
  by (simp add: unsigned_minus_1_eq_mask mask_eq_exp_minus_1)

lemma int_div_less: "0 < b \<Longrightarrow> a div b < c \<longleftrightarrow> a < c * (b :: int)"
proof
  assume b: "0 < b" and "a div b < c"
  then have "(a div b + 1) * b \<le> c * b" by (intro mult_right_mono) simp_all
  then show "a < c * b" using pos_mod_bound [OF b, of a] div_mult_mod_eq [of a b]
    unfolding distrib_right by linarith
next
  assume b: "0 < b" and a: "a < c * b"
  show "a div b < c"
  proof (rule ccontr)
    assume "\<not> a div b < c"
    then have "c * b \<le> a div b * b" using b by (intro mult_right_mono) simp_all
    then show False using a pos_mod_sign [OF b, of a] div_mult_mod_eq [of a b] by simp
  qed
qed

lemma overflow_test:
  fixes acc :: u64 and d base :: int
  assumes "0 \<le> d" and "d < base" and "base \<le> 36"
  shows "acc > (ULONG_MAX - word_of_int d) div word_of_int base \<longleftrightarrow> 2 ^ 64 \<le> uint acc * base + d"
proof -
  have b: "uint (word_of_int base :: u64) = base" and d: "uint (word_of_int d :: u64) = d"
    using assms by (simp_all add: uint_word_of_int)
  have le: "(word_of_int d :: u64) \<le> ULONG_MAX" by simp
  have "uint ((ULONG_MAX - word_of_int d) div word_of_int base) = (2 ^ 64 - 1 - d) div base"
    by (simp add: uint_div_distrib uint_minus_simple_alt [THEN iffD1, OF le] b d uint_ULONG_MAX)
  then have "acc > (ULONG_MAX - word_of_int d) div word_of_int base \<longleftrightarrow> (2 ^ 64 - 1 - d) div base < uint acc"
    by (simp add: word_less_def)
  also have "\<dots> \<longleftrightarrow> 2 ^ 64 - 1 - d < uint acc * base"
    using assms by (intro int_div_less) simp
  finally show ?thesis by auto
qed

lemma parse_digits_str_at:
  assumes base: "2 \<le> base" "base \<le> 36"
  defines "run \<equiv> \<lambda>xs. takeWhile (digit_ok base) xs"
  shows "str_at m s xs \<Longrightarrow>
    parse_digits m base s acc any =
      Some (s + of_nat (length (run xs)),
            word_of_int (min (digits_val base (uint acc) (run xs)) (2 ^ 64 - 1)),
            any \<or> run xs \<noteq> [])"
proof (induction xs arbitrary: s acc any)
  case Nil
  have "min (uint acc) (2 ^ 64 - 1) = uint acc" using uint_bounded [of acc] by simp
  then show ?case using Nil by (subst parse_digits.simps) (simp add: run_def)
next
  case (Cons x xs)
  show ?case
  proof (cases "digit_ok base x")
    case False
    have "min (uint acc) (2 ^ 64 - 1) = uint acc" using uint_bounded [of acc] by simp
    then show ?thesis using Cons False by (subst parse_digits.simps) (simp add: run_def)
  next
    case True
    let ?d = "digit_value (uint x)"
    have d: "0 \<le> ?d" "?d < base" using True by (simp_all add: digit_ok_def)
    note test = overflow_test [OF d base(2), of acc]
    have tail: "\<forall>y\<in>set (run xs). digit_ok base y"
      unfolding run_def by (metis set_takeWhileD)
    have run: "run (x # xs) = x # run xs" using True by (simp add: run_def)
    have nonneg: "0 \<le> uint acc * base + ?d" using d base by simp
    note mono = digits_val_mono [OF _ tail nonneg]
    show ?thesis
    proof (cases "2 ^ 64 \<le> uint acc * base + ?d")
      case big: True
      have "min (digits_val base (uint acc * base + ?d) (run xs)) (2 ^ 64 - 1) = 2 ^ 64 - 1"
        using mono base big by simp
      then show ?thesis
        using Cons.prems True test big advance_digits [of m "s + 1" xs base]
        by (subst parse_digits.simps) (simp add: run Let_def, simp add: run_def add.assoc)
    next
      case small: False
      have "uint (acc * word_of_int base + word_of_int ?d) = uint acc * base + ?d"
      proof -
        have "acc * word_of_int base + word_of_int ?d = word_of_int (uint acc * base + ?d)" by simp
        then show ?thesis using small nonneg by (simp only: uint_word_of_int) simp
      qed
      then show ?thesis
        using Cons True test small Cons.IH [of "s + 1" "acc * word_of_int base + word_of_int ?d" True]
        by (subst parse_digits.simps) (simp add: run Let_def add.assoc)
    qed
  qed
qed

text \<open>
  What \<open>strtol\<close> and \<open>strtoul\<close> read of a string: white space, a sign, the longest run of
  digits.
\<close>

definition number_of :: "int \<Rightarrow> u8 list \<Rightarrow> bool \<times> u8 list" where
  "number_of base xs =
     (let ys = dropWhile (\<lambda>x. isspace (uint x)) xs
      in (ys \<noteq> [] \<and> hd ys = 45,
          takeWhile (digit_ok base) (if ys \<noteq> [] \<and> (hd ys = 43 \<or> hd ys = 45) then tl ys else ys)))"

lemma isspace_0 [simp]: "\<not> isspace 0"
  by (simp add: isspace_def isblank_def)

lemma advance_spaces:
  "str_at m s xs \<Longrightarrow>
   advance 1 (\<lambda>p. \<not> isspace (uint (m p))) s =
     Some (s + of_nat (length (takeWhile (\<lambda>x. isspace (uint x)) xs)))"
proof (induction xs arbitrary: s)
  case Nil
  then show ?case by (simp add: advance_stop)
next
  case (Cons x xs)
  then show ?case by (cases "isspace (uint x)") (simp_all add: advance_stop advance_go add.assoc)
qed

lemma parse_unsigned_str_at:
  assumes str: "str_at m nptr xs" and base: "2 \<le> base" "base \<le> 36" "base \<noteq> 16"
    and num: "number_of base xs = (neg, ds)"
  shows "\<exists>e. parse_unsigned m nptr base =
      Some (word_of_int (min (digits_val base 0 ds) (2 ^ 64 - 1)), neg, e) \<and> (ds = [] \<longrightarrow> e = nptr)"
proof -
  define ys where "ys = dropWhile (\<lambda>x. isspace (uint x)) xs"
  define p where "p = nptr + of_nat (length (takeWhile (\<lambda>x. isspace (uint x)) xs))"
  have xs: "xs = takeWhile (\<lambda>x. isspace (uint x)) xs @ ys" by (simp add: ys_def)
  have sp: "advance 1 (\<lambda>p. \<not> isspace (uint (m p))) nptr = Some p"
    using advance_spaces [OF str] by (simp add: p_def)
  have p: "str_at m p ys"
    using str_at_append [of m nptr "takeWhile (\<lambda>x. isspace (uint x)) xs" ys] str xs
    by (simp add: p_def)
  define zs where "zs = (if ys \<noteq> [] \<and> (hd ys = 43 \<or> hd ys = 45) then tl ys else ys)"
  define q where "q = (if m p = 43 \<or> m p = 45 then p + 1 else p)"
  have q: "str_at m q zs" using p by (cases ys) (auto simp: zs_def q_def)
  have hd: "m p = 45 \<longleftrightarrow> ys \<noteq> [] \<and> hd ys = 45" using p by (cases ys) auto
  have nd: "neg = (m p = 45)" "ds = takeWhile (digit_ok base) zs"
    using num hd by (auto simp: number_of_def Let_def ys_def [symmetric] zs_def)
  have run: "parse_digits m base q 0 False =
      Some (q + of_nat (length ds), word_of_int (min (digits_val base 0 ds) (2 ^ 64 - 1)), ds \<noteq> [])"
    using parse_digits_str_at [OF base(1,2) q, of 0 False] by (simp add: nd(2))
  have b: "base \<noteq> 0" using base by simp
  show ?thesis
    unfolding parse_unsigned_def sp nd(1)
    using run b base by (simp add: q_def [symmetric] Let_def)
qed

lemma strtoul_str_at:
  assumes "str_at m nptr xs" and "2 \<le> base" "base \<le> 36" "base \<noteq> 16"
    and "number_of base xs = (neg, ds)"
  shows "\<exists>e. strtoul m nptr base = Some
    (let v = word_of_int (min (digits_val base 0 ds) (2 ^ 64 - 1)) in if neg then - v else v, e)"
  using parse_unsigned_str_at [OF assms] by (auto simp: strtoul_def Let_def)

lemma digits_val_nonneg:
  "0 \<le> base \<Longrightarrow> \<forall>d\<in>set ds. digit_ok base d \<Longrightarrow> 0 \<le> a \<Longrightarrow> 0 \<le> digits_val base a ds"
  by (induction ds arbitrary: a) (simp_all add: digit_ok_def)

lemma strtol_str_at:
  assumes "str_at m nptr xs" and base: "2 \<le> base" "base \<le> 36" "base \<noteq> 16"
    and num: "number_of base xs = (neg, ds)"
  shows "\<exists>e. strtol m nptr base = Some
    (max (- (2 ^ 63)) (min (2 ^ 63 - 1) (if neg then - digits_val base 0 ds else digits_val base 0 ds)), e)"
proof -
  let ?v = "digits_val base 0 ds"
  let ?w = "word_of_int (min ?v (2 ^ 64 - 1)) :: u64"
  have "\<forall>d\<in>set ds. digit_ok base d"
    using num by (auto simp: number_of_def Let_def dest!: set_takeWhileD)
  then have pos: "0 \<le> ?v" using base by (intro digits_val_nonneg) simp_all
  then have u: "uint ?w = min ?v (2 ^ 64 - 1)" by (simp add: uint_word_of_int)
  obtain e where e: "parse_unsigned m nptr base = Some (?w, neg, e)"
    using parse_unsigned_str_at [OF assms] by blast
  show ?thesis
  proof (cases neg)
    case True
    have "?w > LONG_MAX + 1 \<longleftrightarrow> 2 ^ 63 < ?v" "?w = LONG_MAX + 1 \<longleftrightarrow> ?v = 2 ^ 63"
      by (auto simp: word_less_def word_uint_eq_iff u [simplified])
    then show ?thesis using e u pos True by (auto simp: strtol_def Let_def)
  next
    case False
    have "?w > LONG_MAX \<longleftrightarrow> 2 ^ 63 - 1 < ?v" by (auto simp: word_less_def u [simplified])
    then show ?thesis using e u pos False by (auto simp: strtol_def Let_def)
  qed
qed

section \<open>Binary search\<close>

text \<open>\<open>cmp\<close> is \<^verbatim>\<open>compar(key, _)\<close>.\<close>

function bsearch_loop :: "(addr \<Rightarrow> int) \<Rightarrow> addr \<Rightarrow> nat \<Rightarrow> size_t \<Rightarrow> addr option" where
  "bsearch_loop cmp b nmemb sz =
     (if nmemb \<noteq> 0
      then let mid = nmemb div 2; elem = b + of_nat mid * sz; c = cmp elem
           in if c = 0 then Some elem
              else if c > 0 then bsearch_loop cmp (b + of_nat (mid + 1) * sz) (nmemb - (mid + 1)) sz
              else bsearch_loop cmp b mid sz
      else None)"
  by pat_completeness auto
termination
  by (relation "measure (\<lambda>(cmp, b, n, sz). n)") auto

declare bsearch_loop.simps [simp del]

definition bsearch :: "(addr \<Rightarrow> int) \<Rightarrow> addr \<Rightarrow> size_t \<Rightarrow> size_t \<Rightarrow> addr option" where
  "bsearch cmp base nmemb sz = bsearch_loop cmp base (unat nmemb) sz"

text \<open>The table is sorted for the key: no element below one that is too small is too large.\<close>

definition cmp_sorted :: "(addr \<Rightarrow> int) \<Rightarrow> addr \<Rightarrow> nat \<Rightarrow> size_t \<Rightarrow> bool" where
  "cmp_sorted cmp b n sz \<longleftrightarrow>
     (\<forall>j<n. \<forall>i<j. (cmp (b + of_nat j * sz) > 0 \<longrightarrow> cmp (b + of_nat i * sz) > 0) \<and>
                   (cmp (b + of_nat i * sz) < 0 \<longrightarrow> cmp (b + of_nat j * sz) < 0))"

lemma bsearch_loop_sound:
  "bsearch_loop cmp b n sz = Some e \<Longrightarrow> \<exists>i<n. e = b + of_nat i * sz \<and> cmp e = 0"
proof (induction cmp b n sz rule: bsearch_loop.induct)
  case (1 cmp b n sz)
  let ?mid = "n div 2"
  let ?c = "cmp (b + of_nat ?mid * sz)"
  have n: "n \<noteq> 0" using 1(3) by (cases "n = 0") (auto simp: bsearch_loop.simps [of cmp b 0])
  consider "?c = 0" | "?c > 0" | "?c < 0" by linarith
  then show ?case
  proof cases
    case 1
    then show ?thesis using n "1.prems" by (intro exI [of _ ?mid]) (simp add: bsearch_loop.simps [of cmp b n] Let_def)
  next
    case 2
    then have "bsearch_loop cmp (b + of_nat (?mid + 1) * sz) (n - (?mid + 1)) sz = Some e"
      using n "1.prems" by (simp add: bsearch_loop.simps [of cmp b n] Let_def)
    from "1.IH"(1) [OF n refl refl refl _ _ this] 2 obtain i where
      i: "i < n - (?mid + 1)" "e = b + of_nat (?mid + 1) * sz + of_nat i * sz" "cmp e = 0" by auto
    then show ?thesis
      by (intro exI [of _ "?mid + 1 + i"]) (simp add: algebra_simps)
  next
    case 3
    then have "bsearch_loop cmp b ?mid sz = Some e"
      using n "1.prems" by (simp add: bsearch_loop.simps [of cmp b n] Let_def)
    from "1.IH"(2) [OF n refl refl refl _ _ this] 3 obtain i where
      "i < ?mid" "e = b + of_nat i * sz" "cmp e = 0" by auto
    then show ?thesis by (intro exI [of _ i]) (auto intro: less_le_trans)
  qed
qed

lemma bsearch_loop_complete:
  "cmp_sorted cmp b n sz \<Longrightarrow> i < n \<Longrightarrow> cmp (b + of_nat i * sz) = 0 \<Longrightarrow>
   bsearch_loop cmp b n sz \<noteq> None"
proof (induction cmp b n sz arbitrary: i rule: bsearch_loop.induct)
  case (1 cmp b n sz)
  let ?mid = "n div 2"
  let ?c = "cmp (b + of_nat ?mid * sz)"
  have n: "n \<noteq> 0" using "1.prems" by auto
  have mid: "?mid < n" using n by simp
  consider "?c = 0" | "?c > 0" | "?c < 0" by linarith
  then show ?case
  proof cases
    case 1
    then show ?thesis using n by (simp add: bsearch_loop.simps [of cmp b n] Let_def)
  next
    case 2
    have "?mid < i"
    proof (rule ccontr)
      assume "\<not> ?mid < i"
      then have "i < ?mid" using 2 "1.prems"(3) by (cases "i = ?mid") auto
      then have "cmp (b + of_nat i * sz) > 0"
        using "1.prems"(1) mid 2 unfolding cmp_sorted_def by blast
      then show False using "1.prems"(3) by simp
    qed
    then obtain k where k: "i = ?mid + 1 + k" using less_iff_Suc_add by auto
    have shift: "b + of_nat (?mid + 1) * sz + of_nat j * sz = b + of_nat (?mid + 1 + j) * sz" for j
      by (simp add: algebra_simps)
    have "cmp_sorted cmp (b + of_nat (?mid + 1) * sz) (n - (?mid + 1)) sz"
      unfolding cmp_sorted_def shift
    proof (intro allI impI)
      fix j i assume "j < n - (?mid + 1)" "i < j"
      then have "?mid + 1 + j < n" "?mid + 1 + i < ?mid + 1 + j" by linarith+
      then show "(0 < cmp (b + of_nat (?mid + 1 + j) * sz) \<longrightarrow> 0 < cmp (b + of_nat (?mid + 1 + i) * sz)) \<and>
          (cmp (b + of_nat (?mid + 1 + i) * sz) < 0 \<longrightarrow> cmp (b + of_nat (?mid + 1 + j) * sz) < 0)"
        using "1.prems"(1) unfolding cmp_sorted_def by blast
    qed
    moreover have "k < n - (?mid + 1)" using k "1.prems"(2) by linarith
    moreover have "cmp (b + of_nat (?mid + 1) * sz + of_nat k * sz) = 0"
      unfolding shift using "1.prems"(3) k by simp
    ultimately have "bsearch_loop cmp (b + of_nat (?mid + 1) * sz) (n - (?mid + 1)) sz \<noteq> None"
      using 2 by (intro "1.IH"(1) [OF n refl refl refl, of k]) simp_all
    then show ?thesis using n 2 by (simp add: bsearch_loop.simps [of cmp b n] Let_def)
  next
    case 3
    have "i < ?mid"
    proof (rule ccontr)
      assume "\<not> i < ?mid"
      then have "?mid < i" using 3 "1.prems"(3) by (cases "i = ?mid") auto
      then have "cmp (b + of_nat i * sz) < 0"
        using "1.prems"(1,2) 3 unfolding cmp_sorted_def by blast
      then show False using "1.prems"(3) by simp
    qed
    moreover have "cmp_sorted cmp b ?mid sz"
      using "1.prems"(1) mid unfolding cmp_sorted_def by (meson less_trans)
    ultimately have "bsearch_loop cmp b ?mid sz \<noteq> None"
      using 3 "1.prems"(3) by (intro "1.IH"(2) [OF n refl refl refl, of i]) auto
    then show ?thesis using n 3 by (simp add: bsearch_loop.simps [of cmp b n] Let_def)
  qed
qed

section \<open>Sorting\<close>

fun byte_swap :: "mem \<Rightarrow> addr \<Rightarrow> addr \<Rightarrow> nat \<Rightarrow> mem" where
  "byte_swap m a b 0 = m"
| "byte_swap m a b (Suc k) =
     (let m = byte_swap m a b k; t = m (a + of_nat k); m = m(a + of_nat k := m (b + of_nat k))
      in m(b + of_nat k := t))"

text \<open>The inner loop that sinks element \<open>j\<close> to its place, and the loop over \<open>i\<close>.\<close>

fun sink :: "(mem \<Rightarrow> addr \<Rightarrow> addr \<Rightarrow> int) \<Rightarrow> mem \<Rightarrow> addr \<Rightarrow> size_t \<Rightarrow> nat \<Rightarrow> mem" where
  "sink compar m base sz 0 = m"
| "sink compar m base sz (Suc j) =
     (if compar m (base + of_nat (Suc j) * sz) (base + of_nat j * sz) < 0
      then sink compar (byte_swap m (base + of_nat (Suc j) * sz) (base + of_nat j * sz) (unat sz)) base sz j
      else m)"

definition insertion_sort :: "(mem \<Rightarrow> addr \<Rightarrow> addr \<Rightarrow> int) \<Rightarrow> mem \<Rightarrow> addr \<Rightarrow> size_t \<Rightarrow> size_t \<Rightarrow> mem" where
  "insertion_sort compar m base nmemb sz =
     fold (\<lambda>i m. sink compar m base sz i) [1..<unat nmemb] m"

definition qsort :: "(mem \<Rightarrow> addr \<Rightarrow> addr \<Rightarrow> int) option \<Rightarrow> mem \<Rightarrow> addr \<Rightarrow> size_t \<Rightarrow> size_t \<Rightarrow> mem" where
  "qsort compar m base nmemb sz =
     (case compar of
        None \<Rightarrow> m
      | Some f \<Rightarrow> if base = 0 \<or> sz = 0 \<or> nmemb < 2 then m else insertion_sort f m base nmemb sz)"

subsection \<open>Swapping two blocks\<close>

lemma byte_swap_eq:
  assumes "k \<le> unat (a - b)" and "k \<le> unat (b - a)"
  shows "byte_swap m a b k =
    (\<lambda>x. if unat (x - a) < k then m (b + (x - a)) else if unat (x - b) < k then m (a + (x - b)) else m x)"
  using assms
proof (induction k)
  case 0
  then show ?case by simp
next
  case (Suc k)
  let ?f = "\<lambda>k x. if unat (x - a) < k then m (b + (x - a)) else if unat (x - b) < k then m (a + (x - b)) else m x"
  have IH: "byte_swap m a b k = ?f k" using Suc by simp
  have "a - b \<noteq> 0" using Suc.prems by auto
  then have tot: "unat (a - b) + unat (b - a) = 2 ^ 64"
    using unat_sub64 [of 0 "a - b"] unat_lt64 [of "a - b"] by (simp add: unat_eq_zero)
  then have k: "k < 2 ^ 64" using Suc.prems by linarith
  have ea: "a + of_nat k - b = (a - b) + of_nat k" and eb: "b + of_nat k - a = (b - a) + of_nat k"
    by simp_all
  have ua: "unat (a + of_nat k - b) = unat (a - b) + k"
    unfolding ea by (rule unat_add64) (use Suc.prems tot in linarith)
  have ub: "unat (b + of_nat k - a) = unat (b - a) + k"
    unfolding eb by (rule unat_add64) (use Suc.prems tot in linarith)
  have on: "x \<noteq> y + of_nat k \<Longrightarrow> unat (x - y) \<noteq> k" for x y :: addr by auto
  show ?case
  proof (rule ext)
    fix x
    consider "x = b + of_nat k" | "x = a + of_nat k" "x \<noteq> b + of_nat k"
      | "x \<noteq> a + of_nat k" "x \<noteq> b + of_nat k" by blast
    then show "byte_swap m a b (Suc k) x = ?f (Suc k) x"
    proof cases
      case 1
      have "?f (Suc k) x = m (a + of_nat k)" unfolding 1 using ub Suc.prems k by simp
      moreover have "byte_swap m a b (Suc k) x = ?f k (a + of_nat k)" using 1 by (simp add: IH Let_def)
      moreover have "?f k (a + of_nat k) = m (a + of_nat k)" using ua Suc.prems k by simp
      ultimately show ?thesis by simp
    next
      case 2
      have "?f (Suc k) x = m (b + of_nat k)" unfolding 2 using k by simp
      moreover have "byte_swap m a b (Suc k) x = ?f k (b + of_nat k)"
        using 2 by (simp add: IH Let_def)
      moreover have "?f k (b + of_nat k) = m (b + of_nat k)" using ub Suc.prems k by simp
      ultimately show ?thesis by simp
    next
      case 3
      then have "byte_swap m a b (Suc k) x = ?f k x" by (simp add: IH Let_def)
      then show ?thesis using on [OF 3(1)] on [OF 3(2)] by (simp add: less_Suc_eq)
    qed
  qed
qed

subsection \<open>The array as a list of blocks\<close>

definition block :: "mem \<Rightarrow> addr \<Rightarrow> nat \<Rightarrow> nat \<Rightarrow> u8 list" where
  "block m base sz i = load_bytes m (base + of_nat (i * sz)) sz"

definition elems :: "mem \<Rightarrow> addr \<Rightarrow> nat \<Rightarrow> nat \<Rightarrow> u8 list list" where
  "elems m base sz n = map (block m base sz) [0..<n]"

lemma length_elems [simp]: "length (elems m base sz n) = n"
  by (simp add: elems_def)

lemma nth_elems [simp]: "i < n \<Longrightarrow> elems m base sz n ! i = block m base sz i"
  by (simp add: elems_def)

text \<open>Distances between addresses of the array do not wrap.\<close>

lemma offset_less:
  assumes "p < 2 ^ 64" and "q + sz \<le> 2 ^ 64"
  shows "unat ((base + of_nat p) - (base + of_nat q) :: addr) < sz \<longleftrightarrow> q \<le> p \<and> p < q + sz"
proof -
  have e: "(base + of_nat p) - (base + of_nat q) = (of_nat p - of_nat q :: addr)" by simp
  show ?thesis
  proof (cases "sz = 0")
    case False
    then have "q < 2 ^ 64" using assms by linarith
    then show ?thesis unfolding e using assms by (auto simp: unat_sub64)
  qed auto
qed

lemma swap_elems:
  fixes base :: addr
  assumes j: "Suc j < n" and fit: "n * sz \<le> 2 ^ 64" and sz: "0 < sz"
  defines "a \<equiv> base + of_nat (Suc j * sz)" and "b \<equiv> base + of_nat (j * sz)"
  shows "elems (byte_swap m a b sz) base sz n =
      (elems m base sz n)[Suc j := block m base sz j, j := block m base sz (Suc j)]"
    and "\<And>x. n * sz \<le> unat (x - base) \<Longrightarrow> byte_swap m a b sz x = m x"
proof -
  have le: "Suc j * sz + sz \<le> n * sz"
    using mult_le_mono1 [of "Suc (Suc j)" n sz] j by simp
  have qa: "Suc j * sz + sz \<le> 2 ^ 64" and qb: "j * sz + sz \<le> 2 ^ 64" using le fit by auto
  have "a - b = of_nat sz" "b - a = - of_nat sz" by (simp_all add: a_def b_def algebra_simps)
  moreover have "sz < 2 ^ 64" using qa sz by auto
  moreover have "unat (- (of_nat sz) :: addr) = 2 ^ 64 - sz"
    using unat_sub64 [of 0 "of_nat sz"] \<open>sz < 2 ^ 64\<close> sz by simp
  ultimately have sw: "byte_swap m a b sz = (\<lambda>x. if unat (x - a) < sz then m (b + (x - a))
      else if unat (x - b) < sz then m (a + (x - b)) else m x)"
    using qa by (intro byte_swap_eq) simp_all
  have at: "byte_swap m a b sz (base + of_nat p) =
      (if Suc j * sz \<le> p \<and> p < Suc j * sz + sz then m (base + of_nat (p - sz))
       else if j * sz \<le> p \<and> p < j * sz + sz then m (base + of_nat (p + sz))
       else m (base + of_nat p))" if "p < n * sz" for p
  proof -
    have p: "p < 2 ^ 64" using that fit by linarith
    have e1: "b + (base + of_nat p - a) = base + of_nat (p - sz)" if "Suc j * sz \<le> p"
      using that by (simp add: a_def b_def of_nat_diff)
    have e2: "a + (base + of_nat p - b) = base + of_nat (p + sz)"
      by (simp add: a_def b_def)
    have oa: "unat (base + of_nat p - a) < sz \<longleftrightarrow> Suc j * sz \<le> p \<and> p < Suc j * sz + sz"
      unfolding a_def by (rule offset_less [OF p qa])
    have ob: "unat (base + of_nat p - b) < sz \<longleftrightarrow> j * sz \<le> p \<and> p < j * sz + sz"
      unfolding b_def by (rule offset_less [OF p qb])
    show ?thesis unfolding sw oa ob e2 using e1 by presburger
  qed
  have row: "block (byte_swap m a b sz) base sz i =
      (if i = j then block m base sz (Suc j) else if i = Suc j then block m base sz j else block m base sz i)"
    if "i < n" for i
  proof (rule nth_equalityI)
    fix t assume "t < length (block (byte_swap m a b sz) base sz i)"
    then have t: "t < sz" by (simp add: block_def)
    have "i * sz + t < n * sz"
      using mult_le_mono1 [of "Suc i" n sz] that t by simp
    note here = at [OF this]
    have inj: "l * sz \<le> i * sz + t \<and> i * sz + t < l * sz + sz \<longleftrightarrow> i = l" for l
    proof
      assume l: "l * sz \<le> i * sz + t \<and> i * sz + t < l * sz + sz"
      then have "(i * sz + t) div sz = l" by (intro div_nat_eqI) (simp_all add: mult.commute)
      then show "i = l" using t by simp
    qed (use t in simp)
    have nth: "block m' base sz l ! t = m' (base + of_nat (l * sz + t))" for m' l
      using t by (simp add: block_def add.assoc)
    have "Suc j * sz + t - sz = j * sz + t" "j * sz + t + sz = Suc j * sz + t" by simp_all
    then show "block (byte_swap m a b sz) base sz i ! t = (if i = j then block m base sz (Suc j)
        else if i = Suc j then block m base sz j else block m base sz i) ! t"
      using here unfolding inj nth if_distrib [of "\<lambda>l. l ! t"] by (cases "i = j"; cases "i = Suc j") simp_all
  qed (simp add: block_def)
  show "elems (byte_swap m a b sz) base sz n =
      (elems m base sz n)[Suc j := block m base sz j, j := block m base sz (Suc j)]"
    by (rule nth_equalityI) (use j in \<open>auto simp: row nth_list_update\<close>)
  fix x assume x: "n * sz \<le> unat (x - base)"
  define p where "p = unat (x - base)"
  have xp: "x = base + of_nat p" and p: "p < 2 ^ 64"
    using unat_lt64 [of "x - base"] by (simp_all add: p_def)
  have "\<not> unat (base + of_nat p - a) < sz"
    unfolding a_def offset_less [OF p qa] using x le by (simp add: p_def)
  moreover have "\<not> unat (base + of_nat p - b) < sz"
    unfolding b_def offset_less [OF p qb] using x le by (simp add: p_def)
  ultimately show "byte_swap m a b sz x = m x" unfolding sw xp by simp
qed

subsection \<open>Insertion sort on lists\<close>

fun sift :: "('a \<Rightarrow> 'k::linorder) \<Rightarrow> 'a list \<Rightarrow> nat \<Rightarrow> 'a list" where
  "sift key xs 0 = xs"
| "sift key xs (Suc j) =
     (if key (xs ! Suc j) < key (xs ! j) then sift key (xs[Suc j := xs ! j, j := xs ! Suc j]) j else xs)"

lemma length_sift [simp]: "length (sift key xs j) = length xs"
  by (induction key xs j rule: sift.induct) auto

lemma mset_sift: "j < length xs \<Longrightarrow> mset (sift key xs j) = mset xs"
  by (induction key xs j rule: sift.induct) (auto simp: mset_swap)

text \<open>
  While element \<open>j\<close> sinks, the other elements up to \<open>i\<close> are in order and element \<open>j\<close> is not
  above any of those behind it.
\<close>

definition sift_inv :: "('a \<Rightarrow> 'k::linorder) \<Rightarrow> 'a list \<Rightarrow> nat \<Rightarrow> nat \<Rightarrow> bool" where
  "sift_inv key xs j i \<longleftrightarrow>
     (\<forall>b\<le>i. \<forall>a<b. a \<noteq> j \<longrightarrow> b \<noteq> j \<longrightarrow> key (xs ! a) \<le> key (xs ! b)) \<and>
     (\<forall>b\<le>i. j < b \<longrightarrow> key (xs ! j) \<le> key (xs ! b))"

lemma sift_ordered:
  "sift_inv key xs j i \<Longrightarrow> j \<le> i \<Longrightarrow> i < length xs \<Longrightarrow>
   \<forall>b\<le>i. \<forall>a<b. key (sift key xs j ! a) \<le> key (sift key xs j ! b)"
proof (induction key xs j rule: sift.induct)
  case (1 key xs)
  show ?case
  proof (intro allI impI)
    fix b a assume "b \<le> i" "a < b"
    then show "key (sift key xs 0 ! a) \<le> key (sift key xs 0 ! b)"
      using 1(1) unfolding sift_inv_def by (cases "a = 0") simp_all
  qed
next
  case (2 key xs j)
  note inv = "2.prems"(1) [unfolded sift_inv_def]
  show ?case
  proof (cases "key (xs ! Suc j) < key (xs ! j)")
    case True
    let ?ys = "xs[Suc j := xs ! j, j := xs ! Suc j]"
    have ys: "?ys ! k = (if k = j then xs ! Suc j else if k = Suc j then xs ! j else xs ! k)"
      if "k < length xs" for k using that by (simp add: nth_list_update)
    have "sift_inv key ?ys j i"
      unfolding sift_inv_def
    proof (intro conjI allI impI)
      fix b a assume ab: "b \<le> i" "a < b" "a \<noteq> j" "b \<noteq> j"
      then have l: "a < length xs" "b < length xs" using "2.prems"(3) by auto
      show "key (?ys ! a) \<le> key (?ys ! b)"
        unfolding ys [OF l(1)] ys [OF l(2)] using inv ab "2.prems"(2)
        by (cases "a = Suc j"; cases "b = Suc j") auto
    next
      fix b assume b: "b \<le> i" "j < b"
      then have l: "j < length xs" "b < length xs" using "2.prems"(3) by auto
      show "key (?ys ! j) \<le> key (?ys ! b)"
        unfolding ys [OF l(1)] ys [OF l(2)] using inv b True by (cases "b = Suc j") auto
    qed
    then show ?thesis using "2.IH" [OF True] "2.prems"(2,3) True by simp
  next
    case False
    have "key (xs ! a) \<le> key (xs ! b)" if ab: "b \<le> i" "a < b" for a b
    proof (cases "a = Suc j \<or> b = Suc j")
      case True
      have next_le: "key (xs ! j) \<le> key (xs ! Suc j)" using False by simp
      consider "a = Suc j" | "b = Suc j" "a = j" | "b = Suc j" "a < j"
        using True ab(2) by linarith
      then show ?thesis
      proof cases
        case 3
        then have "key (xs ! a) \<le> key (xs ! j)" using inv "2.prems"(2) by auto
        then show ?thesis using 3(1) next_le by simp
      qed (use next_le inv ab in auto)
    next
      case False
      then show ?thesis using inv ab by blast
    qed
    then show ?thesis using False by simp
  qed
qed

lemma sift_fold_sorted:
  "k \<le> length xs \<Longrightarrow>
   \<forall>b<k. \<forall>a<b. key (fold (\<lambda>i xs. sift key xs i) [1..<k] xs ! a) \<le> key (fold (\<lambda>i xs. sift key xs i) [1..<k] xs ! b)"
proof (induction k)
  case 0
  then show ?case by simp
next
  case (Suc k)
  let ?ys = "fold (\<lambda>i xs. sift key xs i) [1..<k] xs"
  show ?case
  proof (cases "k = 0")
    case False
    have len: "length (fold (\<lambda>i xs. sift key xs i) zs xs) = length xs" for zs
      by (induction zs arbitrary: xs) simp_all
    have "sift_inv key ?ys k k"
      using Suc unfolding sift_inv_def by (auto simp: le_less)
    then have "\<forall>b\<le>k. \<forall>a<b. key (sift key ?ys k ! a) \<le> key (sift key ?ys k ! b)"
      by (rule sift_ordered) (use Suc.prems in \<open>simp_all add: len\<close>)
    then show ?thesis using False by (simp add: less_Suc_eq_le)
  qed simp
qed

subsection \<open>The array is sorted\<close>

definition key_compar :: "(mem \<Rightarrow> addr \<Rightarrow> addr \<Rightarrow> int) \<Rightarrow> (u8 list \<Rightarrow> 'k::linorder) \<Rightarrow> nat \<Rightarrow> bool" where
  "key_compar compar key sz \<longleftrightarrow>
     (\<forall>m a b. compar m a b < 0 \<longleftrightarrow> key (load_bytes m a sz) < key (load_bytes m b sz))"

lemma sink_elems:
  assumes cmp: "key_compar compar key (unat sz)" and fit: "n * unat sz \<le> 2 ^ 64" and sz: "sz \<noteq> 0"
  shows "i < n \<Longrightarrow> elems (sink compar m base sz i) base (unat sz) n = sift key (elems m base (unat sz) n) i \<and>
    (\<forall>x. n * unat sz \<le> unat (x - base) \<longrightarrow> sink compar m base sz i x = m x)"
proof (induction i arbitrary: m)
  case 0
  then show ?case by simp
next
  case (Suc j)
  let ?s = "unat sz"
  have s: "0 < ?s" using sz by (simp add: unat_gt_0)
  have addr: "base + of_nat k * sz = base + of_nat (k * ?s)" for k by simp
  have test: "compar m (base + of_nat (Suc j) * sz) (base + of_nat j * sz) < 0 \<longleftrightarrow>
      key (elems m base ?s n ! Suc j) < key (elems m base ?s n ! j)"
    unfolding addr using cmp Suc.prems by (simp add: key_compar_def block_def)
  note sw = swap_elems [OF Suc.prems fit s, where m = m and base = base]
  let ?m = "byte_swap m (base + of_nat (Suc j * ?s)) (base + of_nat (j * ?s)) ?s"
  have IH: "elems (sink compar ?m base sz j) base ?s n = sift key (elems ?m base ?s n) j"
    "\<And>x. n * ?s \<le> unat (x - base) \<Longrightarrow> sink compar ?m base sz j x = ?m x"
    using Suc.IH [of ?m] Suc.prems by simp_all
  have nth: "block m base ?s j = elems m base ?s n ! j" "block m base ?s (Suc j) = elems m base ?s n ! Suc j"
    using Suc.prems by simp_all
  show ?case
  proof (cases "key (elems m base ?s n ! Suc j) < key (elems m base ?s n ! j)")
    case False
    then show ?thesis using test by simp
  next
    case True
    then have "sink compar m base sz (Suc j) = sink compar ?m base sz j"
      using test unfolding sink.simps addr by simp
    then show ?thesis using True IH sw unfolding nth by simp
  qed
qed

lemma qsort_elems:
  assumes cmp: "key_compar compar key (unat sz)" and fit: "unat nmemb * unat sz \<le> 2 ^ 64"
    and base: "base \<noteq> 0" and sz: "sz \<noteq> 0"
  defines "n \<equiv> unat nmemb"
  shows "elems (qsort (Some compar) m base nmemb sz) base (unat sz) n =
      fold (\<lambda>i xs. sift key xs i) [1..<n] (elems m base (unat sz) n)"
    and "n * unat sz \<le> unat (x - base) \<Longrightarrow> qsort (Some compar) m base nmemb sz x = m x"
proof -
  have fold: "elems (fold (\<lambda>i m. sink compar m base sz i) zs m) base (unat sz) n =
      fold (\<lambda>i xs. sift key xs i) zs (elems m base (unat sz) n) \<and>
      (n * unat sz \<le> unat (x - base) \<longrightarrow> fold (\<lambda>i m. sink compar m base sz i) zs m x = m x)"
    if "set zs \<subseteq> {..<n}" for zs m
    using that
  proof (induction zs arbitrary: m)
    case (Cons z zs)
    then show ?case
      using sink_elems [OF cmp fit sz, folded n_def, of z m base] by simp
  qed simp
  have up: "set [1..<n] \<subseteq> {..<n}" by auto
  have small: "n = 0 \<or> n = 1" if "nmemb < 2"
    using that by (auto simp: n_def word_less_nat_alt)
  show "elems (qsort (Some compar) m base nmemb sz) base (unat sz) n =
      fold (\<lambda>i xs. sift key xs i) [1..<n] (elems m base (unat sz) n)"
    using fold [OF up, of m] base sz small
    by (auto simp: qsort_def insertion_sort_def n_def [symmetric])
  show "n * unat sz \<le> unat (x - base) \<Longrightarrow> qsort (Some compar) m base nmemb sz x = m x"
    using fold [OF up, of m] base sz by (simp add: qsort_def insertion_sort_def n_def [symmetric])
qed

lemma mset_fold_sift:
  "set zs \<subseteq> {..<length xs} \<Longrightarrow> mset (fold (\<lambda>i xs. sift key xs i) zs xs) = mset xs"
  by (induction zs arbitrary: xs) (simp_all add: mset_sift)

section \<open>Properties\<close>

text \<open>
  C8: \<open>strtol\<close> on a C string (any base from 2 to 36 other than 16) returns the number that
  the optional sign and the longest run of digits denote, cut to the range of \<^verbatim>\<open>long\<close>,
  however many digits there are.
\<close>

theorem strtol_correct:
  assumes "str_at m nptr xs" and "2 \<le> base" and "base \<le> 36" and "base \<noteq> 16"
    and "number_of base xs = (neg, ds)"
  shows "\<exists>e. strtol m nptr base = Some
    (max (- (2 ^ 63)) (min (2 ^ 63 - 1) (if neg then - digits_val base 0 ds else digits_val base 0 ds)), e)"
  by (rule strtol_str_at [OF assms])

theorem strtol_correct_witness:
  "str_at (store_bytes (\<lambda>_. 0) 0x1000 [32, 45, 52, 50]) 0x1000 [32, 45, 52, 50] \<and>
   (\<exists>e. strtol (store_bytes (\<lambda>_. 0) 0x1000 [32, 45, 52, 50]) 0x1000 10 = Some (-42, e))"
proof -
  let ?m = "store_bytes (\<lambda>_. 0) 0x1000 [32, 45, 52, 50] :: mem"
  have str: "str_at ?m 0x1000 [32, 45, 52, 50]" by simp
  have num: "number_of 10 [32, 45, 52, 50] = (True, [52, 50])"
    by (simp add: number_of_def Let_def isspace_def isblank_def digit_ok_def digit_value_def)
  show ?thesis
    using strtol_correct [OF str _ _ _ num] str by (simp add: digit_value_def)
qed

text \<open>
  \<open>strtoul\<close> on a C string returns the number the digits denote when it fits 64 bits,
  negated modulo \<open>2\<^sup>6\<^sup>4\<close> after a minus sign; a number that does not fit is cut to
  \<^verbatim>\<open>ULONG_MAX\<close> first, so that a negative one comes out as 1.
\<close>

theorem strtoul_correct:
  assumes "str_at m nptr xs" and "2 \<le> base" and "base \<le> 36" and "base \<noteq> 16"
    and "number_of base xs = (neg, ds)"
  shows "\<exists>e r. strtoul m nptr base = Some (r, e) \<and>
    (digits_val base 0 ds < 2 ^ 64 \<longrightarrow>
       r = word_of_int (if neg then - digits_val base 0 ds else digits_val base 0 ds)) \<and>
    (2 ^ 64 \<le> digits_val base 0 ds \<longrightarrow> r = (if neg then 1 else ULONG_MAX))"
  using strtoul_str_at [OF assms] by (auto simp: Let_def)

theorem strtoul_correct_witness:
  "str_at (store_bytes (\<lambda>_. 0) 0x1000 [45, 52, 50]) 0x1000 [45, 52, 50] \<and>
   (\<exists>e. strtoul (store_bytes (\<lambda>_. 0) 0x1000 [45, 52, 50]) 0x1000 10 = Some (-42, e))"
proof -
  let ?m = "store_bytes (\<lambda>_. 0) 0x1000 [45, 52, 50] :: mem"
  have str: "str_at ?m 0x1000 [45, 52, 50]" by simp
  have num: "number_of 10 [45, 52, 50] = (True, [52, 50])"
    by (simp add: number_of_def Let_def isspace_def isblank_def digit_ok_def digit_value_def)
  show ?thesis
    using strtoul_correct [OF str _ _ _ num] str by (auto simp: digit_value_def)
qed

text \<open>
  C9: \<open>bsearch\<close> on a table sorted for the comparison returns an element that compares equal
  to the key whenever there is one, and null exactly when there is none.
\<close>

theorem bsearch_correct:
  assumes "cmp_sorted cmp base (unat nmemb) sz"
  shows "case bsearch cmp base nmemb sz of
      None \<Rightarrow> \<forall>i<unat nmemb. cmp (base + of_nat i * sz) \<noteq> 0
    | Some e \<Rightarrow> \<exists>i<unat nmemb. e = base + of_nat i * sz \<and> cmp e = 0"
  using bsearch_loop_sound [of cmp base "unat nmemb" sz] bsearch_loop_complete [OF assms]
  by (auto simp: bsearch_def split: option.split)

theorem bsearch_correct_witness:
  "cmp_sorted (\<lambda>e. sint (0x1008 - e)) 0x1000 3 8 \<and>
   (case bsearch (\<lambda>e. sint (0x1008 - e)) 0x1000 3 8 of
      None \<Rightarrow> \<forall>i<3. sint (0x1008 - (0x1000 + of_nat i * 8 :: addr)) \<noteq> 0
    | Some e \<Rightarrow> \<exists>i<3. e = 0x1000 + of_nat i * 8 \<and> sint (0x1008 - e) = 0)"
proof -
  have "cmp_sorted (\<lambda>e. sint (0x1008 - e)) 0x1000 (unat (3 :: size_t)) 8"
  proof -
    have three: "unat (3 :: size_t) = Suc (Suc (Suc 0))" by simp
    show ?thesis unfolding cmp_sorted_def three by (auto simp: less_Suc_eq)
  qed
  from bsearch_correct [OF this] this show ?thesis
    by (simp split: option.splits)
qed

text \<open>
  C10: \<open>qsort\<close> with a comparison that orders the elements by a key leaves the array sorted by
  that key, with the same elements in some order, and changes no byte outside the array.
\<close>

theorem qsort_correct:
  assumes "key_compar compar key (unat sz)" and "unat nmemb * unat sz \<le> 2 ^ 64"
    and "base \<noteq> 0" and "sz \<noteq> 0"
  shows "sorted (map key (elems (qsort (Some compar) m base nmemb sz) base (unat sz) (unat nmemb))) \<and>
    mset (elems (qsort (Some compar) m base nmemb sz) base (unat sz) (unat nmemb)) =
      mset (elems m base (unat sz) (unat nmemb)) \<and>
    (\<forall>x. unat nmemb * unat sz \<le> unat (x - base) \<longrightarrow> qsort (Some compar) m base nmemb sz x = m x)"
proof -
  let ?n = "unat nmemb" and ?xs = "elems m base (unat sz) (unat nmemb)"
  let ?ys = "fold (\<lambda>i xs. sift key xs i) [1..<?n] ?xs"
  have "length (fold (\<lambda>i xs. sift key xs i) zs xs) = length xs" for zs xs
    by (induction zs arbitrary: xs) simp_all
  then have len: "length ?ys = ?n" by simp
  have "sorted (map key ?ys)"
    unfolding sorted_iff_nth_mono_less using sift_fold_sorted [of ?n ?xs key] len by auto
  moreover have "mset ?ys = mset ?xs" by (rule mset_fold_sift) auto
  ultimately show ?thesis using qsort_elems [OF assms] by simp
qed

text \<open>A comparison of single bytes, for the concrete evaluation.\<close>

definition byte_compar :: "mem \<Rightarrow> addr \<Rightarrow> addr \<Rightarrow> int" where
  "byte_compar m a b = uint (m a) - uint (m b)"

theorem qsort_correct_witness:
  "key_compar byte_compar hd (unat (1 :: size_t)) \<and>
   sorted (map hd (elems (qsort (Some byte_compar) demo_mem 0x1000 4 1) 0x1000 1 4))"
proof -
  have k: "key_compar byte_compar hd (unat (1 :: size_t))"
    by (auto simp: key_compar_def byte_compar_def word_less_def)
  from qsort_correct [OF k, of 4 "0x1000" demo_mem] k show ?thesis by simp
qed

end
