(* ===== verification/Printf.thy ===== *)
theory Printf
  imports Libc_Stdlib
begin

text \<open>
  Formatted output: \<open>vsnprintf\<close> of the C library (\<^verbatim>\<open>src/src/libc/src/stdio.c\<close>) and of the
  kernel (\<^verbatim>\<open>src/src/impl/x86_64/string.cpp\<close>). Both write through a bounded character sink
  that counts every character but stores only those that fit; the locale \<open>bounded_sink\<close>
  states what such a sink promises and is interpreted by both. The format and the string
  arguments are \<^verbatim>\<open>restrict\<close>-qualified. String arguments and the library's format are given as
  the characters of a C string; the kernel's formatter can leave its format, so there the format
  is the memory from the format pointer on, with the terminator and what lies behind it. The
  variable arguments are a list of 64-bit slots and string pointers. A missing or ill-typed
  argument is undefined behaviour in C and the value \<open>None\<close> or \<open>Bad_arg\<close> here.
\<close>

section \<open>Digits\<close>

datatype va_arg = VWord u64 | VStr "u8 list option"

definition lower_digits :: "u8 list" where
  "lower_digits = [48, 49, 50, 51, 52, 53, 54, 55, 56, 57, 97, 98, 99, 100, 101, 102]"

definition upper_digits :: "u8 list" where
  "upper_digits = [48, 49, 50, 51, 52, 53, 54, 55, 56, 57, 65, 66, 67, 68, 69, 70]"

text \<open>
  The scratch buffer \<^verbatim>\<open>tmp\<close> in the order the loop
  \<^verbatim>\<open>do { tmp[n++] = digits[value % base]; value /= base; } while (value);\<close> fills it. The
  bases of the callers are 10 and 16; the guard \<open>1 < base\<close> only makes the recursion total.
\<close>

lemma div_shrinks: "(v :: u64) div b \<noteq> 0 \<Longrightarrow> 1 < b \<Longrightarrow> unat (v div b) < unat v"
proof -
  assume a: "v div b \<noteq> 0" and b: "1 < b"
  have "unat v div unat b < unat v"
  proof (rule div_less_dividend)
    show "1 < unat b" using b by (simp add: word_less_nat_alt)
    show "0 < unat v" using a by (metis div_0 gr_zeroI unat_eq_zero word_div_def unat_div_distrib)
  qed
  then show ?thesis by (simp add: unat_div_distrib)
qed

function tmp_digits :: "u8 list \<Rightarrow> u64 \<Rightarrow> u64 \<Rightarrow> u8 list" where
  "tmp_digits tbl value base =
     tbl ! unat (value mod base) #
     (if value div base \<noteq> 0 \<and> 1 < base then tmp_digits tbl (value div base) base else [])"
  by pat_completeness auto
termination
  by (relation "measure (\<lambda>(tbl, v, b). unat v)") (use div_shrinks in auto)

declare tmp_digits.simps [simp del]

lemma length_tmp_digits:
  "1 < unat base \<Longrightarrow> 0 < k \<Longrightarrow> unat v < unat base ^ k \<Longrightarrow> length (tmp_digits tbl v base) \<le> k"
proof (induction tbl v base arbitrary: k rule: tmp_digits.induct)
  case (1 tbl v base)
  show ?case
  proof (cases "v div base \<noteq> 0")
    case False
    then show ?thesis using "1.prems" by (subst tmp_digits.simps) simp
  next
    case True
    then obtain j where k: "k = Suc j" using "1.prems" by (cases k) auto
    have "unat (v div base) < unat base ^ j"
      using "1.prems"(1,3) k by (simp add: unat_div_distrib less_mult_imp_div_less mult.commute)
    moreover have "0 < j"
    proof (rule ccontr)
      assume "\<not> 0 < j"
      then have "unat (v div base) = 0" using calculation by simp
      then show False using True by (simp add: unat_eq_zero)
    qed
    ultimately have "length (tmp_digits tbl (v div base) base) \<le> j"
      using True "1.prems"(1) by (intro "1.IH") (simp_all add: word_less_nat_alt)
    then show ?thesis using k True by (subst tmp_digits.simps) simp
  qed
qed

text \<open>The digits, most significant first, denote the value.\<close>

definition digit_table :: "u8 list \<Rightarrow> int \<Rightarrow> bool" where
  "digit_table tbl base \<longleftrightarrow> (\<forall>i<nat base. digit_value (uint (tbl ! i)) = int i)"

lemma digits_val_append: "digits_val b a (xs @ ys) = digits_val b (digits_val b a xs) ys"
  by (simp add: digits_val_def)

lemma tmp_digits_val:
  "1 < base \<Longrightarrow> digit_table tbl (uint base) \<Longrightarrow>
   digits_val (uint base) 0 (rev (tmp_digits tbl v base)) = uint v"
proof (induction tbl v base rule: tmp_digits.induct)
  case (1 tbl v base)
  have pos: "0 < uint base" using "1.prems"(1) by (simp add: word_less_def)
  have "unat (v mod base) < nat (uint base)"
    using "1.prems"(1) by (simp add: unat_mod_distrib word_less_nat_alt)
  then have dig: "digit_value (uint (tbl ! unat (v mod base))) = uint v mod uint base"
    using "1.prems"(2) unfolding digit_table_def by (simp add: uint_mod_distrib)
  show ?case
  proof (cases "v div base \<noteq> 0")
    case True
    then have "digits_val (uint base) 0 (rev (tmp_digits tbl (v div base) base)) = uint v div uint base"
      using 1 by (simp add: uint_div_distrib)
    then show ?thesis
      using True "1.prems"(1) dig by (subst tmp_digits.simps) (simp add: digits_val_append)
  next
    case False
    then have "uint (v div base) = 0" by simp
    then have "uint v div uint base = 0" by (simp only: uint_div_distrib)
    then have "uint v mod uint base = uint v" using div_mult_mod_eq [of "uint v" "uint base"] by simp
    then show ?thesis using False dig by (subst tmp_digits.simps) simp
  qed
qed

lemma digit_tables:
  "digit_table lower_digits 10" "digit_table lower_digits 16" "digit_table upper_digits 16"
proof -
  have up: "i < n \<longleftrightarrow> i \<in> set [0..<n]" for i n :: nat by simp
  have ten: "nat 10 = 10" "nat 16 = 16" by simp_all
  show "digit_table lower_digits 10" "digit_table lower_digits 16" "digit_table upper_digits 16"
    unfolding digit_table_def lower_digits_def upper_digits_def ten up
    by (simp_all add: upt_rec digit_value_def del: set_upt)
qed

section \<open>Bounded character sinks\<close>

lemma store_bytes_append:
  "store_bytes m d (xs @ ys) = store_bytes (store_bytes m d xs) (d + of_nat (length xs)) ys"
  by (induction xs arbitrary: m d) (simp_all add: add.assoc)

text \<open>
  \<open>st m buf n cs\<close> is the state of a sink over \<open>n\<close> bytes at \<open>buf\<close> in memory \<open>m\<close> after the
  characters \<open>cs\<close>: all are counted, the first \<open>n - 1\<close> are stored.
\<close>

locale bounded_sink =
  fixes put :: "'s \<Rightarrow> u8 \<Rightarrow> 's" and st :: "mem \<Rightarrow> addr \<Rightarrow> nat \<Rightarrow> u8 list \<Rightarrow> 's"
  assumes put_st: "n < 2 ^ 64 \<Longrightarrow> length cs < 2 ^ 63 \<Longrightarrow> put (st m buf n cs) c = st m buf n (cs @ [c])"
begin

lemma fold_put:
  "n < 2 ^ 64 \<Longrightarrow> length cs + length ds \<le> 2 ^ 63 \<Longrightarrow>
   fold (\<lambda>c s. put s c) ds (st m buf n cs) = st m buf n (cs @ ds)"
  by (induction ds arbitrary: cs) (simp_all add: put_st)

end

section \<open>The C library's formatter\<close>

record outbuf =
  ob_mem :: mem
  ob_buf :: addr
  ob_size :: size_t
  ob_used :: size_t

definition out_ch :: "outbuf \<Rightarrow> u8 \<Rightarrow> outbuf" where
  "out_ch out c =
     (let out = (if ob_size out \<noteq> 0 \<and> ob_used out + 1 < ob_size out
                 then out\<lparr>ob_mem := (ob_mem out)(ob_buf out + ob_used out := c)\<rparr> else out)
      in out\<lparr>ob_used := ob_used out + 1\<rparr>)"

definition null_str :: "u8 list" where
  "null_str = [40, 110, 117, 108, 108, 41]"

definition out_str :: "outbuf \<Rightarrow> u8 list option \<Rightarrow> outbuf" where
  "out_str out s = fold (\<lambda>c b. out_ch b c) (case s of None \<Rightarrow> null_str | Some xs \<Rightarrow> xs) out"

definition out_uint :: "outbuf \<Rightarrow> u64 \<Rightarrow> u64 \<Rightarrow> bool \<Rightarrow> outbuf" where
  "out_uint out value base upper =
     fold (\<lambda>c b. out_ch b c)
       (rev (tmp_digits (if upper then upper_digits else lower_digits) value base)) out"

text \<open>The slots \<^verbatim>\<open>va_arg(ap, int)\<close> and \<^verbatim>\<open>va_arg(ap, unsigned int)\<close> read.\<close>

definition arg_int :: "bool \<Rightarrow> u64 \<Rightarrow> u64" where
  "arg_int long v = (if long then v else scast (ucast v :: u32))"

definition arg_uint :: "bool \<Rightarrow> u64 \<Rightarrow> u64" where
  "arg_uint long v = (if long then v else ucast (ucast v :: u32))"

text \<open>One case of the \<^verbatim>\<open>switch\<close>.\<close>

definition out_conv :: "outbuf \<Rightarrow> bool \<Rightarrow> u8 \<Rightarrow> va_arg list \<Rightarrow> (outbuf \<times> va_arg list) option" where
  "out_conv out long d ap =
     (if d = 37 then Some (out_ch out 37, ap)
      else if d = 99 then
        (case ap of VWord v # ap \<Rightarrow> Some (out_ch out (ucast v), ap) | _ \<Rightarrow> None)
      else if d = 115 then
        (case ap of VStr p # ap \<Rightarrow> Some (out_str out p, ap) | _ \<Rightarrow> None)
      else if d = 100 \<or> d = 105 then
        (case ap of
           VWord v # ap \<Rightarrow>
             let v = arg_int long v
             in Some (if sint v < 0 then out_uint (out_ch out 45) (0 - v) 10 False
                      else out_uint out v 10 False, ap)
         | _ \<Rightarrow> None)
      else if d = 117 then
        (case ap of VWord v # ap \<Rightarrow> Some (out_uint out (arg_uint long v) 10 False, ap) | _ \<Rightarrow> None)
      else if d = 120 then
        (case ap of VWord v # ap \<Rightarrow> Some (out_uint out (arg_uint long v) 16 False, ap) | _ \<Rightarrow> None)
      else if d = 88 then
        (case ap of VWord v # ap \<Rightarrow> Some (out_uint out (arg_uint long v) 16 True, ap) | _ \<Rightarrow> None)
      else if d = 112 then
        (case ap of
           VWord v # ap \<Rightarrow> Some (out_uint (out_str out (Some [48, 120])) v 16 False, ap)
         | _ \<Rightarrow> None)
      else Some (out_ch (out_ch out 37) d, ap))"

text \<open>The optional \<^verbatim>\<open>l\<close> or \<^verbatim>\<open>ll\<close> behind a percent sign.\<close>

fun long_flag :: "u8 list \<Rightarrow> bool \<times> u8 list" where
  "long_flag (c # fs) =
     (if c = 108 then (True, (case fs of e # gs \<Rightarrow> if e = 108 then gs else fs | [] \<Rightarrow> [])) else (False, c # fs))"
| "long_flag [] = (False, [])"

lemma long_flag_le: "long_flag fs = (l, gs) \<Longrightarrow> length gs \<le> length fs"
  by (cases fs) (auto split: if_splits list.splits)

function fmt_loop :: "outbuf \<Rightarrow> u8 list \<Rightarrow> va_arg list \<Rightarrow> outbuf option" where
  "fmt_loop out fmt ap =
     (case fmt of
        [] \<Rightarrow> Some out
      | c # fs \<Rightarrow>
          if c \<noteq> 37 then fmt_loop (out_ch out c) fs ap
          else
            (case long_flag fs of
               (long, []) \<Rightarrow> Some out
             | (long, d # gs) \<Rightarrow>
                 (case out_conv out long d ap of
                    None \<Rightarrow> None
                  | Some (out, ap) \<Rightarrow> fmt_loop out gs ap)))"
  by pat_completeness auto
termination
  by (relation "measure (\<lambda>(out, fmt, ap). length fmt)") (auto dest!: sym [THEN long_flag_le])

declare fmt_loop.simps [simp del]

definition vsnprintf :: "mem \<Rightarrow> addr \<Rightarrow> size_t \<Rightarrow> u8 list \<Rightarrow> va_arg list \<Rightarrow> (mem \<times> int) option" where
  "vsnprintf m buf sz fmt ap =
     (case fmt_loop \<lparr>ob_mem = m, ob_buf = buf, ob_size = sz, ob_used = 0\<rparr> fmt ap of
        None \<Rightarrow> None
      | Some out \<Rightarrow>
          Some (if sz \<noteq> 0 then (ob_mem out)(buf + (if ob_used out < sz then ob_used out else sz - 1) := 0)
                else ob_mem out,
                if ob_used out > 0x7fffffff then 0x7fffffff else uint (ob_used out)))"

subsection \<open>What is printed\<close>

definition conv_chars :: "bool \<Rightarrow> u8 \<Rightarrow> va_arg list \<Rightarrow> (u8 list \<times> va_arg list) option" where
  "conv_chars long d ap =
     (let dec = (\<lambda>v. rev (tmp_digits lower_digits v 10));
          hex = (\<lambda>t v. rev (tmp_digits t v 16))
      in if d = 37 then Some ([37], ap)
         else if d \<in> {99, 115, 100, 105, 117, 120, 88, 112} then
           (case ap of
              [] \<Rightarrow> None
            | VStr p # ap \<Rightarrow>
                if d = 115 then Some (case p of None \<Rightarrow> null_str | Some xs \<Rightarrow> xs, ap) else None
            | VWord v # ap \<Rightarrow>
                if d = 99 then Some ([ucast v], ap)
                else if d = 100 \<or> d = 105 then
                  Some (if sint (arg_int long v) < 0 then 45 # dec (- arg_int long v)
                        else dec (arg_int long v), ap)
                else if d = 117 then Some (dec (arg_uint long v), ap)
                else if d = 120 then Some (hex lower_digits (arg_uint long v), ap)
                else if d = 88 then Some (hex upper_digits (arg_uint long v), ap)
                else if d = 112 then Some ([48, 120] @ hex lower_digits v, ap)
                else None)
         else Some ([37, d], ap))"

function fmt_chars :: "u8 list \<Rightarrow> va_arg list \<Rightarrow> u8 list option" where
  "fmt_chars fmt ap =
     (case fmt of
        [] \<Rightarrow> Some []
      | c # fs \<Rightarrow>
          if c \<noteq> 37 then map_option ((#) c) (fmt_chars fs ap)
          else
            (case long_flag fs of
               (long, []) \<Rightarrow> Some []
             | (long, d # gs) \<Rightarrow>
                 (case conv_chars long d ap of
                    None \<Rightarrow> None
                  | Some (cs, ap) \<Rightarrow> map_option ((@) cs) (fmt_chars gs ap))))"
  by pat_completeness auto
termination
  by (relation "measure (\<lambda>(fmt, ap). length fmt)") (auto dest!: sym [THEN long_flag_le])

declare fmt_chars.simps [simp del]

lemma fmt_steps [loop_simps]:
  "fmt_loop out [] ap = Some out" "fmt_chars [] ap = Some []"
  "c \<noteq> 37 \<Longrightarrow> fmt_loop out (c # fs) ap = fmt_loop (out_ch out c) fs ap"
  "c \<noteq> 37 \<Longrightarrow> fmt_chars (c # fs) ap = map_option ((#) c) (fmt_chars fs ap)"
  "long_flag fs = (l, []) \<Longrightarrow> fmt_loop out (37 # fs) ap = Some out"
  "long_flag fs = (l, []) \<Longrightarrow> fmt_chars (37 # fs) ap = Some []"
  "long_flag fs = (l, d # gs) \<Longrightarrow> fmt_loop out (37 # fs) ap =
     (case out_conv out l d ap of None \<Rightarrow> None | Some (out, ap) \<Rightarrow> fmt_loop out gs ap)"
  "long_flag fs = (l, d # gs) \<Longrightarrow> fmt_chars (37 # fs) ap =
     (case conv_chars l d ap of
        None \<Rightarrow> None | Some (cs, ap) \<Rightarrow> map_option ((@) cs) (fmt_chars gs ap))"
  by (subst fmt_loop.simps fmt_chars.simps, simp)+

lemma out_conv_chars:
  "out_conv out long d ap =
     map_option (\<lambda>(cs, ap). (fold (\<lambda>c b. out_ch b c) cs out, ap)) (conv_chars long d ap)"
  by (auto simp: out_conv_def conv_chars_def out_uint_def out_str_def Let_def split: list.split va_arg.split)

lemma fmt_loop_chars:
  "fmt_loop out fmt ap = map_option (\<lambda>cs. fold (\<lambda>c b. out_ch b c) cs out) (fmt_chars fmt ap)"
proof (induction out fmt ap rule: fmt_loop.induct)
  case (1 out fmt ap)
  show ?case
  proof (cases fmt)
    case Nil
    then show ?thesis by (simp add: loop_simps)
  next
    case fmt: (Cons c fs)
    show ?thesis
    proof (cases "c = 37")
      case False
      then show ?thesis
        using fmt "1.IH"(1) [OF fmt False] by (simp add: loop_simps option.map_comp comp_def)
    next
      case True
      obtain long gs where f: "long_flag fs = (long, gs)" by (cases "long_flag fs")
      show ?thesis
      proof (cases gs)
        case Nil
        then show ?thesis using fmt True f by (simp add: loop_simps)
      next
        case gs: (Cons d hs)
        show ?thesis
        proof (cases "conv_chars long d ap")
          case None
          then show ?thesis using fmt True f gs by (simp add: loop_simps out_conv_chars)
        next
          case (Some r)
          obtain cs ap' where r: "r = (cs, ap')" by (cases r)
          have "out_conv out long d ap = Some (fold (\<lambda>c b. out_ch b c) cs out, ap')"
            using Some r by (simp add: out_conv_chars)
          then show ?thesis
            using fmt True f gs Some r
              "1.IH"(2) [of c fs long "d # hs" d hs "(fold (\<lambda>c b. out_ch b c) cs out, ap')"]
            by (simp add: loop_simps option.map_comp comp_def)
        qed
      qed
    qed
  qed
qed

text \<open>The state of the library's sink after \<open>cs\<close>.\<close>

definition out_st :: "mem \<Rightarrow> addr \<Rightarrow> nat \<Rightarrow> u8 list \<Rightarrow> outbuf" where
  "out_st m buf n cs =
     \<lparr>ob_mem = store_bytes m buf (take (n - 1) cs), ob_buf = buf, ob_size = of_nat n,
      ob_used = of_nat (length cs)\<rparr>"

lemma out_ch_st:
  assumes "n < 2 ^ 64" and "length cs < 2 ^ 63"
  shows "out_ch (out_st m buf n cs) c = out_st m buf n (cs @ [c])"
proof -
  have fits: "(of_nat (length cs) + 1 :: size_t) < of_nat n \<longleftrightarrow> length cs + 1 < n"
    using assms by (simp add: word_less_nat_alt unat_word_ariths)
  show ?thesis
  proof (cases "length cs + 1 < n")
    case True
    then have "take (n - 1) cs = cs" "take (n - 1) (cs @ [c]) = cs @ [c]" by simp_all
    then show ?thesis
      using True fits by (simp add: out_ch_def out_st_def store_bytes_append) auto
  next
    case False
    then have "take (n - 1) (cs @ [c]) = take (n - 1) cs" by simp
    then show ?thesis using False fits by (simp add: out_ch_def out_st_def)
  qed
qed

interpretation libc_out: bounded_sink out_ch out_st
  by unfold_locales (rule out_ch_st)

lemma vsnprintf_chars:
  assumes "fmt_chars fmt ap = Some cs" and "length cs < 2 ^ 63"
  shows "vsnprintf m buf sz fmt ap =
    Some (if sz = 0 then m else store_bytes m buf (take (unat sz - 1) cs @ [0]),
          int (min (length cs) 0x7fffffff))"
proof -
  let ?n = "unat sz"
  have init: "\<lparr>ob_mem = m, ob_buf = buf, ob_size = sz, ob_used = 0\<rparr> = out_st m buf ?n []"
    by (simp add: out_st_def)
  have "fold (\<lambda>c b. out_ch b c) cs (out_st m buf ?n []) = out_st m buf ?n ([] @ cs)"
    by (rule libc_out.fold_put) (use assms(2) unat_lt64 [of sz] in simp_all)
  then have loop: "fmt_loop (out_st m buf ?n []) fmt ap = Some (out_st m buf ?n cs)"
    using assms(1) by (simp add: fmt_loop_chars)
  have lt: "(of_nat (length cs) :: size_t) < sz \<longleftrightarrow> length cs < ?n"
    using assms(2) by (simp add: word_less_nat_alt)
  have big: "(of_nat (length cs) :: size_t) > 0x7fffffff \<longleftrightarrow> 0x7fffffff < length cs"
    using assms(2) by (simp add: word_less_nat_alt)
  have u: "uint (of_nat (length cs) :: size_t) = int (length cs)"
    using assms(2) by (simp add: unsigned_of_nat take_bit_nat_eq_self)
  have at: "buf + (if length cs < ?n then of_nat (length cs) else sz - 1) =
      buf + of_nat (length (take (?n - 1) cs))" if "sz \<noteq> 0"
  proof -
    have "0 < ?n" using that by (simp add: unat_gt_0)
    then have "(of_nat (?n - 1) :: size_t) = sz - 1" by (simp add: of_nat_diff)
    then show ?thesis by (auto simp: min_def)
  qed
  show ?thesis
    unfolding vsnprintf_def init loop
    using at lt big u by (auto simp: out_st_def store_bytes_append)
qed

section \<open>The kernel's formatter\<close>

text \<open>\<^verbatim>\<open>emit_char\<close> advances the output pointer and a remaining count instead.\<close>

record kout =
  ko_mem :: mem
  ko_buf :: addr
  ko_remaining :: size_t
  ko_produced :: size_t

definition emit_char :: "kout \<Rightarrow> u8 \<Rightarrow> kout" where
  "emit_char k c =
     (let k = (if ko_remaining k > 1
               then k\<lparr>ko_mem := (ko_mem k)(ko_buf k := c), ko_buf := ko_buf k + 1,
                      ko_remaining := ko_remaining k - 1\<rparr> else k)
      in k\<lparr>ko_produced := ko_produced k + 1\<rparr>)"

text \<open>
  The padding loop \<^verbatim>\<open>while (i < width) { emit pad; width--; }\<close> runs \<open>width - i\<close> times.
\<close>

definition emit_unsigned :: "kout \<Rightarrow> u64 \<Rightarrow> u64 \<Rightarrow> int \<Rightarrow> u8 \<Rightarrow> bool \<Rightarrow> kout" where
  "emit_unsigned k n base width pad upper =
     (let base = (if base < 2 \<or> base > 16 then 10 else base);
          tmp = tmp_digits (if upper then upper_digits else lower_digits) n base;
          k = fold (\<lambda>c k. emit_char k c) (replicate (nat (width - int (length tmp))) pad) k
      in fold (\<lambda>c k. emit_char k c) (rev tmp) k)"

definition emit_signed :: "kout \<Rightarrow> u64 \<Rightarrow> int \<Rightarrow> u8 \<Rightarrow> kout" where
  "emit_signed k n width pad =
     (if sint n < 0
      then emit_unsigned (emit_char k 45) (0 - n) 10 (if width > 0 then width - 1 else width) pad False
      else emit_unsigned k n 10 width pad False)"

fun width_digits :: "int \<Rightarrow> u8 list \<Rightarrow> int \<times> u8 list" where
  "width_digits w (c # fs) =
     (if c \<ge> 48 \<and> c \<le> 57
      then width_digits (if w < 1000000 then w * 10 + (uint c - 48) else w) fs
      else (w, c # fs))"
| "width_digits w [] = (w, [])"

text \<open>The length modifiers: the number of \<^verbatim>\<open>l\<close>s, whether there is a \<^verbatim>\<open>z\<close> or \<^verbatim>\<open>t\<close>.\<close>

fun length_flags :: "nat \<Rightarrow> bool \<Rightarrow> u8 list \<Rightarrow> nat \<times> bool \<times> u8 list" where
  "length_flags n z (c # fs) =
     (if c = 108 then length_flags (Suc n) z fs
      else if c = 122 \<or> c = 116 then length_flags n True fs
      else (n, z, c # fs))"
| "length_flags n z [] = (n, z, [])"

datatype fmt_error =
    Bad_arg \<comment> \<open>missing or ill-typed variable argument\<close>
  | Fmt_overrun \<comment> \<open>a read behind the bytes given for the format\<close>

definition emit_conv ::
  "kout \<Rightarrow> u8 \<Rightarrow> int \<Rightarrow> nat \<Rightarrow> bool \<Rightarrow> u8 \<Rightarrow> va_arg list \<Rightarrow> (kout \<times> va_arg list) option" where
  "emit_conv k pad width long_count size_arg d args =
     (let wide = (size_arg \<or> long_count \<ge> 2 \<or> long_count = 1)
      in if d = 115 then
           (case args of
              VStr p # args \<Rightarrow>
                Some (fold (\<lambda>c k. emit_char k c) (case p of None \<Rightarrow> null_str | Some xs \<Rightarrow> xs) k, args)
            | _ \<Rightarrow> None)
         else if d = 100 \<or> d = 105 then
           (case args of
              VWord v # args \<Rightarrow> Some (emit_signed k (arg_int wide v) width pad, args)
            | _ \<Rightarrow> None)
         else if d = 117 then
           (case args of
              VWord v # args \<Rightarrow> Some (emit_unsigned k (arg_uint wide v) 10 width pad False, args)
            | _ \<Rightarrow> None)
         else if d = 120 \<or> d = 88 then
           (case args of
              VWord v # args \<Rightarrow> Some (emit_unsigned k (arg_uint wide v) 16 width pad (d = 88), args)
            | _ \<Rightarrow> None)
         else if d = 112 then
           (case args of
              VWord v # args \<Rightarrow> Some (emit_unsigned k v 16 0 32 False, args)
            | _ \<Rightarrow> None)
         else if d = 99 then
           (case args of VWord v # args \<Rightarrow> Some (emit_char k (ucast v), args) | _ \<Rightarrow> None)
         else if d = 37 then Some (emit_char k 37, args)
         else Some (emit_char (emit_char k 37) d, args))"

lemma width_digits_le: "width_digits w fs = (w', gs) \<Longrightarrow> length gs \<le> length fs"
  by (induction w fs rule: width_digits.induct) (auto split: if_splits)

lemma length_flags_le: "length_flags n z fs = (n', z', gs) \<Longrightarrow> length gs \<le> length fs"
  by (induction n z fs rule: length_flags.induct) (auto split: if_splits)

text \<open>Everything between a percent sign and its conversion character.\<close>

definition conv_prefix :: "u8 list \<Rightarrow> u8 \<times> int \<times> nat \<times> bool \<times> u8 list" where
  "conv_prefix fs =
     (let (pad, fs) = (case fs of c # gs \<Rightarrow> if c = 48 then (48, gs) else (32, fs) | [] \<Rightarrow> (32, fs));
          (width, fs) = width_digits 0 fs;
          (long_count, size_arg, fs) = length_flags 0 False fs
      in (pad, width, long_count, size_arg, fs))"

lemma conv_prefix_le: "conv_prefix fs = (pad, width, n, z, gs) \<Longrightarrow> length gs \<le> length fs"
  by (auto simp: conv_prefix_def Let_def split: prod.splits list.splits if_splits
      dest!: width_digits_le length_flags_le)

function emit_loop :: "kout \<Rightarrow> u8 list \<Rightarrow> va_arg list \<Rightarrow> fmt_error + kout" where
  "emit_loop k fmt args =
     (case fmt of
        [] \<Rightarrow> Inl Fmt_overrun
      | c # fs \<Rightarrow>
          if c = 0 then Inr k
          else if c \<noteq> 37 then emit_loop (emit_char k c) fs args
          else if fs = [] then Inl Fmt_overrun
          else if hd fs = 0 then Inr k
          else
            (case conv_prefix fs of
               (pad, width, long_count, size_arg, []) \<Rightarrow> Inl Fmt_overrun
             | (pad, width, long_count, size_arg, d # gs) \<Rightarrow>
                 (case emit_conv k pad width long_count size_arg d args of
                    None \<Rightarrow> Inl Bad_arg
                  | Some (k, args) \<Rightarrow> emit_loop k gs args)))"
  by pat_completeness auto
termination
  by (relation "measure (\<lambda>(k, fmt, args). length fmt)") (auto dest!: sym [THEN conv_prefix_le])

declare emit_loop.simps [simp del]

definition vsnprintf_k ::
  "mem \<Rightarrow> addr option \<Rightarrow> size_t \<Rightarrow> u8 list option \<Rightarrow> va_arg list \<Rightarrow> fmt_error + (mem \<times> int)" where
  "vsnprintf_k m buf sz fmt args =
     (case fmt of
        None \<Rightarrow> Inr (m, -1)
      | Some fmt \<Rightarrow>
          if buf = None \<and> sz \<noteq> 0 then Inr (m, -1)
          else
            let buf = (case buf of None \<Rightarrow> 0 | Some b \<Rightarrow> b)
            in case emit_loop \<lparr>ko_mem = m, ko_buf = buf, ko_remaining = sz, ko_produced = 0\<rparr> fmt args of
                 Inl e \<Rightarrow> Inl e
               | Inr k \<Rightarrow>
                   Inr (if sz \<noteq> 0
                        then (if ko_remaining k = 0 then (ko_mem k)(buf + (sz - 1) := 0)
                              else (ko_mem k)(ko_buf k := 0))
                        else ko_mem k,
                        if ko_produced k > 0x7fffffff then -1 else uint (ko_produced k)))"

subsection \<open>What is printed\<close>

definition padded :: "int \<Rightarrow> u8 \<Rightarrow> u8 list \<Rightarrow> u8 list" where
  "padded width pad cs = replicate (nat (width - int (length cs))) pad @ cs"

definition kconv_chars ::
  "u8 \<Rightarrow> int \<Rightarrow> nat \<Rightarrow> bool \<Rightarrow> u8 \<Rightarrow> va_arg list \<Rightarrow> (u8 list \<times> va_arg list) option" where
  "kconv_chars pad width n z d args =
     (let wide = (z \<or> n \<ge> 2 \<or> n = 1);
          num = (\<lambda>t b v. rev (tmp_digits t v b))
      in if d \<in> {115, 100, 105, 117, 120, 88, 112, 99} then
           (case args of
              [] \<Rightarrow> None
            | VStr p # args \<Rightarrow>
                if d = 115 then Some (case p of None \<Rightarrow> null_str | Some xs \<Rightarrow> xs, args) else None
            | VWord v # args \<Rightarrow>
                if d = 100 \<or> d = 105 then
                  Some (if sint (arg_int wide v) < 0
                        then 45 # padded (if width > 0 then width - 1 else width) pad
                               (num lower_digits 10 (- arg_int wide v))
                        else padded width pad (num lower_digits 10 (arg_int wide v)), args)
                else if d = 117 then Some (padded width pad (num lower_digits 10 (arg_uint wide v)), args)
                else if d = 120 then Some (padded width pad (num lower_digits 16 (arg_uint wide v)), args)
                else if d = 88 then Some (padded width pad (num upper_digits 16 (arg_uint wide v)), args)
                else if d = 112 then Some (padded 0 32 (num lower_digits 16 v), args)
                else if d = 99 then Some ([ucast v], args)
                else None)
         else if d = 37 then Some ([37], args)
         else Some ([37, d], args))"

function kfmt_chars :: "u8 list \<Rightarrow> va_arg list \<Rightarrow> fmt_error + u8 list" where
  "kfmt_chars fmt args =
     (case fmt of
        [] \<Rightarrow> Inl Fmt_overrun
      | c # fs \<Rightarrow>
          if c = 0 then Inr []
          else if c \<noteq> 37 then map_sum id ((#) c) (kfmt_chars fs args)
          else if fs = [] then Inl Fmt_overrun
          else if hd fs = 0 then Inr []
          else
            (case conv_prefix fs of
               (pad, width, n, z, []) \<Rightarrow> Inl Fmt_overrun
             | (pad, width, n, z, d # gs) \<Rightarrow>
                 (case kconv_chars pad width n z d args of
                    None \<Rightarrow> Inl Bad_arg
                  | Some (cs, args) \<Rightarrow> map_sum id ((@) cs) (kfmt_chars gs args))))"
  by pat_completeness auto
termination
  by (relation "measure (\<lambda>(fmt, args). length fmt)") (auto dest!: sym [THEN conv_prefix_le])

declare kfmt_chars.simps [simp del]

lemma kfmt_steps [loop_simps]:
  "emit_loop k [] args = Inl Fmt_overrun" "kfmt_chars [] args = Inl Fmt_overrun"
  "emit_loop k (0 # fs) args = Inr k" "kfmt_chars (0 # fs) args = Inr []"
  "emit_loop k [37] args = Inl Fmt_overrun" "kfmt_chars [37] args = Inl Fmt_overrun"
  "emit_loop k (37 # 0 # fs) args = Inr k" "kfmt_chars (37 # 0 # fs) args = Inr []"
  "c \<noteq> 0 \<Longrightarrow> c \<noteq> 37 \<Longrightarrow> emit_loop k (c # fs) args = emit_loop (emit_char k c) fs args"
  "c \<noteq> 0 \<Longrightarrow> c \<noteq> 37 \<Longrightarrow> kfmt_chars (c # fs) args = map_sum id ((#) c) (kfmt_chars fs args)"
  "fs \<noteq> [] \<Longrightarrow> hd fs \<noteq> 0 \<Longrightarrow> conv_prefix fs = (pad, w, n, z, []) \<Longrightarrow> emit_loop k (37 # fs) args = Inl Fmt_overrun"
  "fs \<noteq> [] \<Longrightarrow> hd fs \<noteq> 0 \<Longrightarrow> conv_prefix fs = (pad, w, n, z, []) \<Longrightarrow> kfmt_chars (37 # fs) args = Inl Fmt_overrun"
  "fs \<noteq> [] \<Longrightarrow> hd fs \<noteq> 0 \<Longrightarrow> conv_prefix fs = (pad, w, n, z, d # gs) \<Longrightarrow> emit_loop k (37 # fs) args =
     (case emit_conv k pad w n z d args of None \<Rightarrow> Inl Bad_arg | Some (k, args) \<Rightarrow> emit_loop k gs args)"
  "fs \<noteq> [] \<Longrightarrow> hd fs \<noteq> 0 \<Longrightarrow> conv_prefix fs = (pad, w, n, z, d # gs) \<Longrightarrow> kfmt_chars (37 # fs) args =
     (case kconv_chars pad w n z d args of
        None \<Rightarrow> Inl Bad_arg | Some (cs, args) \<Rightarrow> map_sum id ((@) cs) (kfmt_chars gs args))"
  by (subst emit_loop.simps kfmt_chars.simps, simp)+

lemma emit_unsigned_padded:
  "base \<in> {10, 16} \<Longrightarrow> emit_unsigned k n base width pad upper =
     fold (\<lambda>c k. emit_char k c)
       (padded width pad (rev (tmp_digits (if upper then upper_digits else lower_digits) n base))) k"
  by (auto simp: emit_unsigned_def padded_def Let_def)

lemma emit_conv_chars:
  "emit_conv k pad w n z d args =
     map_option (\<lambda>(cs, args). (fold (\<lambda>c k. emit_char k c) cs k, args)) (kconv_chars pad w n z d args)"
  by (auto simp: emit_conv_def kconv_chars_def emit_signed_def emit_unsigned_padded Let_def
      split: list.split va_arg.split)

lemma map_sum_Inl_iff: "map_sum id f x = Inl e \<longleftrightarrow> x = Inl e"
  by (cases x) auto

lemma emit_loop_chars:
  "emit_loop k fmt args = map_sum id (\<lambda>cs. fold (\<lambda>c k. emit_char k c) cs k) (kfmt_chars fmt args)"
proof (induction k fmt args rule: emit_loop.induct)
  case (1 k fmt args)
  show ?case
  proof (cases fmt)
    case Nil
    then show ?thesis by (simp add: loop_simps)
  next
    case fmt: (Cons c fs)
    consider (stop) "c = 0" | (plain) "c \<noteq> 0" "c \<noteq> 37" | (percent) "c = 37" by blast
    then show ?thesis
    proof cases
      case stop
      then show ?thesis using fmt by (simp add: loop_simps)
    next
      case plain
      then show ?thesis
        using fmt "1.IH"(1) [OF fmt plain] by (simp add: loop_simps sum.map_comp comp_def)
    next
      case True: percent
      show ?thesis
      proof (cases "fs = [] \<or> hd fs = 0")
        case True
        then show ?thesis using fmt \<open>c = 37\<close> by (cases fs) (auto simp: loop_simps)
      next
        case False
        then have fs: "fs \<noteq> []" "hd fs \<noteq> 0" by simp_all
        obtain pad w n z gs where f: "conv_prefix fs = (pad, w, n, z, gs)" by (cases "conv_prefix fs")
        show ?thesis
        proof (cases gs)
          case Nil
          then show ?thesis using fmt True fs f by (simp add: loop_simps)
        next
          case gs: (Cons d hs)
          show ?thesis
          proof (cases "kconv_chars pad w n z d args")
            case None
            then show ?thesis using fmt True fs f gs by (simp add: loop_simps emit_conv_chars)
          next
            case (Some r)
            obtain cs ap where r: "r = (cs, ap)" by (cases r)
            have "emit_conv k pad w n z d args = Some (fold (\<lambda>c k. emit_char k c) cs k, ap)"
              using Some r by (simp add: emit_conv_chars)
            then show ?thesis
              using fmt True fs f gs Some r
                "1.IH"(2) [of c fs pad "(w, n, z, d # hs)" w "(n, z, d # hs)" n "(z, d # hs)" z "d # hs" d hs
                  "(fold (\<lambda>c k. emit_char k c) cs k, ap)"]
              by (simp add: loop_simps sum.map_comp comp_def)
          qed
        qed
      qed
    qed
  qed
qed

definition kout_st :: "mem \<Rightarrow> addr \<Rightarrow> nat \<Rightarrow> u8 list \<Rightarrow> kout" where
  "kout_st m buf n cs =
     (let k = length (take (n - 1) cs)
      in \<lparr>ko_mem = store_bytes m buf (take (n - 1) cs), ko_buf = buf + of_nat k,
          ko_remaining = of_nat (n - k), ko_produced = of_nat (length cs)\<rparr>)"

lemma emit_char_st:
  assumes "n < 2 ^ 64" and "length cs < 2 ^ 63"
  shows "emit_char (kout_st m buf n cs) c = kout_st m buf n (cs @ [c])"
proof (cases "length cs + 1 < n")
  case True
  then have t: "take (n - 1) cs = cs" "take (n - 1) (cs @ [c]) = cs @ [c]" by simp_all
  have "(1 :: size_t) < of_nat (n - length cs)"
    using True assms(1) by (simp add: word_less_nat_alt del: of_nat_diff)
  moreover have "(of_nat (n - length cs) - 1 :: size_t) = of_nat (n - Suc (length cs))"
    using True by (simp add: of_nat_diff)
  ultimately show ?thesis
    using t by (simp add: emit_char_def kout_st_def store_bytes_append Let_def add.assoc)
next
  case False
  then have t: "take (n - 1) (cs @ [c]) = take (n - 1) cs" by simp
  have "n - length (take (n - 1) cs) \<le> 1" using False by auto
  moreover have "unat (of_nat (n - length (take (n - 1) cs)) :: size_t) = n - length (take (n - 1) cs)"
    using assms(1) by (intro unat_of_nat64) simp
  ultimately have "\<not> (1 :: size_t) < of_nat (n - length (take (n - 1) cs))"
    by (simp only: word_less_nat_alt) simp
  then show ?thesis unfolding kout_st_def t by (simp add: emit_char_def Let_def)
qed

interpretation kernel_out: bounded_sink emit_char kout_st
  by unfold_locales (rule emit_char_st)

lemma vsnprintf_k_chars:
  assumes "kfmt_chars fmt args = Inr cs" and "length cs < 2 ^ 63"
  shows "vsnprintf_k m (Some buf) sz (Some fmt) args =
    Inr (if sz = 0 then m else store_bytes m buf (take (unat sz - 1) cs @ [0]),
         if length cs > 0x7fffffff then -1 else int (length cs))"
proof -
  let ?n = "unat sz"
  have init: "\<lparr>ko_mem = m, ko_buf = buf, ko_remaining = sz, ko_produced = 0\<rparr> = kout_st m buf ?n []"
    by (simp add: kout_st_def)
  have "fold (\<lambda>c k. emit_char k c) cs (kout_st m buf ?n []) = kout_st m buf ?n ([] @ cs)"
    by (rule kernel_out.fold_put) (use assms(2) unat_lt64 [of sz] in simp_all)
  then have loop: "emit_loop (kout_st m buf ?n []) fmt args = Inr (kout_st m buf ?n cs)"
    using assms(1) by (simp add: emit_loop_chars)
  have big: "(of_nat (length cs) :: size_t) > 0x7fffffff \<longleftrightarrow> 0x7fffffff < length cs"
    using assms(2) by (simp add: word_less_nat_alt)
  have u: "uint (of_nat (length cs) :: size_t) = int (length cs)"
    using assms(2) by (simp add: unsigned_of_nat take_bit_nat_eq_self)
  define j where "j = ?n - length (take (?n - 1) cs)"
  have rem: "(of_nat j :: size_t) \<noteq> 0" if "sz \<noteq> 0"
  proof -
    have "0 < ?n" using that by (simp add: unat_gt_0)
    then have "0 < j" unfolding j_def by auto
    moreover have "unat (of_nat j :: size_t) = j"
      by (rule unat_of_nat64) (use unat_lt64 [of sz] in \<open>simp add: j_def\<close>)
    ultimately show ?thesis by (metis less_irrefl unat_0)
  qed
  have st: "kout_st m buf ?n cs = \<lparr>ko_mem = store_bytes m buf (take (?n - 1) cs),
      ko_buf = buf + of_nat (length (take (?n - 1) cs)), ko_remaining = of_nat j,
      ko_produced = of_nat (length cs)\<rparr>"
    by (simp add: kout_st_def j_def Let_def)
  show ?thesis
    unfolding vsnprintf_k_def option.case Let_def init loop sum.case st
    using rem big u by (auto simp: store_bytes_append)
qed

lemma load_store_bytes: "length bs \<le> 2 ^ 64 \<Longrightarrow> load_bytes (store_bytes m d bs) d (length bs) = bs"
  by (rule nth_equalityI) (simp_all add: store_bytes_eq)

text \<open>The truncated text and its terminator fit the buffer.\<close>

lemma truncated_text:
  fixes sz :: size_t
  assumes "sz \<noteq> 0"
  shows "load_bytes (store_bytes m buf (take (unat sz - 1) cs @ [0])) buf (Suc (min (length cs) (unat sz - 1))) =
      take (unat sz - 1) cs @ [0]"
    and "unat sz \<le> unat (a - buf) \<Longrightarrow> store_bytes m buf (take (unat sz - 1) cs @ [0]) a = m a"
proof -
  let ?bs = "take (unat sz - 1) cs @ [0]"
  have "0 < unat sz" using assms by (simp add: unat_gt_0)
  then have sz: "length ?bs \<le> unat sz" by auto
  then have bs: "length ?bs \<le> 2 ^ 64" using unat_lt64 [of sz] by simp
  have len: "length ?bs = Suc (min (length cs) (unat sz - 1))" by simp
  from load_store_bytes [OF bs] show "load_bytes (store_bytes m buf ?bs) buf (Suc (min (length cs) (unat sz - 1))) = ?bs"
    by (simp only: len)
  show "unat sz \<le> unat (a - buf) \<Longrightarrow> store_bytes m buf ?bs a = m a"
    unfolding store_bytes_eq [OF bs] using sz by simp
qed

section \<open>Properties\<close>

text \<open>
  C11: the C library's \<open>vsnprintf\<close> never writes outside the \<open>size\<close> bytes at \<open>buf\<close>; with
  \<open>size > 0\<close> it leaves there the formatted text cut to \<open>size - 1\<close> characters and a
  terminator, and it returns the length of the whole text (at most \<^verbatim>\<open>INT32_MAX\<close>).
\<close>

theorem vsnprintf_bounded:
  assumes "fmt_chars fmt ap = Some cs" and "length cs < 2 ^ 63"
  shows "\<exists>m'. vsnprintf m buf sz fmt ap = Some (m', int (min (length cs) 0x7fffffff)) \<and>
    (\<forall>a. unat sz \<le> unat (a - buf) \<longrightarrow> m' a = m a) \<and>
    (sz \<noteq> 0 \<longrightarrow> load_bytes m' buf (Suc (min (length cs) (unat sz - 1))) = take (unat sz - 1) cs @ [0])"
  using vsnprintf_chars [OF assms, of m buf sz] truncated_text [where sz = sz and m = m and buf = buf and cs = cs] by (cases "sz = 0") auto

theorem vsnprintf_bounded_witness:
  "fmt_chars [120, 61, 37, 100] [VWord 42] = Some [120, 61, 52, 50] \<and>
   (\<exists>m'. vsnprintf (\<lambda>_. 1) 0x1000 3 [120, 61, 37, 100] [VWord 42] = Some (m', 4) \<and>
      m' 0x1000 = 120 \<and> m' 0x1001 = 61 \<and> m' 0x1002 = 0)"
proof -
  have f: "fmt_chars [120, 61, 37, 100] [VWord 42] = Some [120, 61, 52, 50]"
    by (simp add: fmt_steps(4) fmt_steps(8) [where l = False and d = 100 and gs = "[]"] fmt_steps(2)
        conv_chars_def Let_def arg_int_def tmp_digits.simps lower_digits_def)
  show ?thesis
    using vsnprintf_bounded [OF f, of "\<lambda>_. 1" "0x1000" 3] f by auto
qed

text \<open>
  C12: the kernel's \<open>vsnprintf\<close> keeps the same bounds: whatever it formats, it writes only
  the \<open>size\<close> bytes of the buffer, terminates the text it leaves there, and returns the length
  of the whole text, or -1 when that exceeds \<^verbatim>\<open>INT_MAX\<close>.
\<close>

theorem vsnprintf_k_bounded:
  assumes "kfmt_chars fmt args = Inr cs" and "length cs < 2 ^ 63"
  shows "\<exists>m'. vsnprintf_k m (Some buf) sz (Some fmt) args =
      Inr (m', if length cs > 0x7fffffff then -1 else int (length cs)) \<and>
    (\<forall>a. unat sz \<le> unat (a - buf) \<longrightarrow> m' a = m a) \<and>
    (sz \<noteq> 0 \<longrightarrow> load_bytes m' buf (Suc (min (length cs) (unat sz - 1))) = take (unat sz - 1) cs @ [0])"
  using vsnprintf_k_chars [OF assms, of m buf sz] truncated_text [where sz = sz and m = m and buf = buf and cs = cs] by (cases "sz = 0") auto

theorem vsnprintf_k_bounded_witness:
  "kfmt_chars [37, 48, 52, 100, 0] [VWord 42] = Inr [48, 48, 52, 50] \<and>
   (\<exists>m'. vsnprintf_k (\<lambda>_. 1) (Some 0x1000) 8 (Some [37, 48, 52, 100, 0]) [VWord 42] = Inr (m', 4))"
proof -
  have p: "conv_prefix [48, 52, 100, 0] = (48, 4, 0, False, [100, 0])"
    by (simp add: conv_prefix_def Let_def)
  have f: "kfmt_chars [37, 48, 52, 100, 0] [VWord 42] = Inr [48, 48, 52, 50]"
  proof -
    have "tmp_digits lower_digits 42 10 = [50, 52]"
      by (simp add: tmp_digits.simps lower_digits_def)
    moreover have "padded 4 48 [52, 50] = [48, 48, 52, 50]"
      by (simp add: padded_def numeral_2_eq_2)
    ultimately have "kconv_chars 48 4 0 False 100 [VWord 42] = Some ([48, 48, 52, 50], [])"
      by (simp add: kconv_chars_def Let_def arg_int_def)
    then show ?thesis using kfmt_steps(14) [OF _ _ p] by (simp add: kfmt_steps(4))
  qed
  show ?thesis
    using vsnprintf_k_bounded [OF f, of "\<lambda>_. 1" "0x1000" 8] f by auto
qed

text \<open>
  The scratch buffers of the number printers are large enough for every 64-bit value:
  at most 20 digits in base 10 and 16 in base 16, of the 32 (C library) and 64 (kernel) bytes.
\<close>

theorem digits_fit:
  "length (tmp_digits tbl v 10) \<le> 20 \<and> length (tmp_digits tbl v 16) \<le> 16"
  using unat_lt64 [of v] length_tmp_digits [of 10 20 v tbl] length_tmp_digits [of 16 16 v tbl] by simp

text \<open>The decimal digits of a number, stored as a string, are read back as the number.\<close>

lemma decimal_digit: "d \<in> set (tmp_digits lower_digits w 10) \<Longrightarrow> \<exists>i<10. d = lower_digits ! i"
proof (induction lower_digits w "10 :: u64" rule: tmp_digits.induct)
  case (1 w)
  have "unat (w mod 10) < 10" by (simp add: unat_mod_distrib)
  then show ?case
    using 1 by (subst (asm) (2) tmp_digits.simps) (auto split: if_splits)
qed

lemma decimal_read_back:
  assumes "str_at m s (rev (tmp_digits lower_digits v 10))"
  shows "\<exists>e. strtoul m s 10 = Some (v, e)"
proof -
  let ?ds = "rev (tmp_digits lower_digits v 10)"
  have ok: "digit_ok 10 d \<and> \<not> isspace (uint d) \<and> d \<noteq> 43 \<and> d \<noteq> 45" if d: "d \<in> set ?ds" for d
  proof -
    obtain i where i: "i < 10" "d = lower_digits ! i" using decimal_digit [of d v] d by auto
    have "digit_value (uint d) = int i" using digit_tables(1) i unfolding digit_table_def by simp
    then have "0 \<le> digit_value (uint d)" "digit_value (uint d) < 10" using i(1) by simp_all
    moreover have "\<not> isspace (uint d)" "d \<noteq> 43" "d \<noteq> 45"
      using calculation(1) by (auto simp: isspace_def isblank_def digit_value_def split: if_splits)
    ultimately show ?thesis by (simp add: digit_ok_def)
  qed
  have "?ds \<noteq> []" by (subst tmp_digits.simps) simp
  then obtain x xs where x: "?ds = x # xs" by (cases ?ds) auto
  have "number_of 10 ?ds = (False, ?ds)"
    using ok x unfolding number_of_def Let_def by (auto simp: takeWhile_eq_all_conv)
  from strtoul_str_at [OF assms _ _ _ this] obtain e where
    "strtoul m s 10 = Some (word_of_int (min (digits_val 10 0 ?ds) (2 ^ 64 - 1)), e)"
    by (auto simp: Let_def)
  moreover have "digits_val 10 0 ?ds = uint v"
    using tmp_digits_val [of 10 lower_digits v] digit_tables(1) by simp
  moreover have "min (uint v) (2 ^ 64 - 1) = uint v" using uint_bounded [of v] by simp
  ultimately show ?thesis by simp
qed

lemma str_at_store_bytes:
  assumes "0 \<notin> set cs" and "length cs < 2 ^ 64"
  shows "str_at (store_bytes m d (cs @ [0])) d cs"
proof -
  have len: "length (cs @ [0]) \<le> 2 ^ 64" using assms(2) by simp
  have at: "store_bytes m d (cs @ [0]) (d + of_nat i) = (cs @ [0]) ! i" if "i \<le> length cs" for i
    unfolding store_bytes_eq [OF len] using that assms(2) by simp
  have "cstr (store_bytes m d (cs @ [0])) d (length cs)"
    unfolding cstr_def
  proof (intro conjI allI impI)
    show "store_bytes m d (cs @ [0]) (d + of_nat (length cs)) = 0" using at [of "length cs"] by simp
    fix i assume "i < length cs"
    then have "store_bytes m d (cs @ [0]) (d + of_nat i) = cs ! i" "cs ! i \<in> set cs"
      using at [of i] by (simp_all add: nth_append)
    then show "store_bytes m d (cs @ [0]) (d + of_nat i) \<noteq> 0" using assms(1) by metis
  qed
  moreover have "load_bytes (store_bytes m d (cs @ [0])) d (length cs) = cs"
    by (rule nth_equalityI) (use at in \<open>simp_all add: nth_append\<close>)
  ultimately show ?thesis by (simp add: str_at_iff)
qed

text \<open>
  C13: printing and parsing are inverse: whatever unsigned 64-bit value the C library's
  \<open>vsnprintf\<close> prints with the format \<^verbatim>\<open>%lu\<close> into a buffer of more than 20 bytes, \<open>strtoul\<close> reads
  back from that buffer as the same value.
\<close>

theorem print_parse_roundtrip:
  assumes "20 < unat sz"
  shows "\<exists>m' n e. vsnprintf m buf sz [37, 108, 117] [VWord v] = Some (m', n) \<and> strtoul m' buf 10 = Some (v, e)"
proof -
  let ?ds = "rev (tmp_digits lower_digits v 10)"
  have cs: "fmt_chars [37, 108, 117] [VWord v] = Some ?ds"
    by (simp add: loop_simps conv_chars_def arg_uint_def Let_def)
  have len: "length ?ds \<le> 20" using length_tmp_digits [of 10 20 v lower_digits] unat_lt64 [of v] by simp
  have "take (unat sz - 1) ?ds = ?ds" "sz \<noteq> 0" using len assms by auto
  then have r: "vsnprintf m buf sz [37, 108, 117] [VWord v] =
      Some (store_bytes m buf (?ds @ [0]), int (min (length ?ds) 0x7fffffff))"
    using vsnprintf_chars [OF cs, of m buf sz] len by simp
  have "0 \<notin> set ?ds"
  proof
    assume "0 \<in> set ?ds"
    then obtain i where "i < 10" "lower_digits ! i = 0" using decimal_digit [of 0 v] by auto
    then have "digit_value 0 = int i" using digit_tables(1) unfolding digit_table_def by (metis nat_numeral unsigned_0)
    then show False by (simp add: digit_value_def)
  qed
  then have "str_at (store_bytes m buf (?ds @ [0])) buf ?ds" by (rule str_at_store_bytes) (use len in simp)
  then show ?thesis using r decimal_read_back by blast
qed

theorem print_parse_roundtrip_witness:
  "\<exists>m' n e. vsnprintf (\<lambda>_. 7) 0x1000 32 [37, 108, 117] [VWord 18446744073709551615] = Some (m', n) \<and>
     strtoul m' 0x1000 10 = Some (18446744073709551615, e)"
  by (rule print_parse_roundtrip) simp





end
