(* ===== verification/Kernel_String.thy ===== *)
theory Kernel_String
  imports Libc_Strings
begin

text \<open>
  The kernel's own memory and string routines (\<^verbatim>\<open>src/src/impl/x86_64/string.cpp\<close>). They
  use the x86 string instructions, modelled with the direction flag clear (every use is
  preceded by \<^verbatim>\<open>cld\<close>): \<open>rep_movs\<close>, \<open>rep_stos\<close>, \<open>repe_cmpsb\<close> and \<open>repne_scasb\<close>. The suffix
  \<^verbatim>\<open>_k\<close> tells the kernel's routines from the C library's; both are instances of the same
  contract \<open>mem_ops\<close>.
\<close>

section \<open>String instructions\<close>

fun rep_movs :: "nat \<Rightarrow> nat \<Rightarrow> mem \<times> addr \<times> addr \<Rightarrow> mem \<times> addr \<times> addr" where
  "rep_movs w 0 st = st"
| "rep_movs w (Suc q) (m, d, s) = rep_movs w q (copy_lane w m d s, d + of_nat w, s + of_nat w)"

fun rep_stos :: "u8 list \<Rightarrow> nat \<Rightarrow> mem \<times> addr \<Rightarrow> mem \<times> addr" where
  "rep_stos bs 0 st = st"
| "rep_stos bs (Suc q) (m, d) = rep_stos bs q (store_bytes m d bs, d + of_nat (length bs))"

text \<open>\<^verbatim>\<open>repe cmpsb; setnz\<close>: the final pointers and whether the last pair compared differed.\<close>

fun repe_cmpsb :: "mem \<Rightarrow> addr \<Rightarrow> addr \<Rightarrow> nat \<Rightarrow> addr \<times> addr \<times> bool" where
  "repe_cmpsb m p1 p2 0 = (p1, p2, False)"
| "repe_cmpsb m p1 p2 (Suc n) =
     (if m p1 \<noteq> m p2 then (p1 + 1, p2 + 1, True) else repe_cmpsb m (p1 + 1) (p2 + 1) n)"

text \<open>\<^verbatim>\<open>repne scasb\<close> with \<^verbatim>\<open>al = 0\<close>: the remaining count.\<close>

fun repne_scasb :: "mem \<Rightarrow> addr \<Rightarrow> nat \<Rightarrow> nat" where
  "repne_scasb m p 0 = 0"
| "repne_scasb m p (Suc n) = (if m p = 0 then n else repne_scasb m (p + 1) n)"

section \<open>Memory routines\<close>

definition same_u64_alignment :: "addr \<Rightarrow> addr \<Rightarrow> bool" where
  "same_u64_alignment a b \<longleftrightarrow> (a XOR b) AND 7 = 0"

text \<open>
  The prologues run until the destination is 8-byte aligned without looking at the count;
  they take at most seven steps, which is also why they end.
\<close>

lemma and_7: "x AND 7 = take_bit 3 (x :: addr)"
  by (simp add: take_bit_eq_mask mask_eq_exp_minus_1)

lemma unat_and_7: "unat (x AND 7) = unat (x :: addr) mod 8"
  unfolding and_7 by (simp add: take_bit_eq_mod unat_mod_distrib)

lemma align_down_step:
  assumes "(d :: addr) AND 7 \<noteq> 0"
  shows "unat ((d - 1) AND 7) < unat (d AND 7)"
proof -
  have d: "unat d mod 8 \<noteq> 0" using assms unat_and_7 [of d] by (metis unat_eq_zero)
  then obtain k where k: "unat d = Suc k" by (cases "unat d") simp_all
  then have "unat (d - 1) = k" using unat_sub_of_nat64 [of 1 d] by simp
  then show ?thesis unfolding unat_and_7 using d k by (simp add: mod_Suc split: if_splits)
qed

lemma align_up_step:
  assumes "(d :: addr) AND 7 \<noteq> 0"
  shows "(8 - unat ((d + 1) AND 7)) mod 8 < (8 - unat (d AND 7)) mod 8"
proof -
  have d: "unat d mod 8 \<noteq> 0" using assms unat_and_7 [of d] by (metis unat_eq_zero)
  have "unat (d + 1) mod 8 = Suc (unat d) mod 8"
    by (simp add: unat_word_ariths mod_mod_cancel)
  then show ?thesis
    unfolding unat_and_7 using d by (simp add: mod_Suc split: if_splits)
qed

function align_copy_k :: "mem \<times> addr \<times> addr \<times> size_t \<Rightarrow> mem \<times> addr \<times> addr \<times> size_t" where
  "align_copy_k (m, d, s, n) =
     (if d AND 7 \<noteq> 0 then align_copy_k (copy_lane 1 m d s, d + 1, s + 1, n - 1) else (m, d, s, n))"
  by pat_completeness auto
termination
  by (relation "measure (\<lambda>(m, d, s, n). (8 - unat (d AND 7)) mod 8)") (use align_up_step in auto)

function align_back_k :: "mem \<times> addr \<times> addr \<times> size_t \<Rightarrow> mem \<times> addr \<times> addr \<times> size_t" where
  "align_back_k (m, d, s, n) =
     (if d AND 7 \<noteq> 0 then align_back_k (copy_lane 1 m (d - 1) (s - 1), d - 1, s - 1, n - 1)
      else (m, d, s, n))"
  by pat_completeness auto
termination
  by (relation "measure (\<lambda>(m, d, s, n). unat (d AND 7))") (use align_down_step in auto)

function align_fill_k :: "u8 \<Rightarrow> mem \<times> addr \<times> size_t \<Rightarrow> mem \<times> addr \<times> size_t" where
  "align_fill_k c (m, d, n) =
     (if d AND 7 \<noteq> 0 then align_fill_k c (m(d := c), d + 1, n - 1) else (m, d, n))"
  by pat_completeness auto
termination
  by (relation "measure (\<lambda>(c, m, d, n). (8 - unat (d AND 7)) mod 8)") (use align_up_step in auto)

declare align_copy_k.simps [simp del] align_back_k.simps [simp del] align_fill_k.simps [simp del]

definition memcpy_k :: "mem \<Rightarrow> addr \<Rightarrow> addr \<Rightarrow> size_t \<Rightarrow> mem \<times> addr" where
  "memcpy_k m dest src n =
     (if n = 0 \<or> dest = src then (m, dest)
      else
        let (m, d, s, n) =
              (if n \<ge> 64 \<and> same_u64_alignment dest src
               then let (m, d8, s8, n) = align_copy_k (m, dest, src, n);
                        (m, d8, s8) = rep_movs 8 (unat (drop_bit 3 n)) (m, d8, s8)
                    in (m, d8, s8, n AND 7)
               else (m, dest, src, n))
        in (fst (rep_movs 1 (unat n) (m, d, s)), dest))"

text \<open>\<^verbatim>\<open>while (q--) *--d = *--s;\<close> at width \<open>w\<close>.\<close>

fun copy_back_k :: "nat \<Rightarrow> nat \<Rightarrow> mem \<times> addr \<times> addr \<Rightarrow> mem \<times> addr \<times> addr" where
  "copy_back_k w 0 st = st"
| "copy_back_k w (Suc q) (m, d, s) =
     copy_back_k w q (copy_lane w m (d - of_nat w) (s - of_nat w), d - of_nat w, s - of_nat w)"

definition memmove_k :: "mem \<Rightarrow> addr \<Rightarrow> addr \<Rightarrow> size_t \<Rightarrow> mem \<times> addr" where
  "memmove_k m dest src n =
     (if n = 0 \<or> dest = src then (m, dest)
      else if dest < src \<or> dest - src \<ge> n then memcpy_k m dest src n
      else
        let d8 = dest + n; s8 = src + n;
            (m, d, s, n) =
              (if n \<ge> 64 \<and> (d8 XOR s8) AND 7 = 0
               then let (m, d8, s8, n) = align_back_k (m, d8, s8, n);
                        (m, d8, s8) = copy_back_k 8 (unat (drop_bit 3 n)) (m, d8, s8)
                    in (m, d8, s8, n AND 7)
               else (m, d8, s8, n))
        in (fst (copy_back_k 1 (unat n) (m, d, s)), dest))"

definition memset_k :: "mem \<Rightarrow> addr \<Rightarrow> u32 \<Rightarrow> size_t \<Rightarrow> mem \<times> addr" where
  "memset_k m s c n =
     (if n = 0 then (m, s)
      else
        let byte = ucast c :: u8;
            (m, d8, n) =
              (if n \<ge> 32
               then let (m, d8, n) = align_fill_k byte (m, s, n);
                        pattern = ucast byte :: u64;
                        pattern = pattern OR push_bit 8 pattern;
                        pattern = pattern OR push_bit 16 pattern;
                        pattern = pattern OR push_bit 32 pattern;
                        (m, d8) = rep_stos (bytes_of_u64 pattern) (unat (drop_bit 3 n)) (m, d8)
                    in (m, d8, n AND 7)
               else (m, s, n))
        in (fst (rep_stos [byte] (unat n) (m, d8)), s))"

definition memcmp_k :: "mem \<Rightarrow> addr \<Rightarrow> addr \<Rightarrow> size_t \<Rightarrow> int" where
  "memcmp_k m s1 s2 n =
     (if n = 0 \<or> s1 = s2 then 0
      else case repe_cmpsb m s1 s2 (unat n) of
             (p1, p2, res) \<Rightarrow> if \<not> res then 0 else uint (m (p1 - 1)) - uint (m (p2 - 1)))"

section \<open>Correctness of the memory routines\<close>

text \<open>
  The loops are related to the C library's, whose invariants then give the closed forms:
  a \<^verbatim>\<open>rep\<close> instruction with count \<open>n >> 3\<close> does what the word loop does.
\<close>

lemma fwd_loop_rep_movs:
  assumes "0 < w"
  shows "fwd_loop w [0] (m, d, s, k) =
    (case rep_movs w (k div w) (m, d, s) of (m', d', s') \<Rightarrow> (m', d', s', k mod w))"
proof (induction "k div w" arbitrary: m d s k)
  case 0
  then have "k < w" using assms by (simp add: div_eq_0_iff)
  then show ?case by (simp add: fwd_loop.simps [of w "[0]" m])
next
  case (Suc q)
  then have k: "w \<le> k" using assms by (metis div_less not_le nat.distinct(1))
  then have q: "(k - w) div w = q" "k mod w = (k - w) mod w"
    using Suc(2) assms by (simp_all add: le_div_geq le_mod_geq)
  have "fwd_loop w [0] (m, d, s, k) = fwd_loop w [0] (copy_lane w m d s, d + of_nat w, s + of_nat w, k - w)"
    using k assms by (simp add: fwd_loop.simps [of w "[0]" m] copy_lanes_def)
  then show ?case
    using Suc(1) [of "k - w" "copy_lane w m d s" "d + of_nat w" "s + of_nat w"] q
    by (simp add: Suc(2) [symmetric])
qed

lemma bwd_loop_copy_back:
  assumes "0 < w"
  shows "bwd_loop w [0] (m, d, s, k) =
    (case copy_back_k w (k div w) (m, d, s) of (m', d', s') \<Rightarrow> (m', d', s', k mod w))"
proof (induction "k div w" arbitrary: m d s k)
  case 0
  then have "k < w" using assms by (simp add: div_eq_0_iff)
  then show ?case by (simp add: bwd_loop.simps [of w "[0]" m])
next
  case (Suc q)
  then have k: "w \<le> k" using assms by (metis div_less not_le nat.distinct(1))
  then have q: "(k - w) div w = q" "k mod w = (k - w) mod w"
    using Suc(2) assms by (simp_all add: le_div_geq le_mod_geq)
  have "bwd_loop w [0] (m, d, s, k) =
      bwd_loop w [0] (copy_lane w m (d - of_nat w) (s - of_nat w), d - of_nat w, s - of_nat w, k - w)"
    using k assms by (simp add: bwd_loop.simps [of w "[0]" m] copy_lanes_def)
  then show ?case
    using Suc(1) [of "k - w" "copy_lane w m (d - of_nat w) (s - of_nat w)" "d - of_nat w" "s - of_nat w"] q
    by (simp add: Suc(2) [symmetric])
qed

text \<open>The unguarded prologues agree with the guarded ones: seven bytes are always there.\<close>

lemma unat_pred: "n \<noteq> 0 \<Longrightarrow> unat (n - 1 :: size_t) = unat n - 1"
  using unat_sub_of_nat64 [of 1 n] by (auto simp: unat_eq_zero Suc_le_eq)

lemma prologue_le: "(8 - unat (d AND 7 :: addr)) mod 8 \<le> 7"
  using mod_less_divisor [of 8 "8 - unat (d AND 7)"] by linarith

lemma align_copy_k_eq:
  "(8 - unat (d AND 7)) mod 8 \<le> unat n \<Longrightarrow>
   align_copy_k (m, d, s, n) =
     (case align_fwd (m, d, s, unat n) of (m', d', s', k) \<Rightarrow> (m', d', s', of_nat k))"
proof (induction "(m, d, s, n)" arbitrary: m d s n rule: align_copy_k.induct)
  case (1 m d s n)
  show ?case
  proof (cases "d AND 7 = 0")
    case True
    then show ?thesis by (simp add: align_copy_k.simps [of m] align_fwd.simps [of m])
  next
    case False
    note step = align_up_step [OF False]
    have "n \<noteq> 0" using step 1(2) by auto
    then have u: "unat (n - 1) = unat n - 1" by (rule unat_pred)
    have "(8 - unat (d + 1 AND 7)) mod 8 \<le> unat (n - 1)" using step 1(2) u by linarith
    note ih = 1(1) [OF False this]
    have a: "align_copy_k (m, d, s, n) = align_copy_k (copy_lane 1 m d s, d + 1, s + 1, n - 1)"
      using False by (simp add: align_copy_k.simps [of m])
    have b: "align_fwd (m, d, s, unat n) = align_fwd (copy_lane 1 m d s, d + 1, s + 1, unat (n - 1))"
      using False \<open>n \<noteq> 0\<close> unfolding u by (simp add: align_fwd.simps [of m] unat_eq_zero)
    show ?thesis unfolding a b by (rule ih)
  qed
qed

lemma align_back_k_eq:
  "unat (d AND 7) \<le> unat n \<Longrightarrow>
   align_back_k (m, d, s, n) =
     (case align_bwd (m, d, s, unat n) of (m', d', s', k) \<Rightarrow> (m', d', s', of_nat k))"
proof (induction "(m, d, s, n)" arbitrary: m d s n rule: align_back_k.induct)
  case (1 m d s n)
  show ?case
  proof (cases "d AND 7 = 0")
    case True
    then show ?thesis by (simp add: align_back_k.simps [of m] align_bwd.simps [of m])
  next
    case False
    note step = align_down_step [OF False]
    have "n \<noteq> 0" using step 1(2) by auto
    then have u: "unat (n - 1) = unat n - 1" by (rule unat_pred)
    have "unat (d - 1 AND 7) \<le> unat (n - 1)" using step 1(2) u by linarith
    note ih = 1(1) [OF False this]
    have a: "align_back_k (m, d, s, n) = align_back_k (copy_lane 1 m (d - 1) (s - 1), d - 1, s - 1, n - 1)"
      using False by (simp add: align_back_k.simps [of m])
    have b: "align_bwd (m, d, s, unat n) = align_bwd (copy_lane 1 m (d - 1) (s - 1), d - 1, s - 1, unat (n - 1))"
      using False \<open>n \<noteq> 0\<close> unfolding u by (simp add: align_bwd.simps [of m] unat_eq_zero)
    show ?thesis unfolding a b by (rule ih)
  qed
qed

lemma align_loops_le:
  "snd (snd (snd (align_fwd st))) \<le> snd (snd (snd st))"
  "snd (snd (snd (align_bwd st'))) \<le> snd (snd (snd st'))"
  by (induction st rule: align_fwd.induct, subst align_fwd.simps, force)
     (induction st' rule: align_bwd.induct, subst align_bwd.simps, force)

lemma qwords:
  "k \<le> unat (n :: size_t) \<Longrightarrow> unat (drop_bit 3 (of_nat k :: size_t)) = k div 8"
  "k \<le> unat (n :: size_t) \<Longrightarrow> unat (of_nat k AND 7 :: size_t) = k mod 8"
  using unat_lt64 [of n] by (simp_all add: drop_bit_eq_div unat_div_distrib unat_and_7)

lemma memcpy_k_blit [mem_spec]:
  assumes "fwd_ok d s (unat n)"
  shows "memcpy_k m d s n = (blit m d s (unat n), d)"
proof -
  have small: "fst (rep_movs 1 (unat n) (m, d, s)) = blit m d s (unat n)"
    using fwd_finish [OF assms fwd_inv_init, of m] fwd_loop_rep_movs [of 1 m d s "unat n"]
    by (cases "rep_movs 1 (unat n) (m, d, s)") simp
  show ?thesis
  proof (cases "n \<ge> 64 \<and> same_u64_alignment d s")
    case False
    then show ?thesis using small by (auto simp: memcpy_k_def Let_def)
  next
    case True
    have "(8 - unat (d AND 7)) mod 8 \<le> unat n"
      using True prologue_le [of d] by (simp add: word_le_nat_alt)
    note al = align_copy_k_eq [OF this, of m s]
    obtain m1 d1 s1 k where a: "align_fwd (m, d, s, unat n) = (m1, d1, s1, k)"
      by (cases "align_fwd (m, d, s, unat n)") auto
    have k: "k \<le> unat n" using align_loops_le(1) [of "(m, d, s, unat n)"] a by simp
    obtain m2 d2 s2 where b: "rep_movs 8 (k div 8) (m1, d1, s1) = (m2, d2, s2)"
      by (cases "rep_movs 8 (k div 8) (m1, d1, s1)") auto
    have "fwd_loop 8 [0] (m1, d1, s1, k) = (m2, d2, s2, k mod 8)"
      using b by (simp add: fwd_loop_rep_movs)
    moreover have "fwd_inv m d s (unat n) (fwd_loop 8 [0] (align_fwd (m, d, s, unat n)))"
      unfolding lanes_upt(1) by (intro fwd_invs assms)
    ultimately have "fst (fwd_loop 1 [0] (m2, d2, s2, k mod 8)) = blit m d s (unat n)"
      using fwd_finish [OF assms] a by simp
    then have "fst (rep_movs 1 (k mod 8) (m2, d2, s2)) = blit m d s (unat n)"
      using fwd_loop_rep_movs [of 1 m2 d2 s2 "k mod 8"]
      by (cases "rep_movs 1 (k mod 8) (m2, d2, s2)") simp
    then show ?thesis
      using True al a b qwords [OF k] by (auto simp: memcpy_k_def Let_def)
  qed
qed

lemma memmove_k_blit [mem_spec]:
  assumes "unat n \<le> 2 ^ 63" and "unat s + unat n \<le> 2 ^ 64"
  shows "memmove_k m d s n = (blit m d s (unat n), d)"
proof (cases "d = s \<or> n = 0 \<or> d < s \<or> d - s \<ge> n")
  case True
  have "fwd_ok d s (unat n)" if "d \<noteq> s" "n \<noteq> 0"
    using True that assms unat_lt64 [of s]
    by (auto simp: fwd_ok_def word_le_nat_alt word_less_nat_alt unat_sub64)
  then show ?thesis
    using True by (auto simp: memmove_k_def memcpy_k_blit)
next
  case False
  then have ok: "bwd_ok d s (unat n)"
    using assms by (simp add: bwd_ok_def word_le_nat_alt not_le)
  let ?d = "d + n" and ?s = "s + n"
  have init: "bwd_inv m d s (unat n) (m, ?d, ?s, unat n)"
    using bwd_inv_init [of m d s "unat n"] by simp
  have finish: "fst (copy_back_k 1 k (m2, d2, s2)) = blit m d s (unat n)"
    if "bwd_inv m d s (unat n) (m2, d2, s2, k)" for m2 d2 s2 k
    using bwd_finish [OF ok that] bwd_loop_copy_back [of 1 m2 d2 s2 k]
    by (cases "copy_back_k 1 k (m2, d2, s2)") simp
  show ?thesis
  proof (cases "n \<ge> 64 \<and> (?d XOR ?s) AND 7 = 0")
    case small: False
    then show ?thesis using False finish [OF init] by (auto simp: memmove_k_def Let_def)
  next
    case True
    have "unat (?d AND 7) < 8" by (simp add: unat_and_7)
    then have "unat (?d AND 7) \<le> unat n" using True by (simp add: word_le_nat_alt)
    note al = align_back_k_eq [OF this, of m ?s]
    obtain m1 d1 s1 k where a: "align_bwd (m, ?d, ?s, unat n) = (m1, d1, s1, k)"
      by (cases "align_bwd (m, ?d, ?s, unat n)") auto
    have k: "k \<le> unat n" using align_loops_le(2) [of "(m, ?d, ?s, unat n)"] a by simp
    obtain m2 d2 s2 where b: "copy_back_k 8 (k div 8) (m1, d1, s1) = (m2, d2, s2)"
      by (cases "copy_back_k 8 (k div 8) (m1, d1, s1)") auto
    have "bwd_loop 8 [0] (m1, d1, s1, k) = (m2, d2, s2, k mod 8)"
      using b by (simp add: bwd_loop_copy_back)
    moreover have "bwd_inv m d s (unat n) (bwd_loop 8 [0] (align_bwd (m, ?d, ?s, unat n)))"
      unfolding lanes_upt(2) by (intro bwd_invs ok init)
    ultimately have "bwd_inv m d s (unat n) (m2, d2, s2, k mod 8)" using a by simp
    from finish [OF this] show ?thesis
      using False True al a b qwords [OF k] by (auto simp: memmove_k_def Let_def)
  qed
qed

lemma rep_stos_fill:
  "length bs * q \<le> 2 ^ 64 \<Longrightarrow> bs = replicate (length bs) c \<Longrightarrow>
   rep_stos bs q (m, d) = (fill m d c (length bs * q), d + of_nat (length bs * q))"
proof (induction q arbitrary: m d)
  case 0
  then show ?case by simp
next
  case (Suc q)
  let ?l = "length bs"
  have le: "?l \<le> 2 ^ 64" "?l * q \<le> 2 ^ 64" using Suc.prems(1) by auto
  have "store_bytes m d bs = fill m d c ?l"
    using Suc.prems(2) le(1) store_bytes_replicate [of ?l m d c] by simp
  moreover have "fill (fill m d c ?l) (d + of_nat ?l) c (?l * Suc q - ?l) = fill m d c (?l * Suc q)"
    by (rule fill_fill) (use Suc.prems in simp_all)
  ultimately show ?case
    using Suc.IH [OF le(2) Suc.prems(2), of "fill m d c ?l" "d + of_nat ?l"]
    by (simp add: add.assoc)
qed

lemma align_fill_k_fill:
  assumes "(8 - unat (d AND 7)) mod 8 \<le> unat n"
  shows "\<exists>j. align_fill_k c (m, d, n) = (fill m d c j, d + of_nat j, n - of_nat j) \<and> j \<le> unat n"
  using assms
proof (induction c "(m, d, n)" arbitrary: m d n rule: align_fill_k.induct)
  case (1 c m d n)
  show ?case
  proof (cases "d AND 7 = 0")
    case True
    then show ?thesis by (intro exI [of _ 0]) (simp add: align_fill_k.simps [of c m])
  next
    case False
    note step = align_up_step [OF False]
    have "n \<noteq> 0" using step 1(2) by auto
    then have u: "unat (n - 1) = unat n - 1" by (rule unat_pred)
    have "(8 - unat (d + 1 AND 7)) mod 8 \<le> unat (n - 1)" using step 1(2) u by linarith
    from 1(1) [OF False this] obtain j where
      j: "align_fill_k c (m(d := c), d + 1, n - 1) = (fill (m(d := c)) (d + 1) c j, d + 1 + of_nat j, n - 1 - of_nat j)"
      "j \<le> unat (n - 1)" by blast
    have "unat n \<noteq> 0" using \<open>n \<noteq> 0\<close> by (simp add: unat_eq_zero)
    then have le: "Suc j \<le> unat n" using j(2) u by linarith
    have "fill (fill m d c 1) (d + of_nat 1) c (Suc j - 1) = fill m d c (Suc j)"
      by (rule fill_fill) (use le unat_lt64 [of n] in simp_all)
    then show ?thesis
      using False j(1) le
      by (intro exI [of _ "Suc j"]) (simp add: align_fill_k.simps [of c m] fill_1 ac_simps diff_diff_eq)
  qed
qed

text \<open>The doubling pattern of \<open>memset\<close> repeats its byte.\<close>

lemma pattern_bytes:
  fixes b :: u8
  defines "p1 \<equiv> (ucast b :: u64) OR push_bit 8 (ucast b)"
  defines "p2 \<equiv> p1 OR push_bit 16 p1"
  shows "bytes_of_u64 (p2 OR push_bit 32 p2) = replicate 8 b"
proof (rule nth_equalityI)
  fix i assume "i < length (bytes_of_u64 (p2 OR push_bit 32 p2))"
  then have i: "i < 8" by simp
  have b: "\<not> bit b k" if "8 \<le> k" for k using bit_imp_le_length [of b k] that by auto
  show "bytes_of_u64 (p2 OR push_bit 32 p2) ! i = replicate 8 b ! i"
  proof (rule bit_word_eqI)
    fix k assume "k < LENGTH(8)"
    then have k: "k < 8" by simp
    from i have "i = 0 \<or> i = 1 \<or> i = 2 \<or> i = 3 \<or> i = 4 \<or> i = 5 \<or> i = 6 \<or> i = 7" by linarith
    then show "bit (bytes_of_u64 (p2 OR push_bit 32 p2) ! i) k = bit (replicate 8 b ! i) k"
      using k b unfolding bit_bytes_of_u64 [OF i k] p2_def p1_def
      by (elim disjE) (simp_all add: bit_or_iff bit_push_bit_iff bit_unsigned_iff b)
  qed
qed simp

lemma memset_k_fill [mem_spec]: "memset_k m d v n = (fill m d (ucast v) (unat n), d)"
proof -
  let ?c = "ucast v :: u8"
  have bytes: "fst (rep_stos [?c] k (m', d')) = fill m' d' ?c k" if "k \<le> 2 ^ 64" for m' d' k
    using rep_stos_fill [of "[?c]" k ?c m' d'] that by simp
  show ?thesis
  proof (cases "n \<ge> 32")
    case False
    then show ?thesis
      using bytes [of "unat n" m d] unat_lt64 [of n] by (auto simp: memset_k_def Let_def)
  next
    case True
    let ?p1 = "(ucast ?c :: u64) OR push_bit 8 (ucast ?c)"
    let ?p2 = "?p1 OR push_bit 16 ?p1"
    let ?p = "?p2 OR push_bit 32 ?p2"
    have "(8 - unat (d AND 7)) mod 8 \<le> unat n"
      using True prologue_le [of d] by (simp add: word_le_nat_alt)
    from align_fill_k_fill [OF this] obtain j where
      j: "align_fill_k ?c (m, d, n) = (fill m d ?c j, d + of_nat j, n - of_nat j)" "j \<le> unat n" by blast
    define k where "k = unat n - j"
    have nk: "n - of_nat j = of_nat k"
      using j(2) by (simp add: k_def of_nat_diff)
    have kn: "k \<le> unat n" by (simp add: k_def)
    have bs: "bytes_of_u64 ?p = replicate 8 ?c" by (rule pattern_bytes)
    have stos: "rep_stos (replicate 8 ?c) (k div 8) (fill m d ?c j, d + of_nat j) =
        (fill (fill m d ?c j) (d + of_nat j) ?c (8 * (k div 8)), d + of_nat j + of_nat (8 * (k div 8)))"
      using rep_stos_fill [of "replicate 8 ?c" "k div 8" ?c] kn unat_lt64 [of n] by simp
    have f1: "fill (fill m d ?c j) (d + of_nat j) ?c (j + 8 * (k div 8) - j) = fill m d ?c (j + 8 * (k div 8))"
      using kn j(2) unat_lt64 [of n] by (intro fill_fill) (simp_all add: k_def)
    have tot: "j + 8 * (k div 8) + k mod 8 = unat n" using j(2) by (simp add: k_def)
    have f2: "fill (fill m d ?c (j + 8 * (k div 8))) (d + of_nat (j + 8 * (k div 8))) ?c
        (unat n - (j + 8 * (k div 8))) = fill m d ?c (unat n)"
      by (rule fill_fill) (use tot unat_lt64 [of n] in simp_all)
    have km: "k mod 8 = unat n - (j + 8 * (k div 8))" using tot by linarith
    have "fst (rep_stos [?c] (k mod 8) (fill m d ?c (j + 8 * (k div 8)), d + of_nat (j + 8 * (k div 8)))) =
        fill m d ?c (unat n)"
      using bytes [of "k mod 8"] f2 km by simp
    then show ?thesis
      unfolding memset_k_def Let_def bs using True j(1) stos f1 nk qwords [OF kn]
      by (auto simp: add.assoc simp del: of_nat_mult)
  qed
qed

lemma repe_cmpsb_diff:
  "0 < n \<Longrightarrow>
   (case repe_cmpsb m a b n of
      (p1, p2, res) \<Rightarrow> if \<not> res then 0 else uint (m (p1 - 1)) - uint (m (p2 - 1))) = diff_at m a b n"
proof (induction n arbitrary: a b)
  case 0
  then show ?case by simp
next
  case (Suc n)
  have un: "diff_at m a b (Suc n) =
      (if m a \<noteq> m b then uint (m a) - uint (m b) else diff_at m (a + 1) (b + 1) n)"
    using cmp_bytes_diff [of m a b "Suc n"] cmp_bytes_diff [of m "a + 1" "b + 1" n] by auto
  show ?case
  proof (cases n)
    case 0
    then show ?thesis by (simp add: un diff_at_def)
  next
    case (Suc k)
    then have "0 < n" by simp
    from Suc.IH [OF this, of "a + 1" "b + 1"] show ?thesis by (simp add: un)
  qed
qed

lemma memcmp_k_diff [mem_spec]: "memcmp_k m a b n = diff_at m a b (unat n)"
proof (cases "n = 0 \<or> a = b")
  case True
  then have "\<forall>i<unat n. m (a + of_nat i) = m (b + of_nat i)" by auto
  then have "diff_at m a b (unat n) = 0" by (simp add: diff_at_eq_0_iff)
  then show ?thesis using True by (simp add: memcmp_k_def)
next
  case False
  then have "0 < unat n" by (simp add: unat_gt_0)
  then show ?thesis using False repe_cmpsb_diff [of "unat n" m a b] by (simp add: memcmp_k_def)
qed

interpretation kernel_mem: mem_ops memcpy_k memmove_k memset_k memcmp_k
  by unfold_locales
     (simp_all add: memcpy_k_blit memmove_k_blit memset_k_fill memcmp_k_diff
       memcmp_eq_0 [unfolded memcmp_diff])

section \<open>Strings\<close>

text \<open>\<^verbatim>\<open>repne scasb\<close> starts with the count \<^verbatim>\<open>-1UL\<close>; the result is \<^verbatim>\<open>-2UL - count\<close>.\<close>

definition strlen_k :: "mem \<Rightarrow> addr \<Rightarrow> size_t" where
  "strlen_k m s = -2 - of_nat (repne_scasb m s (unat SIZE_MAX))"

definition strcpy_k :: "mem \<Rightarrow> addr \<Rightarrow> addr \<Rightarrow> (mem \<times> addr) option" where
  "strcpy_k m dest src = do { m' \<leftarrow> strcpy_loop m dest src; Some (m', dest) }"

fun strncpy_loop_k :: "mem \<Rightarrow> addr \<Rightarrow> addr \<Rightarrow> nat \<Rightarrow> mem \<times> addr \<times> nat" where
  "strncpy_loop_k m d src 0 = (m, d, 0)"
| "strncpy_loop_k m d src (Suc n) =
     (if m src \<noteq> 0 then strncpy_loop_k (m(d := m src)) (d + 1) (src + 1) n else (m, d, Suc n))"

definition strncpy_k :: "mem \<Rightarrow> addr \<Rightarrow> addr \<Rightarrow> size_t \<Rightarrow> mem \<times> addr" where
  "strncpy_k m dest src n =
     (case strncpy_loop_k m dest src (unat n) of
        (m', d, k) \<Rightarrow> (if k \<noteq> 0 then fst (memset_k m' d 0 (of_nat k)) else m', dest))"

definition strcat_k :: "mem \<Rightarrow> addr \<Rightarrow> addr \<Rightarrow> (mem \<times> addr) option" where
  "strcat_k m dest src = do {
     (m', _) \<leftarrow> strcpy_k m (dest + strlen_k m dest) src;
     Some (m', dest)
   }"

partial_function (option) strcmp_k :: "mem \<Rightarrow> addr \<Rightarrow> addr \<Rightarrow> int option" where
  "strcmp_k m s1 s2 =
     (if m s1 \<noteq> 0 \<and> m s1 = m s2 then strcmp_k m (s1 + 1) (s2 + 1)
      else Some (uint (m s1) - uint (m s2)))"

fun strncmp_loop_k :: "mem \<Rightarrow> addr \<Rightarrow> addr \<Rightarrow> nat \<Rightarrow> int" where
  "strncmp_loop_k m s1 s2 0 = 0"
| "strncmp_loop_k m s1 s2 (Suc n) =
     (if m s1 \<noteq> 0 \<and> m s1 = m s2 then strncmp_loop_k m (s1 + 1) (s2 + 1) n
      else uint (m s1) - uint (m s2))"

definition strncmp_k :: "mem \<Rightarrow> addr \<Rightarrow> addr \<Rightarrow> size_t \<Rightarrow> int" where
  "strncmp_k m s1 s2 n = strncmp_loop_k m s1 s2 (unat n)"

definition strchr_k :: "mem \<Rightarrow> addr \<Rightarrow> u32 \<Rightarrow> addr option option" where
  "strchr_k m s c =
     (let ch = ucast c
      in do {
        p \<leftarrow> advance 1 (\<lambda>p. m p = ch \<or> m p = 0) s;
        Some (if m p = ch then Some p else None)
      })"

definition build_delim_map :: "mem \<Rightarrow> addr \<Rightarrow> u8 list option" where
  "build_delim_map m delim = byte_set_loop m delim (replicate 32 0)"

definition delim_contains :: "u8 list \<Rightarrow> u8 \<Rightarrow> bool" where
  "delim_contains dmap c \<longleftrightarrow> dmap ! unat (drop_bit 3 c) AND push_bit (unat (c AND 7)) 1 \<noteq> 0"

text \<open>
  Unlike the C library's, this \<open>strtok_r\<close> never stores a null save pointer: at the end of
  the input the save pointer rests on the terminator.
\<close>

definition strtok_r_k :: "mem \<Rightarrow> addr option \<Rightarrow> addr \<Rightarrow> addr \<Rightarrow> (mem \<times> addr \<times> addr option) option" where
  "strtok_r_k m str delim saveptr = do {
     dmap \<leftarrow> build_delim_map m delim;
     let s = (case str of None \<Rightarrow> saveptr | Some s \<Rightarrow> s)
     in do {
       s \<leftarrow> advance 1 (\<lambda>p. \<not> (m p \<noteq> 0 \<and> delim_contains dmap (m p))) s;
       if m s = 0 then Some (m, s, None)
       else do {
         e \<leftarrow> advance 1 (\<lambda>p. \<not> (m p \<noteq> 0 \<and> \<not> delim_contains dmap (m p))) s;
         if m e \<noteq> 0 then Some (m(e := 0), e + 1, Some s) else Some (m, e, Some s)
       }
     }
   }"

lemma repne_scasb_cstr:
  "cstr m p k \<Longrightarrow> k < n \<Longrightarrow> repne_scasb m p n = n - Suc k"
proof (induction n arbitrary: p k)
  case 0
  then show ?case by simp
next
  case (Suc n)
  then show ?case by (cases k) (simp_all add: cstr_Suc)
qed

lemma strlen_k_cstr [mem_spec]:
  assumes "cstr m s k" and "k < 2 ^ 64 - 1"
  shows "strlen_k m s = of_nat k"
proof -
  have "repne_scasb m s (2 ^ 64 - 1) = 2 ^ 64 - 1 - Suc k"
    by (rule repne_scasb_cstr [OF assms])
  moreover have "(of_nat (2 ^ 64 - 1 - Suc k) :: size_t) = of_nat (2 ^ 64) - 1 - of_nat (Suc k)"
    using assms(2) by (simp add: of_nat_diff)
  ultimately show ?thesis by (simp add: strlen_k_def unat_SIZE_MAX)
qed

lemma strcmp_k_str_at [mem_spec]:
  "str_at m a xs \<Longrightarrow> str_at m b ys \<Longrightarrow> strcmp_k m a b = Some (str_cmp xs ys)"
  by (induction xs ys arbitrary: a b rule: str_cmp.induct) (subst strcmp_k.simps, simp)+

lemma strncmp_loop_k_eq: "strncmp_loop_k m a b n = strncmp_loop m a b n"
  by (induction n arbitrary: a b) (auto simp: Let_def)

lemma strncpy_loop_k_eq:
  "copy_str m dst src n i = (m', j) \<Longrightarrow> i \<le> n \<Longrightarrow>
   strncpy_loop_k m (dst + of_nat i) (src + of_nat i) (n - i) = (m', dst + of_nat j, n - j)"
proof (induction m dst src n i rule: copy_str.induct)
  case (1 m dst src n i)
  show ?case
  proof (cases "i < n \<and> m (src + of_nat i) \<noteq> 0")
    case True
    then have n: "n - i = Suc (n - Suc i)" by (simp add: Suc_diff_Suc)
    have "copy_str (m(dst + of_nat i := m (src + of_nat i))) dst src n (i + 1) = (m', j)"
      using 1(2) True by (simp add: copy_str.simps [of m])
    from 1(1) [OF True this] show ?thesis
      using True unfolding n by (simp add: ac_simps fun_upd_def)
  next
    case False
    then have "m' = m" "j = i" using 1(2) by (auto simp: copy_str.simps [of m])
    then show ?thesis using False 1(3) by (cases "n - i") auto
  qed
qed

lemma strncpy_k_eq: "strncpy_k m dst src n = strncpy c m dst src n"
proof -
  obtain m' i where i: "copy_str m dst src (unat n) 0 = (m', i)" by fastforce
  have le: "i \<le> unat n"
  proof -
    have "j \<le> n \<Longrightarrow> snd (copy_str m dst src n j) \<le> n" for m n j
      by (induction m dst src n j rule: copy_str.induct) (subst copy_str.simps, auto)
    from this [of 0 "unat n" m] show ?thesis using i by simp
  qed
  have "strncpy_loop_k m dst src (unat n) = (m', dst + of_nat i, unat n - i)"
    using strncpy_loop_k_eq [OF i] by simp
  moreover have "(of_nat (unat n - i) :: size_t) = n - of_nat i" using le by (simp add: of_nat_diff)
  ultimately show ?thesis
    using i le by (auto simp: strncpy_k_def strncpy_def memset_k_fill memset_fill)
qed

lemma strchr_k_cstr [mem_spec]:
  assumes "cstr m s k"
  shows "strchr_k m s c = strchr cp m s c"
proof -
  let ?ch = "ucast c :: u8"
  let ?P = "\<lambda>p. m p = ?ch \<or> m p = 0"
  obtain q t where q: "advance 1 ?P s = Some q" "?P q" "cstr m q t" "scan_ok m ?ch s k (Inr (q, t))"
    using assms
    by (rule advance_scan [where P = ?P and w = 1 and ch = ?ch])
       (use assms in \<open>auto simp: cstr_def find_byte_1\<close>)
  have b: "byte_addr m s ?ch k = byte_addr m q ?ch t" by (rule scan_ok_result(2) [OF q(4)])
  show ?thesis
  proof (cases "?ch = 0")
    case True
    then have "t = 0" using q(2) cstr_end [OF q(3)] by auto
    then have "q = s + of_nat k" using q(4) by (auto simp: scan_ok_def)
    then show ?thesis using True q(1,2) by (simp add: strchr_k_def strchr_cstr [OF assms])
  next
    case False
    have "byte_addr m q ?ch t = (if m q = ?ch then Some q else None)"
      using False q(2) cstr_end [OF q(3)] cstr_pos [OF q(3)] byte_addr_hit [of m q ?ch t] by auto
    then show ?thesis using False q(1) b by (simp add: strchr_k_def strchr_cstr [OF assms])
  qed
qed

lemma delim_map_str_at:
  assumes "str_at m s xs"
  obtains b where "build_delim_map m s = Some b" "\<And>c. delim_contains b c \<longleftrightarrow> c \<in> set xs"
  using byte_set_str_at [OF assms]
  by (auto simp: build_delim_map_def byte_set_def delim_contains_def byte_set_has_def)

lemma strtok_r_k_str_at:
  assumes "str_at m s xs" and "str_at m d ds"
    and "case str of Some p \<Rightarrow> p = s | None \<Rightarrow> save = s"
  defines "ys \<equiv> dropWhile (\<lambda>x. x \<in> set ds) xs"
  defines "tok \<equiv> takeWhile (\<lambda>x. x \<notin> set ds) ys" and "rest \<equiv> dropWhile (\<lambda>x. x \<notin> set ds) ys"
  defines "t \<equiv> s + of_nat (length xs - length ys)"
  defines "e \<equiv> t + of_nat (length tok)"
  shows "strtok_r_k m str d save =
    Some (if ys = [] then (m, t, None)
          else if rest = [] then (m, e, Some t)
          else (m(e := 0), e + 1, Some t))"
proof -
  obtain b where b: "build_delim_map m d = Some b" "\<And>c. delim_contains b c \<longleftrightarrow> c \<in> set ds"
    using delim_map_str_at [OF assms(2)] by blast
  let ?sp = "takeWhile (\<lambda>x. x \<in> set ds) xs"
  have xs: "xs = ?sp @ ys" by (simp add: ys_def)
  then have len: "length ?sp = length xs - length ys"
    by (metis add_diff_cancel_right' length_append)
  have t: "str_at m t ys"
    using str_at_append [of m s ?sp ys] assms(1) xs len by (simp add: t_def)
  have ys: "ys = tok @ rest" by (simp add: tok_def rest_def)
  have e: "str_at m e rest"
    using str_at_append [of m t tok rest] t ys by (simp add: e_def)
  have sp: "advance 1 (\<lambda>p. \<not> (m p \<noteq> 0 \<and> m p \<in> set ds)) s = Some t"
    using advance_str_at [OF assms(1), of "\<lambda>x. x \<in> set ds"] len by (simp add: t_def)
  have cs: "advance 1 (\<lambda>p. \<not> (m p \<noteq> 0 \<and> m p \<notin> set ds)) t = Some e"
    using advance_str_at [OF t, of "\<lambda>x. x \<notin> set ds"] by (simp add: e_def tok_def)
  have s: "(case str of None \<Rightarrow> save | Some s \<Rightarrow> s) = s"
    using assms(3) by (simp split: option.splits)
  show ?thesis
    unfolding strtok_r_k_def s
    using str_at_head [OF t] str_at_head [OF e] sp cs by (simp add: b)
qed

section \<open>Properties\<close>

text \<open>
  C15: the kernel's memory routines, built on \<^verbatim>\<open>rep movsq\<close>, \<^verbatim>\<open>rep stosq\<close> and
  \<^verbatim>\<open>repe cmpsb\<close>, have the same effect and results as the C library's vector code on every
  CPU: copies of regions within the address space, fills, and comparisons.
\<close>

theorem kernel_libc_agree:
  assumes "unat n \<le> 2 ^ 63" and "unat s + unat n \<le> 2 ^ 64"
  shows "memmove_k m d s n = memmove c m d s n \<and>
    (fwd_ok d s (unat n) \<longrightarrow> memcpy_k m d s n = memcpy c m d s n) \<and>
    memset_k m d v n = memset c m d v n \<and>
    memcmp_k m d s n = memcmp m d s n"
  using assms
  by (simp add: memmove_k_blit memmove_blit memcpy_k_blit memcpy_blit memset_k_fill memset_fill
      memcmp_k_diff memcmp_diff)

theorem kernel_libc_agree_witness:
  "unat (100 :: size_t) \<le> 2 ^ 63 \<and> unat (0x1000 :: addr) + unat (100 :: size_t) \<le> 2 ^ 64 \<and>
   memmove_k ucast 0x1008 0x1000 100 = memmove plain_cpu ucast 0x1008 0x1000 100"
proof -
  have h: "unat (100 :: size_t) \<le> 2 ^ 63" "unat (0x1000 :: addr) + unat (100 :: size_t) \<le> 2 ^ 64"
    by simp_all
  show ?thesis using kernel_libc_agree [OF h, of ucast "0x1008" plain_cpu] h by blast
qed

text \<open>
  The kernel's string routines agree with the C library's on C strings:
  \<open>strlen\<close>, \<open>strcmp\<close>, \<open>strchr\<close>, and \<open>strncpy\<close> and \<open>strncmp\<close> everywhere.
\<close>

theorem kernel_libc_strings_agree:
  assumes "str_at m a xs" and "str_at m b ys" and "length xs < 2 ^ 64 - 1"
  shows "strlen c m a = Some (strlen_k m a) \<and> strcmp_k m a b = strcmp m a b \<and>
    strchr_k m a ch = strchr c m a ch \<and> strncmp_k m a b n = strncmp m a b n \<and>
    strncpy_k m a b n = strncpy c m a b n \<and> strcpy_k m a b = strcpy m a b"
  using assms str_at_cstr [OF assms(1)]
  by (simp add: strlen_cstr strlen_k_cstr strcmp_k_str_at strcmp_str_at strchr_k_cstr [where cp = c]
      strncmp_k_def strncmp_def strncmp_loop_k_eq strncpy_k_eq [of _ _ _ _ c] strcpy_k_def strcpy_def)

theorem kernel_libc_strings_agree_witness:
  "str_at demo_mem 0x1000 [97, 98, 44, 99] \<and> str_at demo_mem 0x2000 [97, 98] \<and>
   strcmp_k demo_mem 0x1000 0x2000 = strcmp demo_mem 0x1000 0x2000"
  using kernel_libc_strings_agree [OF demo_mem_strings(1,2)] demo_mem_strings by simp

end
