(* ===== verification/Fd_Table.thy ===== *)
theory Fd_Table
  imports Prelude
begin

text \<open>
  The per-task descriptor table of \<^verbatim>\<open>src/src/impl/x86_64/file/fd.cpp\<close>, with the code
  that shares open files between descriptors: \<^verbatim>\<open>sys_dup2\<close> and the tail of
  \<^verbatim>\<open>sys_open\<close> in \<^verbatim>\<open>syscall.cpp\<close>, and the descriptor half of task creation, clone
  and exit in \<^verbatim>\<open>smp/scheduler.cpp\<close>.

  A table is the pointer array, the allocation bitmap, the capacity and the search hint.
  Capacities never exceed \<^verbatim>\<open>UINT32_MAX\<close>, so the 64-bit counters are natural numbers; the
  narrowing of a descriptor to \<^verbatim>\<open>int\<close> is written out. A null pointer is \<open>None\<close>.
  Whether \<^verbatim>\<open>kcalloc\<close> finds memory is the argument \<open>kc\<close>, asked with the element count
  and size; every operation takes its own \<open>kc\<close>, so memory may come and go between
  operations.
\<close>

section \<open>State\<close>

type_synonym fptr = nat

record fd_task =
  fd_table :: "fptr option list option"
  fd_bitmap :: "u64 list option"
  fd_capacity :: nat
  next_fd_hint :: nat

definition FD_BITS_PER_WORD :: nat where "FD_BITS_PER_WORD = 64"
definition INITIAL_FD_CAPACITY :: nat where "INITIAL_FD_CAPACITY = 8"
definition UINT32_MAX :: nat where "UINT32_MAX = 4294967295"
definition INT32_MAX :: int where "INT32_MAX = 2147483647"

text \<open>The cast \<^verbatim>\<open>(int)fd\<close> of a 64-bit descriptor number.\<close>

definition int_of_fd :: "nat \<Rightarrow> int" where
  "int_of_fd fd = sint (of_nat fd :: 32 word)"

section \<open>Bitmap\<close>

definition fd_bitmap_words :: "nat \<Rightarrow> nat" where
  "fd_bitmap_words capacity = (capacity + FD_BITS_PER_WORD - 1) div FD_BITS_PER_WORD"

definition fd_bit_get :: "fd_task \<Rightarrow> nat \<Rightarrow> bool" where
  "fd_bit_get t fd =
     (case fd_bitmap t of None \<Rightarrow> False
      | Some bm \<Rightarrow> fd < fd_capacity t \<and>
          (bm ! (fd div FD_BITS_PER_WORD)) AND push_bit (fd mod FD_BITS_PER_WORD) 1 \<noteq> 0)"

definition fd_bit_set :: "fd_task \<Rightarrow> nat \<Rightarrow> fd_task" where
  "fd_bit_set t fd =
     (case fd_bitmap t of None \<Rightarrow> t
      | Some bm \<Rightarrow>
          if fd < fd_capacity t then
            t\<lparr>fd_bitmap := Some (bm[fd div FD_BITS_PER_WORD :=
                 bm ! (fd div FD_BITS_PER_WORD) OR push_bit (fd mod FD_BITS_PER_WORD) 1])\<rparr>
          else t)"

definition fd_bit_clear :: "fd_task \<Rightarrow> nat \<Rightarrow> fd_task" where
  "fd_bit_clear t fd =
     (case fd_bitmap t of None \<Rightarrow> t
      | Some bm \<Rightarrow>
          if fd < fd_capacity t then
            t\<lparr>fd_bitmap := Some (bm[fd div FD_BITS_PER_WORD :=
                 bm ! (fd div FD_BITS_PER_WORD) AND NOT (push_bit (fd mod FD_BITS_PER_WORD) 1)])\<rparr>
          else t)"

definition fd_last_word_mask :: "nat \<Rightarrow> u64" where
  "fd_last_word_mask capacity =
     (let used = capacity mod FD_BITS_PER_WORD
      in if used \<noteq> 0 then push_bit used 1 - 1 else - 1)"

text \<open>\<^verbatim>\<open>__builtin_ctzll\<close>: the number of zero bits below the lowest set bit.\<close>

definition ctzll :: "u64 \<Rightarrow> nat" where
  "ctzll w = length (takeWhile (\<lambda>i. \<not> bit w i) [0..<64])"

definition find_clear_bit :: "u64 \<Rightarrow> int" where
  "find_clear_bit word =
     (let free_bits = NOT word in if free_bits = 0 then - 1 else int (ctzll free_bits))"

section \<open>Table operations\<close>

fun get_file :: "int \<Rightarrow> fd_task option \<Rightarrow> fptr option" where
  "get_file fd None = None"
| "get_file fd (Some t) =
     (if fd < 0 \<or> fd_capacity t \<le> nat fd then None
      else case fd_table t of None \<Rightarrow> None | Some tb \<Rightarrow> tb ! nat fd)"

text \<open>The doubling loop of \<^verbatim>\<open>expand_table\<close>; from capacity 0 it would not end.\<close>

partial_function (option) grow_cap :: "nat \<Rightarrow> nat \<Rightarrow> nat option" where
  "grow_cap new_cap needed =
     (if new_cap < needed then
        if new_cap > UINT32_MAX div 2 then Some needed
        else grow_cap (new_cap * 2) needed
      else Some new_cap)"

text \<open>The bitmap rebuilt from the pointers when a table has none.\<close>

primrec rebuild_bitmap :: "fptr option list \<Rightarrow> nat \<Rightarrow> u64 list \<Rightarrow> u64 list" where
  "rebuild_bitmap new_table 0 bm = bm"
| "rebuild_bitmap new_table (Suc i) bm =
     (let bm' = rebuild_bitmap new_table i bm
      in if new_table ! i \<noteq> None then
           bm'[i div FD_BITS_PER_WORD :=
             bm' ! (i div FD_BITS_PER_WORD) OR push_bit (i mod FD_BITS_PER_WORD) 1]
         else bm')"

definition clamp_hint :: "fd_task \<Rightarrow> fd_task" where
  "clamp_hint t =
     (if next_fd_hint t > fd_capacity t then t\<lparr>next_fd_hint := fd_capacity t\<rparr> else t)"

text \<open>
  \<open>memcpy\<close> into a zeroed array of \<open>n\<close> elements: the old elements, then zeroes.
\<close>

definition copy_into :: "nat \<Rightarrow> 'a \<Rightarrow> nat \<Rightarrow> 'a list \<Rightarrow> 'a list" where
  "copy_into n z k xs = take k xs @ replicate (n - k) z"

text \<open>
  The outer option is the loop's termination; the result is the returned flag and the task.
\<close>

fun expand_table ::
  "(nat \<Rightarrow> nat \<Rightarrow> bool) \<Rightarrow> nat \<Rightarrow> fd_task option \<Rightarrow> (bool \<times> fd_task option) option" where
  "expand_table kc needed None = Some (False, None)"
| "expand_table kc needed (Some t) =
     (if fd_capacity t \<ge> needed \<and> fd_table t \<noteq> None \<and> fd_bitmap t \<noteq> None
      then Some (True, Some t)
      else case grow_cap (if fd_capacity t \<noteq> 0 then fd_capacity t else INITIAL_FD_CAPACITY) needed of
        None \<Rightarrow> None
      | Some new_cap \<Rightarrow>
        if new_cap > UINT32_MAX then Some (False, Some t)
        else if \<not> kc new_cap 8 then Some (False, Some t)
        else let new_words = fd_bitmap_words new_cap in
        if \<not> kc new_words 8 then Some (False, Some t)
        else
          let new_table = (case fd_table t of
                None \<Rightarrow> replicate new_cap None
              | Some tb \<Rightarrow> copy_into new_cap None (fd_capacity t) tb);
              new_bitmap = (case fd_bitmap t of
                None \<Rightarrow> rebuild_bitmap new_table (fd_capacity t) (replicate new_words 0)
              | Some bm \<Rightarrow> copy_into new_words 0 (fd_bitmap_words (fd_capacity t)) bm)
          in Some (True, Some (clamp_hint (t\<lparr>fd_table := Some new_table,
               fd_bitmap := Some new_bitmap, fd_capacity := new_cap\<rparr>))))"

declare expand_table.simps(2) [simp del]

text \<open>One iteration of the search loop of \<^verbatim>\<open>alloc_fd\<close>, then the loop over a range.\<close>

definition alloc_word :: "fd_task \<Rightarrow> nat \<Rightarrow> nat \<Rightarrow> nat option" where
  "alloc_word t words w =
     (let word0 = the (fd_bitmap t) ! w;
          word = (if w = words - 1 then word0 OR NOT (fd_last_word_mask (fd_capacity t)) else word0)
      in if word = - 1 then None
         else let b = find_clear_bit word in
         if b < 0 then None
         else let fd = w * FD_BITS_PER_WORD + nat b in
         if fd \<ge> fd_capacity t then None else Some fd)"

fun alloc_scan :: "fd_task \<Rightarrow> nat \<Rightarrow> nat list \<Rightarrow> nat option" where
  "alloc_scan t words [] = None"
| "alloc_scan t words (w # ws) =
     (case alloc_word t words w of Some fd \<Rightarrow> Some fd | None \<Rightarrow> alloc_scan t words ws)"

definition take_fd :: "fd_task \<Rightarrow> nat \<Rightarrow> int \<times> fd_task option" where
  "take_fd t fd = (int_of_fd fd, Some ((fd_bit_set t fd)\<lparr>next_fd_hint := fd + 1\<rparr>))"

fun alloc_fd ::
  "(nat \<Rightarrow> nat \<Rightarrow> bool) \<Rightarrow> fd_task option \<Rightarrow> (int \<times> fd_task option) option" where
  "alloc_fd kc t0 =
     (case expand_table kc INITIAL_FD_CAPACITY t0 of
        None \<Rightarrow> None
      | Some (True, Some t1) \<Rightarrow>
          let t = clamp_hint t1;
              start_word = next_fd_hint t div FD_BITS_PER_WORD;
              words = fd_bitmap_words (fd_capacity t)
          in (case alloc_scan t words [start_word..<words] of
                Some fd \<Rightarrow> Some (take_fd t fd)
              | None \<Rightarrow>
              (case alloc_scan t words [0..<start_word] of
                Some fd \<Rightarrow> Some (take_fd t fd)
              | None \<Rightarrow>
                let old_cap = fd_capacity t;
                    needed = (if old_cap \<noteq> 0 then old_cap + 1 else INITIAL_FD_CAPACITY)
                in if needed > UINT32_MAX then Some (- 1, Some t)
                   else (case expand_table kc needed (Some t) of
                          None \<Rightarrow> None
                        | Some (True, Some t2) \<Rightarrow> Some (take_fd t2 old_cap)
                        | Some (_, t2) \<Rightarrow> Some (- 1, t2))))
      | Some (_, t1) \<Rightarrow> Some (- 1, t1))"

text \<open>The loop that moves the hint past descriptors in use.\<close>

function skip_used :: "fd_task \<Rightarrow> nat \<Rightarrow> nat" where
  "skip_used t h =
     (if h < fd_capacity t \<and> fd_bit_get t h then skip_used t (h + 1) else h)"
  by auto
termination by (relation "measure (\<lambda>(t, h). fd_capacity t - h)") auto

declare skip_used.simps [simp del]

fun reserve_fd ::
  "(nat \<Rightarrow> nat \<Rightarrow> bool) \<Rightarrow> int \<Rightarrow> fd_task option \<Rightarrow> (bool \<times> fd_task option) option" where
  "reserve_fd kc fd None = Some (False, None)"
| "reserve_fd kc fd (Some t0) =
     (if fd < 0 \<or> fd = INT32_MAX then Some (False, Some t0)
      else case expand_table kc (nat fd + 1) (Some t0) of
        None \<Rightarrow> None
      | Some (True, Some t1) \<Rightarrow>
          let t = fd_bit_set t1 (nat fd)
          in Some (True, Some
               (if nat fd = next_fd_hint t then t\<lparr>next_fd_hint := skip_used t (next_fd_hint t)\<rparr>
                else t))
      | Some (_, t1) \<Rightarrow> Some (False, t1))"

definition lower_hint :: "nat \<Rightarrow> fd_task \<Rightarrow> fd_task" where
  "lower_hint fd t = (if fd < next_fd_hint t then t\<lparr>next_fd_hint := fd\<rparr> else t)"

fun release_reserved_fd :: "int \<Rightarrow> fd_task option \<Rightarrow> fd_task option" where
  "release_reserved_fd fd None = None"
| "release_reserved_fd fd (Some t) =
     (if fd < 0 \<or> nat fd \<ge> fd_capacity t then Some t
      else if (case fd_table t of None \<Rightarrow> False | Some tb \<Rightarrow> tb ! nat fd \<noteq> None) then Some t
      else Some (lower_hint (nat fd) (fd_bit_clear t (nat fd))))"

section \<open>Bitmap lemmas\<close>

definition bm_bit :: "u64 list \<Rightarrow> nat \<Rightarrow> bool" where
  "bm_bit bm fd \<longleftrightarrow> bit (bm ! (fd div 64)) (fd mod 64)"

lemmas fd_consts = FD_BITS_PER_WORD_def INITIAL_FD_CAPACITY_def UINT32_MAX_def INT32_MAX_def

lemma words_bound: "c \<le> 64 * fd_bitmap_words c" "64 * fd_bitmap_words c < c + 64"
proof -
  have w: "fd_bitmap_words c = (c + 63) div 64"
    by (simp add: fd_bitmap_words_def fd_consts)
  show "c \<le> 64 * fd_bitmap_words c" "64 * fd_bitmap_words c < c + 64"
    using div_mult_mod_eq [of "c + 63" 64] mod_less_divisor [of 64 "c + 63"]
    unfolding w by linarith+
qed

lemma div_words: "fd < c \<Longrightarrow> fd div 64 < fd_bitmap_words c"
  using words_bound(1) [of c] by (simp add: div_less_iff_less_mult)

lemma bm_bit_set:
  "fd div 64 < length bm \<Longrightarrow>
   bm_bit (bm[fd div 64 := bm ! (fd div 64) OR 2 ^ (fd mod 64)]) i \<longleftrightarrow>
     i = fd \<or> bm_bit bm i"
proof -
  assume l: "fd div 64 < length bm"
  have "(i mod 64 = fd mod 64) = (i = fd)" if "i div 64 = fd div 64"
    using that by (metis div_mult_mod_eq)
  then show ?thesis
    using l by (auto simp: bm_bit_def nth_list_update bit_simps bit_exp_iff
        split: if_splits)
qed

lemma bm_bit_clear:
  "fd div 64 < length bm \<Longrightarrow>
   bm_bit (bm[fd div 64 := bm ! (fd div 64) AND NOT (2 ^ (fd mod 64))]) i \<longleftrightarrow>
     i \<noteq> fd \<and> bm_bit bm i"
proof -
  assume l: "fd div 64 < length bm"
  have "(i mod 64 = fd mod 64) = (i = fd)" if "i div 64 = fd div 64"
    using that by (metis div_mult_mod_eq)
  then show ?thesis
    using l by (auto simp: bm_bit_def nth_list_update bit_simps bit_exp_iff
        split: if_splits)
qed

lemma fd_bit_get_alt:
  "fd_bit_get t fd \<longleftrightarrow>
     (case fd_bitmap t of None \<Rightarrow> False | Some bm \<Rightarrow> fd < fd_capacity t \<and> bm_bit bm fd)"
  by (simp add: fd_bit_get_def bm_bit_def fd_consts push_bit_eq_mult and_exp_eq_0_iff_not_bit
      split: option.split)

lemma ctzll_spec:
  assumes "w \<noteq> (0 :: u64)"
  shows "bit w (ctzll w)" "ctzll w < 64" "i < ctzll w \<Longrightarrow> \<not> bit w i"
proof -
  obtain n where n: "bit w n" "n < 64"
    using assms bit_imp_le_length [of w] by (auto simp: bit_eq_iff)
  have "takeWhile (\<lambda>i. \<not> bit w i) [0..<64] \<noteq> [0..<64]"
    using n by (metis atLeastLessThan_iff le0 set_takeWhileD set_upt)
  then have l: "ctzll w < 64"
    unfolding ctzll_def
    by (metis diff_zero length_takeWhile_le length_upt nat_less_le takeWhile_eq_take take_all_iff)
  then show "ctzll w < 64" .
  show "bit w (ctzll w)"
    using nth_length_takeWhile [of "\<lambda>i. \<not> bit w i" "[0..<64]"] l by (simp add: ctzll_def)
  show "\<not> bit w i" if "i < ctzll w"
    using that l takeWhile_nth [of i "\<lambda>i. \<not> bit w i" "[0..<64]"]
      set_takeWhileD [of "[0..<64] ! i" "\<lambda>i. \<not> bit w i" "[0..<64]"]
    by (metis add_0 ctzll_def nth_mem nth_upt order_less_trans takeWhile_nth)
qed

lemma find_clear_bit_spec:
  assumes "w \<noteq> - 1"
  shows "0 \<le> find_clear_bit w" "nat (find_clear_bit w) < 64"
    "\<not> bit w (nat (find_clear_bit w))" "i < nat (find_clear_bit w) \<Longrightarrow> bit w i"
proof -
  have z: "NOT w \<noteq> 0"
    using assms by (metis bit.double_compl bit.compl_zero)
  have f: "find_clear_bit w = int (ctzll (NOT w))"
    using z by (simp add: find_clear_bit_def)
  show "0 \<le> find_clear_bit w" "nat (find_clear_bit w) < 64"
    using ctzll_spec [OF z] by (simp_all add: f)
  show "\<not> bit w (nat (find_clear_bit w))"
    using ctzll_spec [OF z] by (simp add: f bit_not_iff)
  show "bit w i" if "i < nat (find_clear_bit w)"
    using ctzll_spec(3) [OF z, of i] ctzll_spec(2) [OF z] that by (simp add: f bit_not_iff)
qed

lemma bit_last_word_mask:
  "i < 64 \<Longrightarrow> bit (NOT (fd_last_word_mask c)) i \<longleftrightarrow> c mod 64 \<noteq> 0 \<and> c mod 64 \<le> i"
  by (auto simp: fd_last_word_mask_def fd_consts push_bit_eq_mult bit_not_iff
      mask_eq_exp_minus_1 [symmetric] bit_mask_iff Let_def)

section \<open>Invariant\<close>

text \<open>
  The abstract table is the set of descriptors in use and the file behind each. A table is
  well formed when both arrays have the size the capacity asks for, every open descriptor
  is marked in use, no mark lies beyond the capacity, and the hint is in range.
\<close>

definition used :: "fd_task \<Rightarrow> nat set" where
  "used t = {fd. fd_bit_get t fd}"

definition slot :: "fd_task \<Rightarrow> nat \<Rightarrow> fptr option" where
  "slot t fd = (case fd_table t of None \<Rightarrow> None
                | Some tb \<Rightarrow> if fd < length tb then tb ! fd else None)"

definition fd_wf :: "fd_task \<Rightarrow> bool" where
  "fd_wf t \<longleftrightarrow>
     (case (fd_table t, fd_bitmap t) of
        (Some tb, Some bm) \<Rightarrow>
          length tb = fd_capacity t \<and> length bm = fd_bitmap_words (fd_capacity t) \<and>
          fd_capacity t \<le> UINT32_MAX \<and> next_fd_hint t \<le> fd_capacity t \<and>
          (\<forall>fd < fd_capacity t. tb ! fd \<noteq> None \<longrightarrow> bm_bit bm fd) \<and>
          (\<forall>fd \<in> {fd_capacity t..<64 * length bm}. \<not> bm_bit bm fd)
      | _ \<Rightarrow> False)"

text \<open>
  Everything below the hint is in use. Tables keep this once they have it, but the console
  descriptors of the first task leave descriptor 0 free below the hint.
\<close>

definition hint_exact :: "fd_task \<Rightarrow> bool" where
  "hint_exact t \<longleftrightarrow> (\<forall>fd < next_fd_hint t. fd \<in> used t)"

text \<open>
  The descriptor the search is to find: the lowest free one from the start of the hint's word
  on, and the lowest of all when there is none within the capacity.
\<close>

definition fd_choice :: "fd_task \<Rightarrow> nat \<Rightarrow> bool" where
  "fd_choice t fd \<longleftrightarrow>
     (let s = 64 * (next_fd_hint t div 64)
      in fd \<notin> used t \<and>
         (if \<exists>j. s \<le> j \<and> j < fd_capacity t \<and> j \<notin> used t
          then s \<le> fd \<and> (\<forall>j. s \<le> j \<and> j < fd \<longrightarrow> j \<in> used t)
          else \<forall>j<fd. j \<in> used t))"

lemma fd_choice_lowest:
  assumes "fd_choice t fd" and "hint_exact t" and "j < fd"
  shows "j \<in> used t"
proof (cases "64 * (next_fd_hint t div 64) \<le> j")
  case True
  then show ?thesis using assms(1,3) unfolding fd_choice_def Let_def by metis
next
  case False
  have "64 * (next_fd_hint t div 64) \<le> next_fd_hint t" by simp
  then have "j < next_fd_hint t" using False by linarith
  then show ?thesis using assms(2) by (simp add: hint_exact_def)
qed

definition same_fds :: "fd_task \<Rightarrow> fd_task \<Rightarrow> bool" where
  "same_fds t t' \<longleftrightarrow> used t' = used t \<and> (\<forall>i. slot t' i = slot t i) \<and>
     fd_capacity t \<le> fd_capacity t' \<and> next_fd_hint t' = next_fd_hint t"

lemma same_fds_refl [simp]: "same_fds t t"
  by (simp add: same_fds_def)

lemma same_fds_trans: "same_fds a b \<Longrightarrow> same_fds b c \<Longrightarrow> same_fds a c"
  by (auto simp: same_fds_def)

lemma hint_exact_same: "same_fds t t' \<Longrightarrow> hint_exact t' = hint_exact t"
  by (simp add: same_fds_def hint_exact_def)

lemma fd_wfE:
  assumes "fd_wf t"
  obtains tb bm where "fd_table t = Some tb" "fd_bitmap t = Some bm"
    "length tb = fd_capacity t" "length bm = fd_bitmap_words (fd_capacity t)"
    "fd_capacity t \<le> UINT32_MAX" "next_fd_hint t \<le> fd_capacity t"
    "\<And>fd. fd < fd_capacity t \<Longrightarrow> tb ! fd \<noteq> None \<Longrightarrow> bm_bit bm fd"
    "\<And>fd. fd_capacity t \<le> fd \<Longrightarrow> fd < 64 * length bm \<Longrightarrow> \<not> bm_bit bm fd"
    "used t = {fd. fd < fd_capacity t \<and> bm_bit bm fd}"
    "\<And>fd. slot t fd = (if fd < fd_capacity t then tb ! fd else None)"
  using assms
  by (auto simp: fd_wf_def used_def fd_bit_get_alt slot_def split: option.splits)

lemma clamp_hint_wf [simp]: "fd_wf t \<Longrightarrow> clamp_hint t = t"
  by (auto simp: clamp_hint_def elim: fd_wfE)

section \<open>Growing the table\<close>

lemma grow_cap_total:
  "0 < c \<Longrightarrow> \<exists>c'. grow_cap c n = Some c' \<and> c \<le> c' \<and> n \<le> c' \<and>
     (c \<le> UINT32_MAX \<longrightarrow> n \<le> UINT32_MAX \<longrightarrow> c' \<le> UINT32_MAX)"
proof (induction "n - c" arbitrary: c rule: less_induct)
  case less
  show ?case
  proof (cases "c < n \<and> c \<le> UINT32_MAX div 2")
    case True
    then have "\<exists>c'. grow_cap (c * 2) n = Some c' \<and> c * 2 \<le> c' \<and> n \<le> c' \<and>
        (c * 2 \<le> UINT32_MAX \<longrightarrow> n \<le> UINT32_MAX \<longrightarrow> c' \<le> UINT32_MAX)"
      using less.prems by (intro less.hyps) auto
    then show ?thesis
      using True by (subst grow_cap.simps) (auto simp: UINT32_MAX_def)
  next
    case False
    then show ?thesis
      by (subst grow_cap.simps) auto
  qed
qed

lemma words_mono: "a \<le> b \<Longrightarrow> fd_bitmap_words a \<le> fd_bitmap_words b"
  unfolding fd_bitmap_words_def by (intro div_le_mono diff_le_mono add_le_mono) auto

lemma expand_wf:
  assumes "fd_wf t"
  shows "expand_table kc n (Some t) = Some (False, Some t) \<or>
    (\<exists>t'. expand_table kc n (Some t) = Some (True, Some t') \<and> fd_wf t' \<and> same_fds t t' \<and>
          n \<le> fd_capacity t')"
proof (cases "fd_capacity t \<ge> n")
  case True
  then show ?thesis using assms by (auto simp: expand_table.simps(2) elim: fd_wfE)
next
  case False
  obtain tb bm where t: "fd_table t = Some tb" "fd_bitmap t = Some bm"
    "length tb = fd_capacity t" "length bm = fd_bitmap_words (fd_capacity t)"
    "fd_capacity t \<le> UINT32_MAX" "next_fd_hint t \<le> fd_capacity t"
    and inuse: "\<And>fd. fd < fd_capacity t \<Longrightarrow> tb ! fd \<noteq> None \<Longrightarrow> bm_bit bm fd"
    and tail: "\<And>fd. fd_capacity t \<le> fd \<Longrightarrow> fd < 64 * length bm \<Longrightarrow> \<not> bm_bit bm fd"
    and u: "used t = {fd. fd < fd_capacity t \<and> bm_bit bm fd}"
    and sl: "\<And>fd. slot t fd = (if fd < fd_capacity t then tb ! fd else None)"
    using assms by (rule fd_wfE) blast
  let ?c0 = "if fd_capacity t \<noteq> 0 then fd_capacity t else INITIAL_FD_CAPACITY"
  have "0 < ?c0" by (simp add: INITIAL_FD_CAPACITY_def)
  then obtain c where c: "grow_cap ?c0 n = Some c" "?c0 \<le> c" "n \<le> c"
    using grow_cap_total [of ?c0 n] by blast
  have le: "fd_capacity t \<le> c" using c(2) by (auto split: if_splits)
  define tb' where "tb' = copy_into c None (fd_capacity t) tb"
  define bm' where "bm' = copy_into (fd_bitmap_words c) (0 :: u64) (length bm) bm"
  define t' where "t' = t\<lparr>fd_table := Some tb', fd_bitmap := Some bm', fd_capacity := c\<rparr>"
  have tb': "length tb' = c" "\<And>i. i < c \<Longrightarrow> tb' ! i = (if i < fd_capacity t then tb ! i else None)"
    using le t(3) by (auto simp: tb'_def copy_into_def nth_append)
  have w: "length bm \<le> fd_bitmap_words c"
    using words_mono [OF le] t(4) by simp
  then have lb: "length bm' = fd_bitmap_words c"
    by (simp add: bm'_def copy_into_def)
  have bm': "bm_bit bm' i \<longleftrightarrow> i < 64 * length bm \<and> bm_bit bm i" if "i < 64 * fd_bitmap_words c" for i
    using that w by (auto simp: bm'_def copy_into_def bm_bit_def nth_append)
  have lim: "c \<le> 64 * fd_bitmap_words c" "fd_capacity t \<le> 64 * length bm"
    using words_bound(1) t(4) by simp_all
  have wf': "fd_wf t'" if "c \<le> UINT32_MAX"
    using that tb' lb bm' lim t(6) le inuse tail
    by (auto simp: fd_wf_def t'_def split: if_splits)
  have "fd < c \<and> bm_bit bm' fd \<longleftrightarrow> fd < fd_capacity t \<and> bm_bit bm fd" for fd
    using bm' [of fd] tail [of fd] lim le by (cases "fd < fd_capacity t") auto
  then have "used t' = used t"
    by (simp add: used_def fd_bit_get_alt t'_def t(2))
  moreover have "slot t' i = slot t i" for i
    using tb' le by (auto simp: slot_def t'_def t(1,3))
  ultimately have same: "same_fds t t'" "n \<le> fd_capacity t'"
    using le c(3) by (simp_all add: same_fds_def t'_def)
  have "clamp_hint t' = t'"
    using t(6) le by (simp add: clamp_hint_def t'_def)
  then have "expand_table kc n (Some t) =
     (if c > UINT32_MAX \<or> \<not> kc c 8 \<or> \<not> kc (fd_bitmap_words c) 8 then Some (False, Some t)
      else Some (True, Some t'))"
    using False t(1,2,4) by (simp add: expand_table.simps(2) c(1) Let_def t'_def tb'_def bm'_def del: neq0_conv)
  then show ?thesis
    using wf' same by (cases "c > UINT32_MAX \<or> \<not> kc c 8 \<or> \<not> kc (fd_bitmap_words c) 8") auto
qed

lemma expand_succeeds:
  assumes "fd_wf t" and "n \<le> UINT32_MAX" and "\<And>a b. kc a b"
  shows "\<exists>t'. expand_table kc n (Some t) = Some (True, Some t')"
proof -
  let ?c0 = "if fd_capacity t \<noteq> 0 then fd_capacity t else INITIAL_FD_CAPACITY"
  have "0 < ?c0" "?c0 \<le> UINT32_MAX"
    using assms(1) by (auto simp: INITIAL_FD_CAPACITY_def UINT32_MAX_def elim: fd_wfE)
  then obtain c where "grow_cap ?c0 n = Some c" "c \<le> UINT32_MAX"
    using grow_cap_total [of ?c0 n] assms(2) by blast
  then show ?thesis
    using assms(3) by (auto simp: expand_table.simps(2) Let_def)
qed

section \<open>Searching the bitmap\<close>

lemma bit_set_wf:
  assumes "fd_wf t" and "fd < fd_capacity t"
  shows "fd_wf (fd_bit_set t fd)" "used (fd_bit_set t fd) = insert fd (used t)"
    "slot (fd_bit_set t fd) = slot t" "fd_capacity (fd_bit_set t fd) = fd_capacity t"
    "next_fd_hint (fd_bit_set t fd) = next_fd_hint t" "fd_table (fd_bit_set t fd) = fd_table t"
proof -
  obtain bm where bm: "fd_bitmap t = Some bm" "fd div 64 < length bm"
    using assms by (auto elim!: fd_wfE simp: div_words)
  note b = bm_bit_set [OF bm(2)]
  show "fd_wf (fd_bit_set t fd)"
    using assms bm by (auto elim!: fd_wfE simp: fd_wf_def fd_bit_set_def fd_consts b split: option.splits)
  show "used (fd_bit_set t fd) = insert fd (used t)"
    using assms bm by (auto simp: used_def fd_bit_get_alt fd_bit_set_def fd_consts b)
  show "slot (fd_bit_set t fd) = slot t" "fd_capacity (fd_bit_set t fd) = fd_capacity t"
    "next_fd_hint (fd_bit_set t fd) = next_fd_hint t" "fd_table (fd_bit_set t fd) = fd_table t"
    using assms bm by (auto simp: slot_def fd_bit_set_def)
qed

lemma bit_clear_wf:
  assumes "fd_wf t" and "fd < fd_capacity t" and "slot t fd = None"
  shows "fd_wf (fd_bit_clear t fd)" "used (fd_bit_clear t fd) = used t - {fd}"
    "slot (fd_bit_clear t fd) = slot t" "fd_capacity (fd_bit_clear t fd) = fd_capacity t"
    "next_fd_hint (fd_bit_clear t fd) = next_fd_hint t"
proof -
  obtain bm where bm: "fd_bitmap t = Some bm" "fd div 64 < length bm"
    using assms by (auto elim!: fd_wfE simp: div_words)
  note b = bm_bit_clear [OF bm(2)]
  show "fd_wf (fd_bit_clear t fd)"
    using assms bm by (auto elim!: fd_wfE simp: fd_wf_def fd_bit_clear_def fd_consts b slot_def split: option.splits)
  show "used (fd_bit_clear t fd) = used t - {fd}"
    using assms bm by (auto simp: used_def fd_bit_get_alt fd_bit_clear_def fd_consts b)
  show "slot (fd_bit_clear t fd) = slot t" "fd_capacity (fd_bit_clear t fd) = fd_capacity t"
    "next_fd_hint (fd_bit_clear t fd) = next_fd_hint t"
    using assms bm by (auto simp: slot_def fd_bit_clear_def)
qed

lemma bm_word: "i < 64 \<Longrightarrow> bm_bit bm (w * 64 + i) \<longleftrightarrow> bit (bm ! w) i"
  by (simp add: bm_bit_def)

lemma in_word: "w * 64 \<le> fd \<Longrightarrow> fd < w * 64 + 64 \<Longrightarrow> \<exists>i<64. fd = w * 64 + (i :: nat)"
  by (rule exI [of _ "fd - w * 64"]) auto

text \<open>
  The value the search loop tests: the word of the bitmap with every bit beyond the
  capacity set.
\<close>

lemma alloc_word_bits:
  assumes "fd_wf t" and "w < fd_bitmap_words (fd_capacity t)" and "i < 64"
  defines "v \<equiv> the (fd_bitmap t) ! w"
  shows "bit (if w = fd_bitmap_words (fd_capacity t) - 1
              then v OR NOT (fd_last_word_mask (fd_capacity t)) else v) i \<longleftrightarrow>
         w * 64 + i \<in> used t \<or> fd_capacity t \<le> w * 64 + i"
proof -
  obtain bm where bm: "fd_bitmap t = Some bm"
    "used t = {fd. fd < fd_capacity t \<and> bm_bit bm fd}"
    "\<And>fd. fd_capacity t \<le> fd \<Longrightarrow> fd < 64 * fd_bitmap_words (fd_capacity t) \<Longrightarrow> \<not> bm_bit bm fd"
    using assms(1) by (elim fd_wfE) (metis)
  let ?c = "fd_capacity t" and ?n = "fd_bitmap_words (fd_capacity t)"
  have v: "bit v i \<longleftrightarrow> w * 64 + i \<in> used t"
    using bm(3) [of "w * 64 + i"] assms(2,3)
    by (auto simp: v_def bm(1,2) bm_word) (meson linorder_not_less)
  show ?thesis
  proof (cases "w = ?n - 1")
    case True
    then have w: "64 * w < ?c" "?c \<le> 64 * w + 64"
      using words_bound [of ?c] assms(2) by auto
    have "?c mod 64 \<noteq> 0 \<and> ?c mod 64 \<le> i \<longleftrightarrow> ?c \<le> w * 64 + i"
    proof (cases "?c = 64 * w + 64")
      case False
      then have "?c mod 64 = ?c - 64 * w"
        using w by (metis add.commute add_diff_inverse_nat diff_less_mono le_neq_implies_less
            less_imp_le_nat linorder_not_less mod_less mod_mult_self4 add_diff_cancel_left' mult.commute)
      then show ?thesis using w by auto
    qed (use assms(3) in auto)
    then show ?thesis
      using True v assms(3) by (simp add: bit_or_iff bit_last_word_mask)
  next
    case False
    then have "w * 64 + i < ?c"
      using words_bound [of ?c] assms(2,3) by auto
    then show ?thesis using False v by simp
  qed
qed

lemma alloc_word_spec:
  assumes "fd_wf t" and "w < fd_bitmap_words (fd_capacity t)"
  shows "case alloc_word t (fd_bitmap_words (fd_capacity t)) w of
      Some fd \<Rightarrow> w * 64 \<le> fd \<and> fd < fd_capacity t \<and> fd \<notin> used t \<and> (\<forall>j. w * 64 \<le> j \<and> j < fd \<longrightarrow> j \<in> used t)
    | None \<Rightarrow> \<forall>j. w * 64 \<le> j \<and> j < w * 64 + 64 \<and> j < fd_capacity t \<longrightarrow> j \<in> used t"
proof -
  define v where "v = (if w = fd_bitmap_words (fd_capacity t) - 1
    then the (fd_bitmap t) ! w OR NOT (fd_last_word_mask (fd_capacity t)) else the (fd_bitmap t) ! w)"
  have b: "bit v i \<longleftrightarrow> w * 64 + i \<in> used t \<or> fd_capacity t \<le> w * 64 + i" if "i < 64" for i
    unfolding v_def by (rule alloc_word_bits [OF assms that])
  show ?thesis
  proof (cases "v = - 1")
    case True
    then have "alloc_word t (fd_bitmap_words (fd_capacity t)) w = None"
      by (simp add: alloc_word_def v_def Let_def)
    moreover have "j \<in> used t" if "w * 64 \<le> j" "j < w * 64 + 64" "j < fd_capacity t" for j
      using in_word [OF that(1,2)] b that(3) True by (fastforce simp: not_le)
    ultimately show ?thesis by simp
  next
    case False
    note c = find_clear_bit_spec [OF False]
    define k where "k = nat (find_clear_bit v)"
    have k: "k < 64" "w * 64 + k \<notin> used t" "w * 64 + k < fd_capacity t"
      using c(2,3) b [of k] by (auto simp: k_def)
    have "alloc_word t (fd_bitmap_words (fd_capacity t)) w = Some (w * 64 + k)"
      using False c(1) k(3) unfolding alloc_word_def v_def [symmetric] Let_def fd_consts
      by (simp add: k_def)
    moreover have "j \<in> used t" if j: "w * 64 \<le> j" "j < w * 64 + k" for j
    proof -
      obtain i where "i < 64" "j = w * 64 + i" using in_word [OF j(1)] j(2) k(1) by auto
      then show ?thesis using c(4) [of i] b [of i] j k by (auto simp: k_def)
    qed
    ultimately show ?thesis using k by auto
  qed
qed

lemma alloc_scan_spec:
  assumes "fd_wf t" and "b \<le> fd_bitmap_words (fd_capacity t)"
  shows "case alloc_scan t (fd_bitmap_words (fd_capacity t)) [a..<b] of
      Some fd \<Rightarrow> a * 64 \<le> fd \<and> fd < fd_capacity t \<and> fd \<notin> used t \<and> (\<forall>j. a * 64 \<le> j \<and> j < fd \<longrightarrow> j \<in> used t)
    | None \<Rightarrow> \<forall>j. a * 64 \<le> j \<and> j < b * 64 \<and> j < fd_capacity t \<longrightarrow> j \<in> used t"
proof (induction "b - a" arbitrary: a)
  case 0
  then show ?case by auto
next
  case (Suc d)
  then have ab: "a < b" "d = b - Suc a" by auto
  have split: "a * 64 \<le> j \<and> j < a * 64 + 64 \<or> Suc a * 64 \<le> j" if "a * 64 \<le> j" for j
    using that by auto
  show ?case
    using Suc.hyps(1) [OF ab(2)] alloc_word_spec [OF assms(1), of a] ab(1) assms(2)
    by (auto simp: upt_conv_Cons split: option.splits dest: split)
qed

lemma used_lt: "fd_wf t \<Longrightarrow> fd \<in> used t \<Longrightarrow> fd < fd_capacity t"
  by (auto elim: fd_wfE)

lemma alloc_fd_cases:
  assumes "fd_wf t"
  shows "(\<exists>t1. alloc_fd kc (Some t) = Some (- 1, Some t1) \<and> fd_wf t1 \<and> same_fds t t1) \<or>
    (\<exists>t1 fd. alloc_fd kc (Some t) = Some (take_fd t1 fd) \<and> fd_wf t1 \<and> same_fds t t1 \<and>
       fd < fd_capacity t1 \<and> fd \<notin> used t \<and> (INITIAL_FD_CAPACITY \<le> fd_capacity t \<longrightarrow> fd_choice t fd))"
  using expand_wf [OF assms(1), of kc INITIAL_FD_CAPACITY]
proof (elim disjE exE conjE)
  fix t1 assume e: "expand_table kc INITIAL_FD_CAPACITY (Some t) = Some (True, Some t1)"
    and t1: "fd_wf t1" "same_fds t t1" "INITIAL_FD_CAPACITY \<le> fd_capacity t1"
  let ?s = "next_fd_hint t1 div 64" and ?n = "fd_bitmap_words (fd_capacity t1)"
  have u: "used t = used t1" and h: "next_fd_hint t = next_fd_hint t1" using t1(2) by (simp_all add: same_fds_def)
  have cap: "fd_capacity t = fd_capacity t1" if "INITIAL_FD_CAPACITY \<le> fd_capacity t"
    using e assms(1) that by (auto simp: expand_table.simps(2) fd_wf_def split: option.splits)
  note def = alloc_fd.simps [of kc "Some t"] e clamp_hint_wf [OF t1(1)] FD_BITS_PER_WORD_def
  show ?thesis
  proof (cases "alloc_scan t1 ?n [?s..<?n]")
    case (Some fd)
    then have fd: "fd < fd_capacity t1" "fd \<notin> used t1" "\<forall>j. ?s * 64 \<le> j \<and> j < fd \<longrightarrow> j \<in> used t1" "?s * 64 \<le> fd"
      using alloc_scan_spec [OF t1(1) order.refl, of ?s] by auto
    have "fd_choice t fd" if "INITIAL_FD_CAPACITY \<le> fd_capacity t"
      using fd cap [OF that] unfolding fd_choice_def u h Let_def by (auto simp: mult.commute)
    moreover have "alloc_fd kc (Some t) = Some (take_fd t1 fd)"
      using Some by (simp add: def del: alloc_fd.simps)
    ultimately show ?thesis
      using t1 fd u by (intro disjI2 exI [of _ t1] exI [of _ fd]) (simp del: alloc_fd.simps)
  next
    case first: None
    have rest: "\<forall>j. ?s * 64 \<le> j \<and> j < fd_capacity t1 \<longrightarrow> j \<in> used t1"
      using alloc_scan_spec [OF t1(1) order.refl, of ?s] first words_bound(1) [of "fd_capacity t1"]
      by (auto simp: mult.commute)
    have choice: "fd_choice t fd" if "INITIAL_FD_CAPACITY \<le> fd_capacity t" "fd \<notin> used t1" "\<forall>j<fd. j \<in> used t1" for fd
      using rest that(2,3) cap [OF that(1)] unfolding fd_choice_def u h Let_def by (auto simp: mult.commute)
    show ?thesis
    proof (cases "alloc_scan t1 ?n [0..<?s]")
      case (Some fd)
      have "?s \<le> ?n"
        using t1(1) words_bound(1) [of "fd_capacity t1"] by (auto elim!: fd_wfE)
      then have fd: "fd < fd_capacity t1" "fd \<notin> used t1" "\<forall>j<fd. j \<in> used t1"
        using alloc_scan_spec [OF t1(1), of ?s 0] Some by auto
      moreover have "alloc_fd kc (Some t) = Some (take_fd t1 fd)"
        using first Some by (simp add: def del: alloc_fd.simps)
      ultimately show ?thesis
        using t1 u choice by (intro disjI2 exI [of _ t1] exI [of _ fd]) (simp del: alloc_fd.simps)
    next
      case None
      have sn: "?s \<le> ?n"
        using t1(1) words_bound(1) [of "fd_capacity t1"] by (auto elim!: fd_wfE)
      have "\<forall>j. j < ?s * 64 \<and> j < fd_capacity t1 \<longrightarrow> j \<in> used t1"
        using alloc_scan_spec [OF t1(1) sn, of 0] None by auto
      then have full: "\<forall>j < fd_capacity t1. j \<in> used t1" using rest by (meson linorder_not_less)
      have fresh: "fd_capacity t1 \<notin> used t1" using used_lt [OF t1(1)] by blast
      have c0: "fd_capacity t1 \<noteq> 0" using t1(3) by (simp add: INITIAL_FD_CAPACITY_def)
      let ?e = "expand_table kc (fd_capacity t1 + 1) (Some t1)"
      have a: "alloc_fd kc (Some t) =
          (if fd_capacity t1 + 1 > UINT32_MAX then Some (- 1, Some t1)
           else case ?e of None \<Rightarrow> None | Some (True, Some t2) \<Rightarrow> Some (take_fd t2 (fd_capacity t1))
                | Some (_, t2) \<Rightarrow> Some (- 1, t2))"
        using first None c0 by (simp add: def Let_def del: alloc_fd.simps)
      from expand_wf [OF t1(1), of kc "fd_capacity t1 + 1"] show ?thesis
      proof (elim disjE exE conjE)
        assume "?e = Some (False, Some t1)"
        then show ?thesis using a t1 by (simp del: alloc_fd.simps)
      next
        fix t2 assume t2: "?e = Some (True, Some t2)" "fd_wf t2" "same_fds t1 t2"
          "fd_capacity t1 + 1 \<le> fd_capacity t2"
        then have "fd_capacity t1 + 1 \<le> UINT32_MAX" by (auto elim: fd_wfE)
        then have "alloc_fd kc (Some t) = Some (take_fd t2 (fd_capacity t1))"
          using a t2(1) by (simp del: alloc_fd.simps)
        moreover have "same_fds t t2" using t1(2) t2(3) by (rule same_fds_trans)
        ultimately show ?thesis
          using t2(2,4) fresh full u choice by (intro disjI2 exI [of _ t2] exI [of _ "fd_capacity t1"]) (simp del: alloc_fd.simps)
      qed
    qed
  qed
qed (use assms(1) in \<open>auto intro: same_fds_refl\<close>)

section \<open>Each operation keeps the table well formed\<close>

lemma fd_wf_hint: "fd_wf t \<Longrightarrow> h \<le> fd_capacity t \<Longrightarrow> fd_wf (t\<lparr>next_fd_hint := h\<rparr>)"
  by (auto simp: fd_wf_def split: option.splits)

lemma used_hint [simp]: "used (t\<lparr>next_fd_hint := h\<rparr>) = used t"
  by (simp add: used_def fd_bit_get_def cong: option.case_cong)

lemma slot_hint [simp]: "slot (t\<lparr>next_fd_hint := h\<rparr>) = slot t"
  by (simp add: slot_def fun_eq_iff)

lemma take_fd_wf:
  assumes "fd_wf t" and "fd < fd_capacity t"
  obtains t' where "take_fd t fd = (int_of_fd fd, Some t')" "fd_wf t'"
    "used t' = insert fd (used t)" "slot t' = slot t" "fd_capacity t' = fd_capacity t"
    "\<forall>j<fd. j \<in> used t \<Longrightarrow> hint_exact t'"
proof
  let ?t = "(fd_bit_set t fd)\<lparr>next_fd_hint := fd + 1\<rparr>"
  note b = bit_set_wf [OF assms(1,2)]
  show "take_fd t fd = (int_of_fd fd, Some ?t)" by (simp add: take_fd_def)
  show "fd_wf ?t" using b assms(2) by (intro fd_wf_hint) auto
  show "used ?t = insert fd (used t)" "slot ?t = slot t" "fd_capacity ?t = fd_capacity t"
    using b by simp_all
  show "hint_exact ?t" if "\<forall>j<fd. j \<in> used t"
    using b that by (auto simp: hint_exact_def less_Suc_eq)
qed

lemma skip_used_spec:
  "h \<le> skip_used t h \<and> (h \<le> fd_capacity t \<longrightarrow> skip_used t h \<le> fd_capacity t) \<and>
   (\<forall>j. h \<le> j \<and> j < skip_used t h \<longrightarrow> j \<in> used t)"
proof (induction t h rule: skip_used.induct)
  case (1 t h)
  show ?case
  proof (cases "h < fd_capacity t \<and> fd_bit_get t h")
    case True
    then have s: "skip_used t h = skip_used t (h + 1)" by (subst skip_used.simps) simp
    have "h \<in> used t" using True by (simp add: used_def)
    then show ?thesis
      using 1 [OF True] True unfolding s by (auto simp: Suc_le_eq) (metis le_neq_implies_less)
  next
    case False
    then have "skip_used t h = h" by (subst skip_used.simps) auto
    then show ?thesis by auto
  qed
qed

lemma reserve_fd_wf:
  assumes "fd_wf t" and "reserve_fd kc fd (Some t) = Some (r, u)"
  obtains t' where "u = Some t'" "fd_wf t'" "slot t' = slot t" "fd_capacity t \<le> fd_capacity t'"
    "used t' = (if r then insert (nat fd) (used t) else used t)"
    "r \<Longrightarrow> nat fd < fd_capacity t' \<and> 0 \<le> fd"
    "hint_exact t \<Longrightarrow> hint_exact t'"
proof (cases "fd < 0 \<or> fd = INT32_MAX")
  case True
  then show ?thesis using assms that by auto
next
  case False
  from expand_wf [OF assms(1), of kc "nat fd + 1"] show ?thesis
  proof (elim disjE exE conjE)
    assume "expand_table kc (nat fd + 1) (Some t) = Some (False, Some t)"
    then show ?thesis using assms False that by auto
  next
    fix t1 assume e: "expand_table kc (nat fd + 1) (Some t) = Some (True, Some t1)"
      and t1: "fd_wf t1" "same_fds t t1" "nat fd + 1 \<le> fd_capacity t1"
    define t2 where "t2 = fd_bit_set t1 (nat fd)"
    have fd: "nat fd < fd_capacity t1" using t1(3) by simp
    note b = bit_set_wf [OF t1(1) fd, folded t2_def]
    have h2: "next_fd_hint t2 \<le> fd_capacity t2" using b(1) by (auto elim: fd_wfE)
    let ?t' = "if nat fd = next_fd_hint t2 then t2\<lparr>next_fd_hint := skip_used t2 (next_fd_hint t2)\<rparr>
      else t2"
    have "r = True" "u = Some ?t'"
      using assms(2) False e by (auto simp: Let_def t2_def split: if_splits)
    moreover have "fd_wf ?t'"
      using b(1) skip_used_spec [of "next_fd_hint t2" t2] h2 by (auto intro: fd_wf_hint)
    moreover have "hint_exact ?t'" if "hint_exact t"
    proof -
      have ex: "\<forall>j < next_fd_hint t2. j \<in> used t2"
        using hint_exact_same [OF t1(2)] that b by (auto simp: hint_exact_def)
      then show ?thesis
        using skip_used_spec [of "next_fd_hint t2" t2]
        by (auto simp: hint_exact_def) (metis linorder_not_less)+
    qed
    moreover have "slot t1 = slot t" "used t1 = used t" using t1(2) by (auto simp: same_fds_def)
    ultimately show ?thesis
      using that [of ?t'] b fd t1(2) False by (simp add: same_fds_def)
  qed
qed

lemma lower_hint_wf:
  assumes "fd_wf t" and "fd < fd_capacity t"
  shows "fd_wf (lower_hint fd t)" "used (lower_hint fd t) = used t" "slot (lower_hint fd t) = slot t"
    "fd_capacity (lower_hint fd t) = fd_capacity t"
  using assms by (auto simp: lower_hint_def intro: fd_wf_hint)

lemma clear_exact:
  assumes "hint_exact t" and "fd_wf t" and "fd < fd_capacity t" and "slot t fd = None"
  shows "hint_exact (lower_hint fd (fd_bit_clear t fd))"
  using assms(1) bit_clear_wf [OF assms(2-4)] by (auto simp: hint_exact_def lower_hint_def)

lemma release_reserved_fd_wf:
  assumes "fd_wf t"
  obtains t' where "release_reserved_fd fd (Some t) = Some t'" "fd_wf t'" "slot t' = slot t"
    "used t' = (if 0 \<le> fd \<and> slot t (nat fd) = None then used t - {nat fd} else used t)"
    "hint_exact t \<Longrightarrow> hint_exact t'" "fd_capacity t' = fd_capacity t"
proof -
  obtain tb where tb: "fd_table t = Some tb" "length tb = fd_capacity t"
    using assms by (elim fd_wfE) blast
  show ?thesis
  proof (cases "0 \<le> fd \<and> nat fd < fd_capacity t \<and> slot t (nat fd) = None")
    case True
    then have r: "release_reserved_fd fd (Some t) =
        Some (lower_hint (nat fd) (fd_bit_clear t (nat fd)))"
      by (auto simp: tb slot_def)
    have c: "nat fd < fd_capacity t" "slot t (nat fd) = None" using True by auto
    note b = bit_clear_wf [OF assms c] lower_hint_wf [OF bit_clear_wf(1) [OF assms c], of "nat fd"]
    show ?thesis
      by (rule that [OF r]) (use b c True clear_exact [OF _ assms c] in simp_all)
  next
    case False
    then have r: "release_reserved_fd fd (Some t) = Some t"
      by (auto simp: tb slot_def)
    have "nat fd \<notin> used t" if "fd_capacity t \<le> nat fd"
      using used_lt [OF assms, of "nat fd"] that by auto
    then show ?thesis
      by (intro that [OF r]) (use False assms in \<open>auto simp: not_less\<close>)
  qed
qed

section \<open>Open files shared between descriptors\<close>

record open_file =
  of_node :: nat
  of_offset :: u64
  of_refs :: u32

text \<open>
  The store of open files: a pointer whose file has been freed maps to \<open>None\<close>, and touching
  it is the outcome \<open>None\<close> of an operation. \<open>puts\<close> logs the calls of \<^verbatim>\<open>devfs_close_file\<close> and
  \<^verbatim>\<open>vfs::put_node\<close>, latest first, by the node they are made with.
\<close>

datatype node_call = Devfs_close nat | Put_node nat

record fstore =
  files :: "fptr \<Rightarrow> open_file option"
  puts :: "node_call list"

definition set_slot :: "nat \<Rightarrow> fptr option \<Rightarrow> fd_task \<Rightarrow> fd_task" where
  "set_slot fd x t = t\<lparr>fd_table := map_option (\<lambda>tb. tb[fd := x]) (fd_table t)\<rparr>"

text \<open>
  Dropping one reference under the file's lock; the last one closes the device, returns the
  node and frees the file.
\<close>

definition drop_ref :: "fptr \<Rightarrow> fstore \<Rightarrow> fstore option" where
  "drop_ref f S =
     (case files S f of None \<Rightarrow> None
      | Some fl \<Rightarrow>
          let r = (if of_refs fl > 0 then of_refs fl - 1 else of_refs fl)
          in if r = 0 then Some (S\<lparr>files := (files S)(f := None), puts := Put_node (of_node fl) # Devfs_close (of_node fl) # puts S\<rparr>)
             else Some (S\<lparr>files := (files S)(f \<mapsto> fl\<lparr>of_refs := r\<rparr>)\<rparr>))"

definition add_ref :: "fptr \<Rightarrow> fstore \<Rightarrow> fstore option" where
  "add_ref f S =
     (case files S f of None \<Rightarrow> None
      | Some fl \<Rightarrow> Some (S\<lparr>files := (files S)(f \<mapsto> fl\<lparr>of_refs := of_refs fl + 1\<rparr>)\<rparr>))"

definition close_fd :: "int \<Rightarrow> fstore \<Rightarrow> fd_task option \<Rightarrow> (int \<times> fstore \<times> fd_task option) option" where
  "close_fd fd S t0 =
     (case get_file fd t0 of None \<Rightarrow> Some (- 1, S, t0)
      | Some f \<Rightarrow>
          let t = lower_hint (nat fd) (fd_bit_clear (set_slot (nat fd) None (the t0)) (nat fd))
          in map_option (\<lambda>S'. (0, S', Some t)) (drop_ref f S))"

text \<open>The loop every exit path of the scheduler runs over the whole table.\<close>

fun close_all :: "nat list \<Rightarrow> fstore \<Rightarrow> fd_task \<Rightarrow> (fstore \<times> fd_task) option" where
  "close_all [] S t = Some (S, t)"
| "close_all (i # is) S t =
     (case close_fd (int_of_fd i) S (Some t) of
        Some (_, S', Some t') \<Rightarrow> close_all is S' t' | _ \<Rightarrow> None)"

text \<open>
  \<^verbatim>\<open>sys_open\<close> from the point where the node is held: \<open>p\<close> is what \<^verbatim>\<open>kzalloc\<close>
  returns for the new file, \<open>dev_ok\<close> whether \<^verbatim>\<open>devfs_open_file\<close> succeeds.
\<close>

definition sys_open_tail ::
  "(nat \<Rightarrow> nat \<Rightarrow> bool) \<Rightarrow> fptr option \<Rightarrow> bool \<Rightarrow> nat \<Rightarrow> fstore \<Rightarrow> fd_task \<Rightarrow>
     (int \<times> fstore \<times> fd_task) option" where
  "sys_open_tail kc p dev_ok node S t =
     (case alloc_fd kc (Some t) of
        Some (fd, Some t1) \<Rightarrow>
          let put = S\<lparr>puts := Put_node node # puts S\<rparr> in
          if fd < 0 then Some (- 1, put, t1)
          else (case p of
              None \<Rightarrow> Some (- 1, put, the (release_reserved_fd fd (Some t1)))
            | Some f \<Rightarrow>
                if \<not> dev_ok then Some (- 1, put, the (release_reserved_fd fd (Some t1)))
                else Some (fd,
                  S\<lparr>files := (files S)(f \<mapsto> \<lparr>of_node = node, of_offset = 0, of_refs = 1\<rparr>)\<rparr>,
                  set_slot (nat fd) (Some f) t1))
      | _ \<Rightarrow> None)"

definition sys_dup2 ::
  "(nat \<Rightarrow> nat \<Rightarrow> bool) \<Rightarrow> int \<Rightarrow> int \<Rightarrow> fstore \<Rightarrow> fd_task \<Rightarrow> (int \<times> fstore \<times> fd_task) option" where
  "sys_dup2 kc oldfd newfd S t =
     (case get_file oldfd (Some t) of None \<Rightarrow> Some (- 1, S, t)
      | Some f \<Rightarrow>
        if newfd < 0 \<or> newfd \<ge> 512 then Some (- 1, S, t)
        else if oldfd = newfd then Some (newfd, S, t)
        else (case expand_table kc (nat newfd + 1) (Some t) of
            Some (True, Some t1) \<Rightarrow>
              (case (if the (fd_table t1) ! nat newfd \<noteq> None then close_fd newfd S (Some t1)
                     else Some (0, S, Some t1)) of
                 Some (rc, S1, Some t2) \<Rightarrow>
                   if rc \<noteq> 0 then Some (- 1, S1, t2)
                   else (case add_ref f S1 of None \<Rightarrow> None
                     | Some S2 \<Rightarrow>
                       (case reserve_fd kc newfd (Some (set_slot (nat newfd) (Some f) t2)) of
                          Some (True, Some t3) \<Rightarrow> Some (newfd, S2, t3)
                        | Some (False, Some t3) \<Rightarrow>
                            map_option (\<lambda>S3. (- 1, S3, set_slot (nat newfd) None t3))
                              (case files S2 f of None \<Rightarrow> None
                               | Some fl \<Rightarrow> Some (S2\<lparr>files := (files S2)(f \<mapsto>
                                   fl\<lparr>of_refs := (if of_refs fl > 0 then of_refs fl - 1 else of_refs fl)\<rparr>)\<rparr>))
                        | _ \<Rightarrow> None))
               | _ \<Rightarrow> None)
          | Some (_, Some t1) \<Rightarrow> Some (- 1, S, t1)
          | _ \<Rightarrow> None))"

text \<open>
  The descriptor half of clone: the child's table is a copy, and every file it names gains a
  reference. Without memory for either array no child is made. When the kernel stack or the
  floating-point area cannot be had afterwards (\<open>late_ok\<close> false), \<^verbatim>\<open>free_failed_clone\<close> gives the
  references of the copy back.
\<close>

fun add_refs :: "fptr option list \<Rightarrow> fstore \<Rightarrow> fstore option" where
  "add_refs [] S = Some S"
| "add_refs (None # fs) S = add_refs fs S"
| "add_refs (Some f # fs) S = (case add_ref f S of None \<Rightarrow> None | Some S' \<Rightarrow> add_refs fs S')"

fun release_fd_table_refs :: "fptr option list \<Rightarrow> fstore \<Rightarrow> fstore option" where
  "release_fd_table_refs [] S = Some S"
| "release_fd_table_refs (None # fs) S = release_fd_table_refs fs S"
| "release_fd_table_refs (Some f # fs) S =
     (case drop_ref f S of None \<Rightarrow> None | Some S' \<Rightarrow> release_fd_table_refs fs S')"

definition clone_fds ::
  "(nat \<Rightarrow> nat \<Rightarrow> bool) \<Rightarrow> bool \<Rightarrow> fstore \<Rightarrow> fd_task \<Rightarrow> (fstore \<times> fd_task option) option" where
  "clone_fds kc late_ok S parent =
     (if \<not> kc (fd_capacity parent) 8 \<or> \<not> kc (fd_bitmap_words (fd_capacity parent)) 8
      then Some (S, None)
      else Option.bind (add_refs (the (fd_table parent)) S)
        (\<lambda>S1. if late_ok
           then Some (S1, Some \<lparr>fd_table = fd_table parent, fd_bitmap = fd_bitmap parent,
                  fd_capacity = fd_capacity parent, next_fd_hint = next_fd_hint parent\<rparr>)
           else map_option (\<lambda>S2. (S2, None)) (release_fd_table_refs (the (fd_table parent)) S1)))"

text \<open>The table of a new task, and the console descriptors of the first user task.\<close>

definition spawn_fds :: fd_task where
  "spawn_fds = \<lparr>fd_table = Some (replicate INITIAL_FD_CAPACITY None),
     fd_bitmap = Some (replicate (fd_bitmap_words INITIAL_FD_CAPACITY) 0),
     fd_capacity = INITIAL_FD_CAPACITY, next_fd_hint = 0\<rparr>"

definition install_init_stdio :: "fptr \<Rightarrow> nat \<Rightarrow> fstore \<Rightarrow> fd_task \<Rightarrow> fstore \<times> fd_task" where
  "install_init_stdio f con S t =
     (S\<lparr>files := (files S)(f \<mapsto> \<lparr>of_node = con, of_offset = 0, of_refs = 2\<rparr>)\<rparr>,
      let t1 = set_slot 2 (Some f) (set_slot 1 (Some f) (set_slot 0 None t));
          t2 = t1\<lparr>fd_bitmap := map_option
                 (\<lambda>bm. bm[0 := bm ! 0 OR (push_bit 1 1 OR push_bit 2 1)]) (fd_bitmap t1)\<rparr>
      in if next_fd_hint t2 < 3 then t2\<lparr>next_fd_hint := 3\<rparr> else t2)"

section \<open>Reference counting\<close>

text \<open>
  \<open>tcount t f\<close> descriptors of \<open>t\<close> name the file \<open>f\<close>. \<open>refs_for cnt S\<close>: the store holds exactly
  the files some descriptor names, each with the number of descriptors as its count.
\<close>

definition tcount :: "fd_task \<Rightarrow> fptr \<Rightarrow> nat" where
  "tcount t f = card {i. slot t i = Some f}"

definition refs_for :: "(fptr \<Rightarrow> nat) \<Rightarrow> fstore \<Rightarrow> bool" where
  "refs_for cnt S \<longleftrightarrow>
     (\<forall>f. case files S f of None \<Rightarrow> cnt f = 0
          | Some fl \<Rightarrow> unat (of_refs fl) = cnt f \<and> 0 < cnt f)"

lemma slots_subset: "fd_wf t \<Longrightarrow> {i. slot t i = Some f} \<subseteq> {..<fd_capacity t}"
  by (auto elim!: fd_wfE split: if_splits)

lemma slots_finite: "fd_wf t \<Longrightarrow> finite {i. slot t i = Some f}"
  by (rule finite_subset [OF slots_subset]) auto

lemma tcount_le: "fd_wf t \<Longrightarrow> tcount t f \<le> fd_capacity t"
  unfolding tcount_def by (drule slots_subset [of _ f], drule card_mono [rotated]) simp_all

lemma tcount_pos:
  assumes "fd_wf t" and "slot t i = Some f"
  shows "0 < tcount t f"
proof -
  have "i \<in> {i. slot t i = Some f}" using assms(2) by simp
  then have "{i. slot t i = Some f} \<noteq> {}" by (rule_tac notI) simp
  then show ?thesis
    unfolding tcount_def card_gt_0_iff using slots_finite [OF assms(1)] by (rule conjI)
qed

lemma tcount_unset:
  assumes "fd_wf t" and "slot t i = Some f" and "slot t' = (slot t)(i := None)"
  shows "tcount t' g = (if g = f then tcount t g - 1 else tcount t g)"
proof -
  have "{j. slot t' j = Some g} = {j. slot t j = Some g} - (if g = f then {i} else {})"
    using assms(2,3) by auto
  then show ?thesis
    using slots_finite [OF assms(1), of f] assms(2) by (auto simp: tcount_def)
qed

lemma tcount_set:
  assumes "fd_wf t" and "slot t i = None" and "slot t' = (slot t)(i \<mapsto> f)"
  shows "tcount t' g = (if g = f then tcount t g + 1 else tcount t g)"
proof -
  have "{j. slot t' j = Some g} = (if g = f then {i} else {}) \<union> {j. slot t j = Some g}"
    using assms(2,3) by auto
  then show ?thesis
    using slots_finite [OF assms(1), of f] assms(2) by (auto simp: tcount_def)
qed

lemma refs_forD:
  assumes "refs_for cnt S" and "0 < cnt f"
  obtains fl where "files S f = Some fl" "unat (of_refs fl) = cnt f"
  using assms(1) [unfolded refs_for_def, rule_format, of f] assms(2) that
  by (cases "files S f") auto

lemma refs_for_puts [simp]: "refs_for c (S\<lparr>puts := p\<rparr>) = refs_for c S"
  by (simp add: refs_for_def)

lemma refs_for_upd:
  assumes "refs_for cnt S"
    and "case x of None \<Rightarrow> n = 0 | Some fl \<Rightarrow> unat (of_refs fl) = n \<and> 0 < n"
  shows "refs_for (cnt(f := n)) (S\<lparr>files := (files S)(f := x)\<rparr>)"
  unfolding refs_for_def
proof
  fix g
  show "case files (S\<lparr>files := (files S)(f := x)\<rparr>) g of None \<Rightarrow> (cnt(f := n)) g = 0
    | Some fl \<Rightarrow> unat (of_refs fl) = (cnt(f := n)) g \<and> 0 < (cnt(f := n)) g"
    using assms(2) assms(1) [unfolded refs_for_def, rule_format, of g] by (cases "g = f"; cases x; cases "files S g") simp_all
qed

lemma drop_ref_ok:
  assumes "refs_for cnt S" and "0 < cnt f"
  shows "\<exists>S'. drop_ref f S = Some S' \<and> refs_for (cnt(f := cnt f - 1)) S'"
proof -
  obtain fl where fl: "files S f = Some fl" "unat (of_refs fl) = cnt f"
    using refs_forD [OF assms(1,2)] by blast
  have pos: "of_refs fl > 0" using fl(2) assms(2) by (auto simp: word_gt_0)
  then have u: "unat (of_refs fl - 1) = cnt f - 1"
    using fl(2) by (simp add: unat_minus_one word_gt_0)
  show ?thesis
  proof (cases "of_refs fl - 1 = 0")
    case True
    then have "cnt f - 1 = 0" using u by simp
    then show ?thesis
      using True pos fl refs_for_upd [OF assms(1), where x = None and n = "cnt f - 1" and f = f]
      by (simp add: drop_ref_def Let_def)
  next
    case False
    then have "0 < cnt f - 1" using u by (metis unat_eq_zero gr0I)
    then show ?thesis
      using False pos fl u refs_for_upd [OF assms(1), where x = "Some (fl\<lparr>of_refs := of_refs fl - 1\<rparr>)"]
      by (simp add: drop_ref_def Let_def)
  qed
qed

lemma add_ref_ok:
  assumes "refs_for cnt S" and "0 < cnt f" and "cnt f + 1 < 2 ^ 32"
  shows "\<exists>S'. add_ref f S = Some S' \<and> refs_for (cnt(f := cnt f + 1)) S'"
proof -
  obtain fl where fl: "files S f = Some fl" "unat (of_refs fl) = cnt f"
    using refs_forD [OF assms(1,2)] by blast
  have "unat (of_refs fl + 1) = cnt f + 1"
    using fl(2) assms(3) by (simp add: unat_word_ariths)
  then show ?thesis
    using fl refs_for_upd [OF assms(1), where x = "Some (fl\<lparr>of_refs := of_refs fl + 1\<rparr>)"]
    by (simp add: add_ref_def)
qed

lemma refs_for_cong: "refs_for c S \<Longrightarrow> (\<And>f. c f = d f) \<Longrightarrow> refs_for d S"
  using ext [of c d] by simp

section \<open>Slots and the operations on files\<close>

lemma set_slot_simps [simp]:
  "fd_capacity (set_slot i x t) = fd_capacity t" "used (set_slot i x t) = used t"
  "next_fd_hint (set_slot i x t) = next_fd_hint t" "fd_bitmap (set_slot i x t) = fd_bitmap t"
  by (simp_all add: set_slot_def used_def fd_bit_get_def cong: option.case_cong)

lemma set_slot_wf:
  assumes "fd_wf t" and "i < fd_capacity t" and "x = None \<or> i \<in> used t"
  shows "fd_wf (set_slot i x t)" "slot (set_slot i x t) = (slot t)(i := x)"
proof -
  obtain tb bm where t: "fd_table t = Some tb" "fd_bitmap t = Some bm" "length tb = fd_capacity t"
    "length bm = fd_bitmap_words (fd_capacity t)"
    "fd_capacity t \<le> UINT32_MAX" "next_fd_hint t \<le> fd_capacity t"
    and b: "\<forall>fd<fd_capacity t. tb ! fd \<noteq> None \<longrightarrow> bm_bit bm fd"
    and c: "\<forall>fd \<in> {fd_capacity t..<64 * length bm}. \<not> bm_bit bm fd"
    using assms(1) by (auto simp: fd_wf_def split: option.splits)
  have u: "bm_bit bm i" if "i \<in> used t"
    using that t(2) by (simp add: used_def fd_bit_get_alt)
  show "fd_wf (set_slot i x t)"
    unfolding fd_wf_def using t b c assms(2,3) u
    by (auto simp: set_slot_def nth_list_update)
  show "slot (set_slot i x t) = (slot t)(i := x)"
    using t assms(2) by (auto simp: set_slot_def slot_def fun_eq_iff)
qed

lemma get_file_slot:
  "fd_wf t \<Longrightarrow> get_file fd (Some t) = (if 0 \<le> fd then slot t (nat fd) else None)"
  by (auto simp: fd_wf_def slot_def split: option.splits)

declare get_file.simps [simp del]

lemma slot_lt: "fd_wf t \<Longrightarrow> slot t i = Some f \<Longrightarrow> i < fd_capacity t"
  using slots_subset by blast

lemma close_fd_ok:
  assumes wf: "fd_wf t" and refs: "refs_for (\<lambda>g. tcount t g + R g) S"
  shows "\<exists>r S' t'. close_fd fd S (Some t) = Some (r, S', Some t') \<and> fd_wf t' \<and>
    refs_for (\<lambda>g. tcount t' g + R g) S' \<and>
    slot t' = (if 0 \<le> fd then (slot t)(nat fd := None) else slot t) \<and>
    fd_capacity t' = fd_capacity t \<and> (hint_exact t \<longrightarrow> hint_exact t') \<and>
    r = (if 0 \<le> fd \<and> slot t (nat fd) \<noteq> None then 0 else - 1)"
proof (cases "get_file fd (Some t)")
  case None
  then show ?thesis
    using assms by (auto simp: close_fd_def get_file_slot fun_eq_iff split: if_splits)
next
  case (Some f)
  then have fd: "0 \<le> fd" "slot t (nat fd) = Some f"
    using get_file_slot [OF wf] by (auto split: if_splits)
  define t1 where "t1 = set_slot (nat fd) None t"
  have lt: "nat fd < fd_capacity t" using slot_lt [OF wf fd(2)] .
  have t1: "fd_wf t1" "slot t1 = (slot t)(nat fd := None)" "used t1 = used t"
    "fd_capacity t1 = fd_capacity t" "next_fd_hint t1 = next_fd_hint t"
    using set_slot_wf [OF wf lt, of None] by (simp_all add: t1_def)
  have lt1: "nat fd < fd_capacity t1" "slot t1 (nat fd) = None" using lt t1 by simp_all
  note b = bit_clear_wf [OF t1(1) lt1]
  note l = lower_hint_wf [OF b(1), of "nat fd"]
  obtain S' where S': "drop_ref f S = Some S'"
    "refs_for ((\<lambda>g. tcount t g + R g)(f := tcount t f + R f - 1)) S'"
    using drop_ref_ok [OF refs, of f] tcount_pos [OF wf fd(2)] by auto
  let ?t' = "lower_hint (nat fd) (fd_bit_clear t1 (nat fd))"
  have sl: "slot ?t' = (slot t)(nat fd := None)" using l(3) b(3) t1(2) b(4) lt1 by simp
  have "refs_for (\<lambda>g. tcount ?t' g + R g) S'"
    by (rule refs_for_cong [OF S'(2)])
      (use tcount_unset [OF wf fd(2) sl] tcount_pos [OF wf fd(2)] in auto)
  moreover have "hint_exact t \<longrightarrow> hint_exact ?t'"
    using clear_exact [OF _ t1(1) lt1] t1(3,5) by (simp add: hint_exact_def)
  ultimately show ?thesis
    using Some fd S'(1) l b t1 lt1 sl by (simp add: close_fd_def Let_def t1_def)
qed

lemma skip_used_set_slot [simp]: "skip_used (set_slot i x t) h = skip_used t h"
proof (induction t h rule: skip_used.induct)
  case (1 t h)
  have g: "fd_bit_get (set_slot i x t) h = fd_bit_get t h"
    by (simp add: fd_bit_get_def cong: option.case_cong)
  show ?case
    by (subst (1 2) skip_used.simps) (use 1 g in auto)
qed

lemma bit_set_set_slot: "fd_bit_set (set_slot i x t) fd = set_slot i x (fd_bit_set t fd)"
  by (simp add: fd_bit_set_def set_slot_def split: option.split)

lemma set_slot_hint:
  "(set_slot i x t)\<lparr>next_fd_hint := h\<rparr> = set_slot i x (t\<lparr>next_fd_hint := h\<rparr>)"
  by (simp add: set_slot_def)

text \<open>Reserving a descriptor inside the capacity cannot fail, whatever its slot holds.\<close>

lemma reserve_in_range:
  assumes wf: "fd_wf t" and fd: "0 \<le> fd" "fd < 512" "nat fd < fd_capacity t"
  obtains t' where "reserve_fd kc fd (Some (set_slot (nat fd) x t)) = Some (True, Some t')"
    "fd_wf t'" "slot t' = (slot t)(nat fd := x)" "used t' = insert (nat fd) (used t)"
    "fd_capacity t' = fd_capacity t" "hint_exact t \<Longrightarrow> hint_exact t'"
proof -
  have e: "expand_table kc (nat fd + 1) (Some (set_slot j y t)) = Some (True, Some (set_slot j y t))" for j y
    using wf fd(3) by (auto simp: expand_table.simps(2) set_slot_def fd_wf_def split: option.splits)
  have e0: "expand_table kc (nat fd + 1) (Some t) = Some (True, Some t)"
    using wf fd(3) by (auto simp: expand_table.simps(2) fd_wf_def split: option.splits)
  have "fd \<noteq> INT32_MAX" using fd(2) by (simp add: INT32_MAX_def)
  then have r: "reserve_fd kc fd (Some v) = Some (True, Some
      (let w = fd_bit_set v (nat fd) in
       if nat fd = next_fd_hint w then w\<lparr>next_fd_hint := skip_used w (next_fd_hint w)\<rparr> else w))"
    if "expand_table kc (nat fd + 1) (Some v) = Some (True, Some v)" for v
    using that fd(1) by (simp add: Let_def del: One_nat_def)
  define t1 where "t1 = (let w = fd_bit_set t (nat fd) in
       if nat fd = next_fd_hint w then w\<lparr>next_fd_hint := skip_used w (next_fd_hint w)\<rparr> else w)"
  have t1: "reserve_fd kc fd (Some t) = Some (True, Some t1)" "fd_capacity t1 = fd_capacity t"
    "reserve_fd kc fd (Some (set_slot (nat fd) x t)) = Some (True, Some (set_slot (nat fd) x t1))"
    using r [OF e0] r [OF e [of "nat fd" x]] bit_set_wf(4) [OF wf fd(3)]
    by (simp_all add: t1_def Let_def bit_set_set_slot set_slot_hint del: reserve_fd.simps)
  obtain u where u: "Some t1 = Some u" "fd_wf u" "slot u = slot t" "used u = insert (nat fd) (used t)"
      "hint_exact t \<Longrightarrow> hint_exact u"
    using reserve_fd_wf [OF wf t1(1)] by metis
  note s = set_slot_wf [of t1 "nat fd" x]
  show ?thesis
    by (rule that [OF t1(3)]) (use u s t1(2) fd(3) in \<open>auto simp: hint_exact_def\<close>)
qed

lemma sys_dup2_ok:
  assumes wf: "fd_wf t" and refs: "refs_for (\<lambda>g. tcount t g + R g) S"
    and room: "\<And>g. tcount t g + R g + 1 < 2 ^ 32"
  shows "\<exists>r S' t'. sys_dup2 kc oldfd newfd S t = Some (r, S', t') \<and> fd_wf t' \<and>
    refs_for (\<lambda>g. tcount t' g + R g) S' \<and> (hint_exact t \<longrightarrow> hint_exact t') \<and>
    (if r = - 1 then slot t' = slot t
     else r = newfd \<and> slot t' = (slot t)(nat newfd := slot t (nat oldfd)) \<and> slot t' (nat newfd) \<noteq> None) \<and>
    ((\<forall>n k. kc n k) \<and> 0 \<le> oldfd \<and> slot t (nat oldfd) \<noteq> None \<and> 0 \<le> newfd \<and> newfd < 512 \<longrightarrow> r = newfd)"
proof (cases "get_file oldfd (Some t)")
  case None
  then show ?thesis using assms get_file_slot [OF wf, of oldfd] by (auto simp: sys_dup2_def split: if_splits)
next
  case (Some f)
  then have old: "0 \<le> oldfd" "slot t (nat oldfd) = Some f"
    using get_file_slot [OF wf] by (auto split: if_splits)
  note d = sys_dup2_def Some
  consider (bad) "newfd < 0 \<or> newfd \<ge> 512" | (same) "\<not> (newfd < 0 \<or> newfd \<ge> 512)" "oldfd = newfd"
    | (go) "0 \<le> newfd" "newfd < 512" "oldfd \<noteq> newfd" by linarith
  then show ?thesis
  proof cases
    case bad
    then show ?thesis using wf refs by (auto simp add: d)
  next
    case same
    then show ?thesis
      using wf refs old Some by (intro exI [of _ newfd] exI [of _ S] exI [of _ t])
        (auto simp: sys_dup2_def fun_upd_idem)
  next
    case go
    from expand_wf [OF wf, of kc "nat newfd + 1"] show ?thesis
    proof (elim disjE exE conjE)
      assume e: "expand_table kc (nat newfd + 1) (Some t) = Some (False, Some t)"
      have "nat newfd + 1 \<le> UINT32_MAX" using go by (simp add: UINT32_MAX_def)
      then have "\<not> (\<forall>n k. kc n k)" using expand_succeeds [OF wf, of "nat newfd + 1" kc] e by auto
      then show ?thesis using e go wf refs by (simp add: d)
    next
      fix t1 assume t1: "expand_table kc (nat newfd + 1) (Some t) = Some (True, Some t1)"
        "fd_wf t1" "same_fds t t1" "nat newfd + 1 \<le> fd_capacity t1"
      have sl: "slot t1 = slot t" using t1(3) by (auto simp: same_fds_def)
      have tc: "tcount t1 = tcount t" using sl by (simp add: tcount_def fun_eq_iff)
      have nth: "the (fd_table t1) ! nat newfd = slot t1 (nat newfd)"
        using t1(2,4) by (auto simp: fd_wf_def slot_def split: option.splits)
      have "refs_for (\<lambda>g. tcount t1 g + R g) S" using refs tc by simp
      then obtain S1 t2 where c: "(if the (fd_table t1) ! nat newfd \<noteq> None
            then close_fd newfd S (Some t1) else Some (0, S, Some t1)) = Some (0, S1, Some t2)"
        and t2: "fd_wf t2" "slot t2 = (slot t1)(nat newfd := None)" "fd_capacity t2 = fd_capacity t1"
          "hint_exact t1 \<longrightarrow> hint_exact t2"
        and refs2: "refs_for (\<lambda>g. tcount t2 g + R g) S1"
        using close_fd_ok [OF t1(2), of R S newfd] go(1) t1(2)
        by (cases "slot t1 (nat newfd)") (auto simp: nth fun_upd_idem)
      have f2: "slot t2 (nat oldfd) = Some f" using old go t2(2) sl by simp
      have "tcount t2 f \<le> tcount t f"
        unfolding tcount_def by (rule card_mono [OF slots_finite [OF wf]]) (auto simp: t2(2) sl)
      then have "tcount t2 f + R f + 1 < 2 ^ 32" using room [of f] by simp
      then obtain S2 where S2: "add_ref f S1 = Some S2"
        "refs_for ((\<lambda>g. tcount t2 g + R g)(f := tcount t2 f + R f + 1)) S2"
        using add_ref_ok [OF refs2, of f] tcount_pos [OF t2(1) f2] by auto
      have "nat newfd < fd_capacity t2" using t1(4) t2(3) by simp
      then obtain t3 where t3: "reserve_fd kc newfd (Some (set_slot (nat newfd) (Some f) t2)) =
          Some (True, Some t3)" "fd_wf t3" "slot t3 = (slot t2)(nat newfd \<mapsto> f)"
          "hint_exact t2 \<Longrightarrow> hint_exact t3"
        using reserve_in_range [OF t2(1) go(1,2), of kc "Some f"] by metis
      have tc3: "tcount t3 g = (if g = f then tcount t2 g + 1 else tcount t2 g)" for g
        by (rule tcount_set [OF t2(1) _ t3(3)]) (simp add: t2(2))
      have "refs_for (\<lambda>g. tcount t3 g + R g) S2"
        by (rule refs_for_cong [OF S2(2)]) (simp add: tc3)
      moreover have "sys_dup2 kc oldfd newfd S t = Some (newfd, S2, t3)"
        using go t1(1) c S2(1) t3(1) by (simp add: d)
      moreover have "slot t3 = (slot t)(nat newfd := slot t (nat oldfd))"
        using t3(3) t2(2) sl old by simp
      ultimately show ?thesis
        using t3(2,4) t2(4) hint_exact_same [OF t1(3)] go(1) old by auto
    qed
  qed
qed

lemma int_of_fd: "fd < 2 ^ 31 \<Longrightarrow> int_of_fd fd = int fd"
  by (simp add: int_of_fd_def signed_of_nat signed_take_bit_int_eq_self)

lemma int_of_fd_nonneg: "fd < 2 ^ 32 \<Longrightarrow> 0 \<le> int_of_fd fd \<Longrightarrow> int_of_fd fd = int fd"
proof -
  assume fd: "fd < 2 ^ 32" "0 \<le> int_of_fd fd"
  then have "\<not> bit (of_nat fd :: 32 word) 31"
    using bit_last_iff [of "of_nat fd :: 32 word"] by (simp add: int_of_fd_def)
  then have "\<not> bit fd 31" by (simp add: bit_simps)
  then have "fd < 2 ^ 31"
    using fd(1) by (simp add: bit_nat_def div_nat_eqI odd_iff_mod_2_eq_one)
  then show ?thesis by (rule int_of_fd)
qed

lemma sys_open_tail_ok:
  assumes wf: "fd_wf t" and refs: "refs_for (\<lambda>g. tcount t g + R g) S"
    and fresh: "\<And>f. p = Some f \<Longrightarrow> files S f = None"
  shows "\<exists>r S' t'. sys_open_tail kc p dev_ok node S t = Some (r, S', t') \<and> fd_wf t' \<and>
    refs_for (\<lambda>g. tcount t' g + R g) S'"
proof -
  have put: "refs_for (\<lambda>g. tcount t' g + R g) (S\<lparr>puts := Put_node node # puts S\<rparr>)" if "slot t' = slot t" for t'
    using refs that by (simp add: tcount_def)
  from alloc_fd_cases [OF wf, of kc] show ?thesis
  proof (elim disjE exE conjE)
    fix t1 assume "alloc_fd kc (Some t) = Some (- 1, Some t1)" "fd_wf t1" "same_fds t t1"
    then show ?thesis
      using put [of t1] by (auto simp: sys_open_tail_def same_fds_def fun_eq_iff simp del: alloc_fd.simps)
  next
    fix t1 fd assume a: "alloc_fd kc (Some t) = Some (take_fd t1 fd)"
      and t1: "fd_wf t1" "same_fds t t1" "fd < fd_capacity t1" "fd \<notin> used t"
    obtain t2 where t2: "take_fd t1 fd = (int_of_fd fd, Some t2)" "fd_wf t2"
      "used t2 = insert fd (used t1)" "slot t2 = slot t1" "fd_capacity t2 = fd_capacity t1"
      using take_fd_wf [OF t1(1,3)] by metis
    have sl: "slot t2 = slot t" using t2(4) t1(2) by (auto simp: same_fds_def)
    have free: "slot t2 fd = None"
      using t1(4) wf sl by (auto elim!: fd_wfE simp del: not_None_eq split: if_splits)
    note d = sys_open_tail_def a t2(1) Let_def
    show ?thesis
    proof (cases "int_of_fd fd < 0")
      case True
      then show ?thesis using put [OF sl] t2(2) by (simp add: d del: alloc_fd.simps)
    next
      case False
      obtain t3 where t3: "release_reserved_fd (int_of_fd fd) (Some t2) = Some t3" "fd_wf t3"
        "slot t3 = slot t2"
        using release_reserved_fd_wf [OF t2(2)] by metis
      show ?thesis
      proof (cases "p = None \<or> \<not> dev_ok")
        case True
        then show ?thesis
          using False t3 put [of t3] sl by (cases p) (auto simp: d simp del: alloc_fd.simps)
      next
        case opened: False
        then obtain f where p: "p = Some f" "dev_ok" "files S f = None" using fresh by auto
        have lt: "fd < 2 ^ 32"
          using t1(1,3) by (auto elim!: fd_wfE simp: UINT32_MAX_def)
        then have n: "nat (int_of_fd fd) = fd" using False int_of_fd_nonneg [of fd] by simp
        let ?S = "S\<lparr>files := (files S)(f \<mapsto> \<lparr>of_node = node, of_offset = 0, of_refs = 1\<rparr>)\<rparr>"
        have c0: "tcount t f + R f = 0"
          using refs [unfolded refs_for_def, rule_format, of f] p(3) by simp
        have ss: "fd_wf (set_slot fd (Some f) t2)" "slot (set_slot fd (Some f) t2) = (slot t2)(fd \<mapsto> f)"
          using set_slot_wf [OF t2(2), of fd "Some f"] t1(3) t2(3,5) by simp_all
        have tc: "tcount (set_slot fd (Some f) t2) g = (if g = f then tcount t2 g + 1 else tcount t2 g)" for g
          by (rule tcount_set [OF t2(2) free ss(2)])
        have "refs_for ((\<lambda>g. tcount t g + R g)(f := 1)) ?S"
          by (rule refs_for_upd [OF refs]) simp
        then have "refs_for (\<lambda>g. tcount (set_slot fd (Some f) t2) g + R g) ?S"
          by (rule refs_for_cong) (use c0 in \<open>simp add: tc, simp add: tcount_def sl\<close>)
        then show ?thesis using False p(1,2) n ss(1) by (simp add: d del: alloc_fd.simps)
      qed
    qed
  qed
qed

lemma tcount_list: "fd_wf t \<Longrightarrow> tcount t f = count_list (the (fd_table t)) (Some f)"
  by (auto simp: tcount_def slot_def fd_wf_def count_list_eq_length_filter length_filter_conv_card
      split: option.splits intro!: arg_cong [where f = card])

lemma add_refs_ok:
  "refs_for cnt S \<Longrightarrow> (\<And>f. Some f \<in> set fs \<Longrightarrow> 0 < cnt f) \<Longrightarrow>
   (\<And>f. cnt f + count_list fs (Some f) < 2 ^ 32) \<Longrightarrow>
   \<exists>S'. add_refs fs S = Some S' \<and> refs_for (\<lambda>f. cnt f + count_list fs (Some f)) S'"
proof (induction fs arbitrary: cnt S)
  case (Cons x fs)
  show ?case
  proof (cases x)
    case None
    then show ?thesis using Cons.IH [OF Cons.prems(1)] Cons.prems(2,3) by simp
  next
    case (Some f)
    have "cnt f + 1 < 2 ^ 32" using Cons.prems(3) [of f] Some by simp
    then obtain S1 where S1: "add_ref f S = Some S1" "refs_for (cnt(f := cnt f + 1)) S1"
      using add_ref_ok [OF Cons.prems(1), of f] Cons.prems(2) [of f] Some by auto
    have "\<exists>S'. add_refs fs S1 = Some S' \<and>
        refs_for (\<lambda>g. (cnt(f := cnt f + 1)) g + count_list fs (Some g)) S'"
    proof (rule Cons.IH [OF S1(2)])
      fix g
      show "0 < (cnt(f := cnt f + 1)) g" if "Some g \<in> set fs"
        using Cons.prems(2) [of g] that by auto
      show "(cnt(f := cnt f + 1)) g + count_list fs (Some g) < 2 ^ 32"
        using Cons.prems(3) [of g] Some by (auto split: if_splits)
    qed
    then obtain S2 where "add_refs fs S1 = Some S2"
      and "refs_for (\<lambda>g. (cnt(f := cnt f + 1)) g + count_list fs (Some g)) S2" by blast
    moreover from this(2) have "refs_for (\<lambda>g. cnt g + count_list (x # fs) (Some g)) S2"
      by (rule refs_for_cong) (simp add: Some)
    ultimately show ?thesis using S1(1) Some by simp
  qed
qed simp

lemma release_refs_ok:
  "refs_for (\<lambda>f. cnt f + count_list fs (Some f)) S \<Longrightarrow>
   \<exists>S'. release_fd_table_refs fs S = Some S' \<and> refs_for cnt S'"
proof (induction fs arbitrary: S)
  case (Cons x fs)
  show ?case
  proof (cases x)
    case None
    then show ?thesis using Cons by simp
  next
    case (Some f)
    obtain S1 where S1: "drop_ref f S = Some S1"
      "refs_for ((\<lambda>g. cnt g + count_list (x # fs) (Some g))(f := cnt f + count_list (x # fs) (Some f) - 1)) S1"
      using drop_ref_ok [OF Cons.prems, of f] Some by auto
    from S1(2) have "refs_for (\<lambda>g. cnt g + count_list fs (Some g)) S1" by (rule refs_for_cong) (simp add: Some)
    then show ?thesis using Cons.IH S1(1) Some by auto
  qed
qed simp

lemma clone_fds_ok:
  assumes wf: "fd_wf t" and refs: "refs_for (\<lambda>g. tcount t g + R g) S"
    and room: "\<And>g. tcount t g + R g + tcount t g < 2 ^ 32"
  shows "\<exists>S' c. clone_fds kc late_ok S t = Some (S', c) \<and>
    (case c of None \<Rightarrow> refs_for (\<lambda>g. tcount t g + R g) S'
     | Some child \<Rightarrow> fd_wf child \<and> slot child = slot t \<and> used child = used t \<and>
         refs_for (\<lambda>g. tcount child g + tcount t g + R g) S')"
proof (cases "\<not> kc (fd_capacity t) 8 \<or> \<not> kc (fd_bitmap_words (fd_capacity t)) 8")
  case True
  then show ?thesis using refs by (simp add: clone_fds_def)
next
  case False
  let ?c = "\<lparr>fd_table = fd_table t, fd_bitmap = fd_bitmap t, fd_capacity = fd_capacity t,
    next_fd_hint = next_fd_hint t\<rparr>"
  have c: "fd_wf ?c" "slot ?c = slot t" "used ?c = used t"
    using wf by (simp_all add: fd_wf_def slot_def fun_eq_iff used_def fd_bit_get_def cong: option.case_cong)
  have "0 < tcount t f + R f" if "Some f \<in> set (the (fd_table t))" for f
    using that tcount_list [OF wf, of f] count_list_0_iff [of "the (fd_table t)" "Some f"] by auto
  then obtain S' where S': "add_refs (the (fd_table t)) S = Some S'"
    "refs_for (\<lambda>f. tcount t f + R f + count_list (the (fd_table t)) (Some f)) S'"
    using add_refs_ok [OF refs, of "the (fd_table t)"] room
    by (auto simp: tcount_list [OF wf, symmetric])
  have "refs_for (\<lambda>g. tcount ?c g + tcount t g + R g) S'"
    by (rule refs_for_cong [OF S'(2)]) (simp add: tcount_list [OF wf, symmetric], simp add: tcount_def c(2))
  moreover obtain S2 where "release_fd_table_refs (the (fd_table t)) S' = Some S2" "refs_for (\<lambda>g. tcount t g + R g) S2"
    using release_refs_ok [OF S'(2)] by blast
  ultimately show ?thesis using False S'(1) c by (cases late_ok) (simp_all add: clone_fds_def)
qed

lemma close_all_ok:
  "fd_wf t \<Longrightarrow> refs_for (\<lambda>g. tcount t g + R g) S \<Longrightarrow>
   \<exists>S' t'. close_all is S t = Some (S', t') \<and> fd_wf t' \<and> refs_for (\<lambda>g. tcount t' g + R g) S' \<and>
     (\<forall>i. slot t i = None \<or> i < 2 ^ 31 \<and> i \<in> set is \<longrightarrow> slot t' i = None)"
proof (induction "is" arbitrary: S t)
  case (Cons i "is")
  obtain r S1 t1 where c: "close_fd (int_of_fd i) S (Some t) = Some (r, S1, Some t1)" "fd_wf t1"
    "refs_for (\<lambda>g. tcount t1 g + R g) S1"
    "slot t1 = (if 0 \<le> int_of_fd i then (slot t)(nat (int_of_fd i) := None) else slot t)"
    using close_fd_ok [OF Cons.prems] by blast
  obtain S' t' where r: "close_all is S1 t1 = Some (S', t')" "fd_wf t'"
    "refs_for (\<lambda>g. tcount t' g + R g) S'"
    "\<forall>i. slot t1 i = None \<or> i < 2 ^ 31 \<and> i \<in> set is \<longrightarrow> slot t' i = None"
    using Cons.IH [OF c(2,3)] by blast
  have "slot t1 j = None" if "slot t j = None \<or> j = i \<and> j < 2 ^ 31" for j
    using that c(4) by (auto simp: int_of_fd split: if_splits)
  then show ?case using c(1) r by auto
qed simp

section \<open>All tasks together\<close>

text \<open>
  A state is the store and the tables of all live tasks; the outcome \<open>None\<close> of a step is an
  access to a freed file. A new file lies at an address that holds none, and the counts are
  32 bits wide: the steps that take references assume the total stays below that.
\<close>

type_synonym fdsys = "fstore \<times> fd_task list"

definition slot_total :: "fd_task list \<Rightarrow> fptr \<Rightarrow> nat" where
  "slot_total ts f = (\<Sum>t\<leftarrow>ts. tcount t f)"

inductive fd_step :: "fdsys \<Rightarrow> fdsys option \<Rightarrow> bool" where
  step_spawn: "fd_step (S, ts) (Some (S, spawn_fds # ts))"
| step_stdio: "files S f = None \<Longrightarrow>
    fd_step (S, ts) (case install_init_stdio f con S spawn_fds of (S', t) \<Rightarrow> Some (S', t # ts))"
| step_open: "(\<And>f. p = Some f \<Longrightarrow> files S f = None) \<Longrightarrow>
    fd_step (S, xs @ t # ys)
      (map_option (\<lambda>(r, S', t'). (S', xs @ t' # ys)) (sys_open_tail kc p dev_ok node S t))"
| step_dup2: "(\<And>f. slot_total (xs @ t # ys) f + 1 < 2 ^ 32) \<Longrightarrow>
    fd_step (S, xs @ t # ys)
      (map_option (\<lambda>(r, S', t'). (S', xs @ t' # ys)) (sys_dup2 kc oldfd newfd S t))"
| step_close:
    "fd_step (S, xs @ t # ys)
      (map_option (\<lambda>(r, S', t'). (S', xs @ the t' # ys)) (close_fd fd S (Some t)))"
| step_clone: "(\<And>f. slot_total (t # xs @ t # ys) f < 2 ^ 32) \<Longrightarrow>
    fd_step (S, xs @ t # ys)
      (map_option (\<lambda>(S', c). (S', case c of None \<Rightarrow> xs @ t # ys | Some child \<Rightarrow> child # xs @ t # ys))
        (clone_fds kc late_ok S t))"
| step_exit: "fd_capacity t \<le> 2 ^ 31 \<Longrightarrow>
    fd_step (S, xs @ t # ys)
      (map_option (\<lambda>(S', t'). (S', xs @ ys)) (close_all [0..<fd_capacity t] S t))"

inductive fd_reach :: "fdsys \<Rightarrow> bool" where
  reach_init: "fd_reach (\<lparr>files = \<lambda>f. None, puts = []\<rparr>, [])"
| reach_step: "fd_reach s \<Longrightarrow> fd_step s (Some s') \<Longrightarrow> fd_reach s'"

definition fd_inv :: "fdsys \<Rightarrow> bool" where
  "fd_inv s \<longleftrightarrow> (\<forall>t \<in> set (snd s). fd_wf t) \<and> refs_for (slot_total (snd s)) (fst s)"

lemma slot_total_simps [simp]:
  "slot_total [] f = 0" "slot_total (t # ts) f = tcount t f + slot_total ts f"
  "slot_total (xs @ ys) f = slot_total xs f + slot_total ys f"
  by (simp_all add: slot_total_def)

lemma spawn_fds_wf: "fd_wf spawn_fds" "slot spawn_fds = (\<lambda>i. None)" "used spawn_fds = {}"
  "hint_exact spawn_fds"
  by (auto simp: spawn_fds_def fd_wf_def slot_def used_def fd_bit_get_alt hint_exact_def bm_bit_def
      fd_consts fd_bitmap_words_def fun_eq_iff)

lemma tcount_empty: "slot t = (\<lambda>i. None) \<Longrightarrow> tcount t f = 0"
  by (simp add: tcount_def)

lemma refs_split:
  "refs_for (slot_total (xs @ t # ys)) S \<longleftrightarrow> refs_for (\<lambda>g. tcount t g + slot_total (xs @ ys) g) S"
  by (intro arg_cong2 [where f = refs_for]) (simp_all add: fun_eq_iff)

lemma spawn_fds_eq:
  "spawn_fds = \<lparr>fd_table = Some [None, None, None, None, None, None, None, None],
     fd_bitmap = Some [0], fd_capacity = 8, next_fd_hint = 0\<rparr>"
  by code_simp

lemma install_init_stdio_eq:
  "snd (install_init_stdio f con S spawn_fds) =
     \<lparr>fd_table = Some [None, Some f, Some f, None, None, None, None, None],
      fd_bitmap = Some [6], fd_capacity = 8, next_fd_hint = 3\<rparr>"
  by (simp add: install_init_stdio_def spawn_fds_eq set_slot_def numeral_2_eq_2)

lemma install_init_stdio_ok:
  assumes refs: "refs_for R S" and fresh: "files S f = None"
  shows "case install_init_stdio f con S spawn_fds of (S', t) \<Rightarrow>
    fd_wf t \<and> refs_for (\<lambda>g. tcount t g + R g) S' \<and> used t = {1, 2}"
proof -
  define t where "t = snd (install_init_stdio f con S spawn_fds)"
  have t: "t = \<lparr>fd_table = Some [None, Some f, Some f, None, None, None, None, None],
      fd_bitmap = Some [6], fd_capacity = 8, next_fd_hint = 3\<rparr>"
    unfolding t_def by (rule install_init_stdio_eq)
  have c: "tcount t g = (if g = f then 2 else 0)" for g
  proof -
    have "{i. slot t i = Some g} = (if g = f then {1, 2} else {})"
      by (auto simp: t slot_def nth_Cons' split: if_splits)
    then show ?thesis by (simp add: tcount_def)
  qed
  have b: "bm_bit [6] i \<longleftrightarrow> i = 1 \<or> i = 2" if "i < 64" for i
  proof -
    have "bit (2 ^ 1 OR 2 ^ 2 :: u64) i \<longleftrightarrow> i = 1 \<or> i = 2"
      by (simp only: bit_or_iff bit_exp_iff) auto
    then show ?thesis using that by (simp add: bm_bit_def)
  qed
  have wf: "fd_wf t"
    by (auto simp: fd_wf_def t b fd_consts fd_bitmap_words_def nth_Cons' split: if_splits)
  have u: "used t = {1, 2}"
    by (auto simp: used_def fd_bit_get_alt t b)
  have "R f = 0" using refs [unfolded refs_for_def, rule_format, of f] fresh by simp
  moreover have "refs_for (R(f := 2)) (fst (install_init_stdio f con S spawn_fds))"
    unfolding install_init_stdio_def fst_conv by (rule refs_for_upd [OF refs]) simp
  ultimately have "refs_for (\<lambda>g. tcount t g + R g) (fst (install_init_stdio f con S spawn_fds))"
    by (elim refs_for_cong) (simp add: c)
  then show ?thesis using wf u by (simp add: t_def split_def)
qed

lemma fd_step_ok:
  assumes inv: "fd_inv s" and step: "fd_step s r"
  shows "\<exists>s'. r = Some s' \<and> fd_inv s'"
  using step inv
proof cases
  case (step_spawn S ts)
  have "refs_for (slot_total (spawn_fds # ts)) S" if "refs_for (slot_total ts) S"
    by (rule refs_for_cong [OF that]) (simp add: tcount_empty [OF spawn_fds_wf(2)])
  then show ?thesis using inv step_spawn spawn_fds_wf(1) by (simp add: fd_inv_def)
next
  case (step_stdio S f ts con)
  obtain S' t where i: "install_init_stdio f con S spawn_fds = (S', t)" by fastforce
  have "fd_wf t" "refs_for (\<lambda>g. tcount t g + slot_total ts g) S'"
    using install_init_stdio_ok [of "slot_total ts" S f con] inv step_stdio i by (auto simp: fd_inv_def)
  moreover from this(2) have "refs_for (slot_total (t # ts)) S'" by (rule refs_for_cong) simp
  ultimately show ?thesis using inv step_stdio i by (simp add: fd_inv_def)
next
  case (step_open p S xs t ys kc dev_ok node)
  then obtain q S' t' where "sys_open_tail kc p dev_ok node S t = Some (q, S', t')" "fd_wf t'"
    "refs_for (\<lambda>g. tcount t' g + slot_total (xs @ ys) g) S'"
    using sys_open_tail_ok [of t "slot_total (xs @ ys)" S p kc dev_ok node] inv
    by (auto simp: fd_inv_def refs_split)
  then show ?thesis using inv step_open by (simp add: fd_inv_def refs_split)
next
  case (step_dup2 xs t ys S kc oldfd newfd)
  then obtain q S' t' where "sys_dup2 kc oldfd newfd S t = Some (q, S', t')" "fd_wf t'"
    "refs_for (\<lambda>g. tcount t' g + slot_total (xs @ ys) g) S'"
    using sys_dup2_ok [of t "slot_total (xs @ ys)" S kc oldfd newfd] inv
    by (auto simp: fd_inv_def refs_split ac_simps)
  then show ?thesis using inv step_dup2 by (simp add: fd_inv_def refs_split)
next
  case (step_close S xs t ys fd)
  then obtain q S' t' where "close_fd fd S (Some t) = Some (q, S', Some t')" "fd_wf t'"
    "refs_for (\<lambda>g. tcount t' g + slot_total (xs @ ys) g) S'"
    using close_fd_ok [of t "slot_total (xs @ ys)" S fd] inv by (auto simp: fd_inv_def refs_split)
  then show ?thesis using inv step_close by (simp add: fd_inv_def refs_split)
next
  case (step_clone t xs ys S kc late_ok)
  then obtain S' c where c: "clone_fds kc late_ok S t = Some (S', c)"
    "case c of None \<Rightarrow> refs_for (\<lambda>g. tcount t g + slot_total (xs @ ys) g) S'
     | Some child \<Rightarrow> fd_wf child \<and> slot child = slot t \<and> used child = used t \<and>
         refs_for (\<lambda>g. tcount child g + tcount t g + slot_total (xs @ ys) g) S'"
    using clone_fds_ok [of t "slot_total (xs @ ys)" S kc late_ok] inv
    by (auto simp: fd_inv_def refs_split ac_simps)
  show ?thesis
  proof (cases c)
    case None
    then show ?thesis using inv step_clone c by (simp add: fd_inv_def refs_split)
  next
    case (Some child)
    then have "fd_wf child" "refs_for (\<lambda>g. tcount child g + tcount t g + slot_total (xs @ ys) g) S'"
      using c(2) by auto
    moreover from this(2) have "refs_for (slot_total (child # xs @ t # ys)) S'"
      by (rule refs_for_cong) simp
    ultimately show ?thesis using Some inv step_clone c(1) by (simp add: fd_inv_def)
  qed
next
  case (step_exit t S xs ys)
  then obtain S' t' where e: "close_all [0..<fd_capacity t] S t = Some (S', t')"
    "refs_for (\<lambda>g. tcount t' g + slot_total (xs @ ys) g) S'"
    "\<forall>i. slot t i = None \<or> i < 2 ^ 31 \<and> i \<in> set [0..<fd_capacity t] \<longrightarrow> slot t' i = None"
    using close_all_ok [of t "slot_total (xs @ ys)" S "[0..<fd_capacity t]"] inv
    by (auto simp: fd_inv_def refs_split)
  have wf: "fd_wf t" using inv step_exit by (simp add: fd_inv_def)
  have "slot t' i = None" for i
    using e(3) slot_lt [OF wf, of i] step_exit(3) by (cases "slot t i") auto
  then have "tcount t' g = 0" for g by (intro tcount_empty) auto
  then have "refs_for (slot_total (xs @ ys)) S'" by (intro refs_for_cong [OF e(2)]) simp
  then show ?thesis using inv step_exit e(1) by (simp add: fd_inv_def)
qed

lemma fd_reach_inv: "fd_reach s \<Longrightarrow> fd_inv s"
proof (induction rule: fd_reach.induct)
  case reach_init
  then show ?case by (simp add: fd_inv_def refs_for_def)
next
  case (reach_step s s')
  then show ?case using fd_step_ok by blast
qed

lemma alloc_fd_not_failed:
  assumes "fd_wf t" and "\<And>n k. kc n k" and "8 \<le> fd_capacity t" and "fd_capacity t < 2 ^ 31"
    and fail: "alloc_fd kc (Some t) = Some (- 1, Some t1)"
  shows False
proof -
  have e: "expand_table kc INITIAL_FD_CAPACITY (Some t) = Some (True, Some t)"
    using assms(1,3) by (auto simp: expand_table.simps(2) fd_wf_def INITIAL_FD_CAPACITY_def split: option.splits)
  obtain t2 where e2: "expand_table kc (fd_capacity t + 1) (Some t) = Some (True, Some t2)"
    using expand_succeeds [OF assms(1), of "fd_capacity t + 1" kc] assms(2,4) by (auto simp: UINT32_MAX_def)
  have nofail: "take_fd u fd \<noteq> (- 1, w)" if "fd \<le> fd_capacity t" for u fd w
    using int_of_fd [of fd] that assms(4) by (auto simp: take_fd_def)
  let ?s = "next_fd_hint t div 64" and ?n = "fd_bitmap_words (fd_capacity t)"
  have sn: "?s \<le> ?n"
    using assms(1) words_bound(1) [of "fd_capacity t"] by (auto elim!: fd_wfE)
  have small: "fd \<le> fd_capacity t" if "alloc_scan t ?n [a..<b] = Some fd" "b \<le> ?n" for a b fd
    using alloc_scan_spec [OF assms(1) that(2), of a] that(1) by simp
  have c: "Suc (fd_capacity t) \<le> UINT32_MAX" using assms(4) by (simp add: UINT32_MAX_def)
  note a = fail [unfolded alloc_fd.simps [of kc "Some t"]] e clamp_hint_wf [OF assms(1)] FD_BITS_PER_WORD_def
  show False
  proof (cases "alloc_scan t ?n [?s..<?n]")
    case (Some fd)
    then show ?thesis using a nofail [OF small [OF Some order.refl]] by simp
  next
    case first: None
    show ?thesis
    proof (cases "alloc_scan t ?n [0..<?s]")
      case (Some fd)
      then show ?thesis using a first nofail [OF small [OF Some sn]] by simp
    next
      case None
      then show ?thesis
        using a first e2 c assms(3) nofail [OF order.refl, of t2] by (simp add: Let_def not_less)
    qed
  qed
qed

section \<open>Properties\<close>

text \<open>
  C16: no sequence of spawning, opening, duplicating, closing, cloning and exiting ever
  touches a freed file: from every reachable state every such step completes, the tables stay
  well formed, and a file exists exactly while some descriptor of some task names it, with
  its reference count equal to the number of those descriptors.
\<close>
theorem fd_files_safe:
  assumes "fd_reach s" and "fd_step s r"
  shows "\<exists>S ts. r = Some (S, ts) \<and> (\<forall>t \<in> set ts. fd_wf t) \<and>
    (\<forall>f. case files S f of
           None \<Rightarrow> slot_total ts f = 0
         | Some fl \<Rightarrow> unat (of_refs fl) = slot_total ts f \<and> 0 < slot_total ts f)"
  using fd_step_ok [OF fd_reach_inv [OF assms(1)] assms(2)]
  by (clarsimp simp: fd_inv_def refs_for_def) (simp cong: option.case_cong)

theorem fd_files_safe_witness:
  "\<exists>S ts. Some (\<lparr>files = \<lambda>f. None, puts = []\<rparr>, [spawn_fds]) = Some (S, ts) \<and>
    (\<forall>t \<in> set ts. fd_wf t) \<and>
    (\<forall>f. case files S f of
           None \<Rightarrow> slot_total ts f = 0
         | Some fl \<Rightarrow> unat (of_refs fl) = slot_total ts f \<and> 0 < slot_total ts f)"
  using fd_files_safe [OF reach_init step_spawn] by simp

text \<open>
  C17: descriptor allocation on every well-formed table, with memory available and fewer
  than \<^verbatim>\<open>INT_MAX\<close> descriptors: \<^verbatim>\<open>alloc_fd\<close> returns the lowest free descriptor from the word of the
  search hint on, or the lowest of all when none is free there, marks exactly that one, leaves every
  open descriptor in place and keeps the table well formed. It is the lowest free descriptor
  whenever everything below the hint is in use, and that is kept; on the table of the first
  task, where descriptor 0 is free below the hint, it need not be.
\<close>
theorem alloc_fd_correct:
  assumes "fd_wf t" and "\<And>n k. kc n k" and "INITIAL_FD_CAPACITY \<le> fd_capacity t" and "fd_capacity t < 2 ^ 31"
  shows "\<exists>fd t'. alloc_fd kc (Some t) = Some (int fd, Some t') \<and> fd_choice t fd \<and> used t' = insert fd (used t) \<and>
    (\<forall>i. slot t' i = slot t i) \<and> fd_wf t' \<and> (hint_exact t \<longrightarrow> (\<forall>j<fd. j \<in> used t) \<and> hint_exact t')"
proof -
  from alloc_fd_cases [OF assms(1), of kc] show ?thesis
  proof (elim disjE exE conjE)
    fix t1 assume a: "alloc_fd kc (Some t) = Some (- 1, Some t1)"
    show ?thesis
      using alloc_fd_not_failed [OF assms(1,2) _ assms(4) a] assms(3) by (simp add: INITIAL_FD_CAPACITY_def)
  next
    fix t1 d assume a: "alloc_fd kc (Some t) = Some (take_fd t1 d)"
      and t1: "fd_wf t1" "same_fds t t1" "d < fd_capacity t1" "d \<notin> used t"
        "INITIAL_FD_CAPACITY \<le> fd_capacity t \<longrightarrow> fd_choice t d"
    have ch: "fd_choice t d" using t1(5) assms(3) by blast
    have le: "d \<le> fd_capacity t"
    proof (rule ccontr)
      assume "\<not> d \<le> fd_capacity t"
      moreover have "fd_capacity t \<notin> used t" using used_lt [OF assms(1)] by blast
      moreover have "64 * (next_fd_hint t div 64) \<le> fd_capacity t" using assms(1) by (auto elim: fd_wfE)
      ultimately show False using ch unfolding fd_choice_def Let_def by (metis not_le)
    qed
    obtain t' where t': "take_fd t1 d = (int_of_fd d, Some t')" "fd_wf t'"
      "used t' = insert d (used t1)" "slot t' = slot t1" "\<forall>j<d. j \<in> used t1 \<Longrightarrow> hint_exact t'"
      using take_fd_wf [OF t1(1,3)] by metis
    have "int_of_fd d = int d" using le assms(4) by (intro int_of_fd) simp
    then have "alloc_fd kc (Some t) = Some (int d, Some t')" using a t'(1) by (simp del: alloc_fd.simps)
    moreover have "\<forall>j<d. j \<in> used t" if "hint_exact t" using fd_choice_lowest [OF ch that] by blast
    ultimately show ?thesis
      using t' t1(2) ch by (intro exI [of _ d] exI [of _ t']) (auto simp: same_fds_def simp del: alloc_fd.simps)
  qed
qed

text \<open>A table with descriptors 1 to 64 in use, as the first task has after 62 calls of \<open>dup2\<close>.\<close>

definition skewed :: fd_task where
  "skewed = \<lparr>fd_table = Some (None # replicate 64 (Some 0) @ replicate 63 None), fd_bitmap = Some [- 2, 1],
     fd_capacity = 128, next_fd_hint = 65\<rparr>"

lemma skewed_wf: "fd_wf skewed" "used skewed = {1..64}"
proof -
  have n: "(- 2 :: u64) = NOT 1" by simp
  have b: "bm_bit [- 2, 1] i \<longleftrightarrow> 0 < i \<and> i \<le> 64" if "i < 128" for i
  proof (cases "i < 64")
    case True
    then show ?thesis unfolding n by (simp add: bm_bit_def bit_not_iff bit_1_iff)
  next
    case False
    then have "i div 64 = 1" "i mod 64 = i - 64" using that by (simp_all add: div_nat_eqI mod_if)
    then show ?thesis using False by (auto simp: bm_bit_def bit_1_iff)
  qed
  have nth: "(None # replicate 64 (Some (0 :: nat)) @ replicate 63 None) ! i \<noteq> None \<longleftrightarrow> 0 < i \<and> i \<le> 64" if "i < 128" for i
    using that by (auto simp: nth_Cons' nth_append)
  show "fd_wf skewed" unfolding fd_wf_def skewed_def using b nth by (simp add: fd_consts fd_bitmap_words_def)
  show "used skewed = {1..64}" by (auto simp: used_def fd_bit_get_alt skewed_def b)
qed

theorem alloc_fd_correct_witness:
  "\<exists>t'. alloc_fd (\<lambda>n k. True) (Some skewed) = Some (65, Some t') \<and> used t' = insert 65 {1..64} \<and> 0 \<notin> used skewed"
proof -
  have "fd = 65" if "fd_choice skewed fd" for fd
  proof -
    have "\<exists>j. 64 \<le> j \<and> j < fd_capacity skewed \<and> j \<notin> used skewed" by (intro exI [of _ 65]) (simp add: skewed_wf, simp add: skewed_def)
    moreover have "64 * (next_fd_hint skewed div 64) = 64" by (simp add: skewed_def)
    ultimately have fd: "fd \<notin> {1..64}" "64 \<le> fd" "\<forall>j. 64 \<le> j \<and> j < fd \<longrightarrow> j \<in> {1..64}"
      using that unfolding fd_choice_def Let_def skewed_wf(2) by metis+
    have "fd \<noteq> 64" using fd(1) by auto
    moreover have "\<not> 65 < fd" using spec [OF fd(3), of 65] by simp
    ultimately show ?thesis using fd(2) by linarith
  qed
  note only = this
  have cap: "INITIAL_FD_CAPACITY \<le> fd_capacity skewed" "fd_capacity skewed < 2 ^ 31"
    by (simp_all add: skewed_def INITIAL_FD_CAPACITY_def)
  obtain fd t' where a: "alloc_fd (\<lambda>n k. True) (Some skewed) = Some (int fd, Some t')" "fd_choice skewed fd"
    "used t' = insert fd (used skewed)"
    using alloc_fd_correct [OF skewed_wf(1) TrueI cap] by (elim exE conjE) (rule that)
  have fd: "fd = 65" by (rule only [OF a(2)])
  have zero: "0 \<notin> used skewed" unfolding skewed_wf(2) by simp
  show ?thesis using a(1,3) zero unfolding fd skewed_wf(2) of_nat_numeral by blast
qed

text \<open>
  C18: \<^verbatim>\<open>dup2\<close> either fails and leaves every descriptor as it was, or makes the new
  descriptor name the old descriptor's file and leaves the others alone; the counts stay
  exact whatever the new descriptor named before, and the search hint stays exact. With memory
  available it succeeds for every open old descriptor and every new one below 512.
\<close>
theorem sys_dup2_correct:
  assumes "fd_wf t" and "refs_for (\<lambda>g. tcount t g + R g) S" and "\<And>g. tcount t g + R g + 1 < 2 ^ 32"
  shows "\<exists>r S' t'. sys_dup2 kc oldfd newfd S t = Some (r, S', t') \<and> fd_wf t' \<and>
    refs_for (\<lambda>g. tcount t' g + R g) S' \<and> (hint_exact t \<longrightarrow> hint_exact t') \<and>
    (if r = - 1 then slot t' = slot t
     else r = newfd \<and> slot t' = (slot t)(nat newfd := slot t (nat oldfd)) \<and> slot t' (nat newfd) \<noteq> None) \<and>
    ((\<forall>n k. kc n k) \<and> 0 \<le> oldfd \<and> slot t (nat oldfd) \<noteq> None \<and> 0 \<le> newfd \<and> newfd < 512 \<longrightarrow> r = newfd)"
  by (rule sys_dup2_ok [OF assms])

theorem sys_dup2_correct_witness:
  "\<exists>S' t'. sys_dup2 (\<lambda>n k. True) 1 5 (fst (install_init_stdio 9 4 \<lparr>files = \<lambda>f. None, puts = []\<rparr> spawn_fds))
       (snd (install_init_stdio 9 4 \<lparr>files = \<lambda>f. None, puts = []\<rparr> spawn_fds)) = Some (5, S', t') \<and>
     slot t' 5 = Some 9 \<and> slot t' 2 = Some 9 \<and> slot t' 0 = None \<and> refs_for (tcount t') S'"
proof -
  let ?S = "\<lparr>files = \<lambda>f. None, puts = []\<rparr> :: fstore"
  define t where "t = snd (install_init_stdio 9 4 ?S spawn_fds)"
  have t: "t = \<lparr>fd_table = Some [None, Some 9, Some 9, None, None, None, None, None],
      fd_bitmap = Some [6], fd_capacity = 8, next_fd_hint = 3\<rparr>"
    unfolding t_def by (rule install_init_stdio_eq)
  have ok: "fd_wf t" "refs_for (\<lambda>g. tcount t g + 0) (fst (install_init_stdio 9 4 ?S spawn_fds))"
    using install_init_stdio_ok [of "\<lambda>g. 0" ?S 9 4] unfolding t_def by (simp_all add: refs_for_def split_def)
  have "tcount t g + 0 + 1 < 2 ^ 32" for g using tcount_le [OF ok(1), of g] by (simp add: t)
  note d = sys_dup2_correct [OF ok this, of "\<lambda>n k. True" 1 5]
  have sl: "slot t 0 = None" "slot t 1 = Some 9" "slot t 2 = Some 9" by (simp_all add: t slot_def numeral_2_eq_2)
  obtain r S' t' where r: "sys_dup2 (\<lambda>n k. True) 1 5 (fst (install_init_stdio 9 4 ?S spawn_fds)) t = Some (r, S', t')"
    "refs_for (\<lambda>g. tcount t' g + 0) S'" "if r = - 1 then slot t' = slot t
     else r = 5 \<and> slot t' = (slot t)(nat 5 := slot t (nat 1)) \<and> slot t' (nat 5) \<noteq> None"
    "(\<forall>(n :: nat) (k :: nat). True) \<and> 0 \<le> (1 :: int) \<and> slot t (nat 1) \<noteq> None \<and> 0 \<le> (5 :: int) \<and> (5 :: int) < 512 \<longrightarrow> r = 5"
    using d by (elim exE conjE) (rule that)
  have r5: "r = 5" using r(4) sl(2) by simp
  have "slot t' = (slot t)(5 := slot t 1)" using r(3) r5 by simp
  then have "slot t' 5 = Some 9 \<and> slot t' 2 = Some 9 \<and> slot t' 0 = None" using sl by simp
  then show ?thesis using r(1,2) unfolding r5 t_def [symmetric] add_0_right by blast
qed

end
