(* ===== verification/Chacha_Rng.thy ===== *)
theory Chacha_Rng
  imports Prelude
begin

text \<open>
  The kernel's random number generator, \<^verbatim>\<open>src/src/impl/x86_64/security/random.cpp\<close>: a
  ChaCha20 key stream with its own rekeying, seeded from the time-stamp counter, the stack
  pointer, \<^verbatim>\<open>cpuid\<close>, \<^verbatim>\<open>rdrand\<close> and \<^verbatim>\<open>rdseed\<close>.

  The processor is a parameter, \<open>hw\<close>: the successive values of each instruction are streams,
  and the state carries how many have been read. \<open>None\<close> is the outcome of a wait on the
  time-stamp counter that never ends. The lock around the public entry points makes each of
  them one step; \<^verbatim>\<open>burn\<close> only clears locals.
\<close>

section \<open>State\<close>

record hw =
  tsc :: "nat \<Rightarrow> u64"
  rsp :: "nat \<Rightarrow> u64"
  rdrand :: "nat \<Rightarrow> u64 \<times> bool"
  rdseed :: "nat \<Rightarrow> u64 \<times> bool"
  cpuid_of :: "u32 \<Rightarrow> u32 \<Rightarrow> u32 \<times> u32 \<times> u32 \<times> u32"
  rng_addr :: u64
  init_addr :: u64

record rng_state =
  key :: "u32 list"
  counter :: u64
  nonce :: u64
  generated :: u64
  initialized :: bool
  have_rdrand :: bool
  have_rdseed :: bool
  seeded_by_hw :: bool
  tsc_n :: nat
  rsp_n :: nat
  rdrand_n :: nat
  rdseed_n :: nat

definition rdtsc :: "hw \<Rightarrow> rng_state \<Rightarrow> u64 \<times> rng_state" where
  "rdtsc h s = (tsc h (tsc_n s), s\<lparr>tsc_n := tsc_n s + 1\<rparr>)"

definition rsp_now :: "hw \<Rightarrow> rng_state \<Rightarrow> u64 \<times> rng_state" where
  "rsp_now h s = (rsp h (rsp_n s), s\<lparr>rsp_n := rsp_n s + 1\<rparr>)"

text \<open>At most 16 and 128 attempts; the value of the first that succeeds.\<close>

fun rdrand64 :: "nat \<Rightarrow> hw \<Rightarrow> rng_state \<Rightarrow> u64 option \<times> rng_state" where
  "rdrand64 0 h s = (None, s)"
| "rdrand64 (Suc tries) h s =
     (case rdrand h (rdrand_n s) of (v, ok) \<Rightarrow>
        let s = s\<lparr>rdrand_n := rdrand_n s + 1\<rparr>
        in if ok then (Some v, s) else rdrand64 tries h s)"

fun rdseed64 :: "nat \<Rightarrow> hw \<Rightarrow> rng_state \<Rightarrow> u64 option \<times> rng_state" where
  "rdseed64 0 h s = (None, s)"
| "rdseed64 (Suc tries) h s =
     (case rdseed h (rdseed_n s) of (v, ok) \<Rightarrow>
        let s = s\<lparr>rdseed_n := rdseed_n s + 1\<rparr>
        in if ok then (Some v, s) else rdseed64 tries h s)"

section \<open>The cipher\<close>

definition rotl32 :: "u32 \<Rightarrow> nat \<Rightarrow> u32" where
  "rotl32 x n = push_bit n x OR drop_bit (32 - n) x"

definition splitmix64 :: "u64 \<Rightarrow> u64 \<times> u64" where
  "splitmix64 x0 =
     (let x = x0 + 0x9e3779b97f4a7c15;
          z = x;
          z = (z XOR drop_bit 30 z) * 0xbf58476d1ce4e5b9;
          z = (z XOR drop_bit 27 z) * 0x94d049bb133111eb
      in (z XOR drop_bit 31 z, x))"

definition quarter :: "u32 \<times> u32 \<times> u32 \<times> u32 \<Rightarrow> u32 \<times> u32 \<times> u32 \<times> u32" where
  "quarter = (\<lambda>(a, b, c, d).
     let a = a + b; d = d XOR a; d = rotl32 d 16;
         c = c + d; b = b XOR c; b = rotl32 b 12;
         a = a + b; d = d XOR a; d = rotl32 d 8;
         c = c + d; b = b XOR c; b = rotl32 b 7
     in (a, b, c, d))"

text \<open>The quarter round on four words of the state array, read and written in place.\<close>

definition quarter_at :: "nat \<Rightarrow> nat \<Rightarrow> nat \<Rightarrow> nat \<Rightarrow> u32 list \<Rightarrow> u32 list" where
  "quarter_at i j k l x =
     (case quarter (x ! i, x ! j, x ! k, x ! l) of (a, b, c, d) \<Rightarrow>
        x[i := a, j := b, k := c, l := d])"

definition store32 :: "u32 \<Rightarrow> u8 list" where
  "store32 v = [ucast v, ucast (drop_bit 8 v), ucast (drop_bit 16 v), ucast (drop_bit 24 v)]"

definition load32 :: "u8 list \<Rightarrow> u32" where
  "load32 p = ucast (p ! 0) OR push_bit 8 (ucast (p ! 1)) OR push_bit 16 (ucast (p ! 2))
     OR push_bit 24 (ucast (p ! 3))"

definition chacha_input :: "rng_state \<Rightarrow> u32 list" where
  "chacha_input s =
     [0x61707865, 0x3320646e, 0x79622d32, 0x6b206574,
      key s ! 0, key s ! 1, key s ! 2, key s ! 3,
      key s ! 4, key s ! 5, key s ! 6, key s ! 7,
      ucast (counter s), ucast (drop_bit 32 (counter s)),
      ucast (nonce s), ucast (drop_bit 32 (nonce s))]"

definition double_round :: "u32 list \<Rightarrow> u32 list" where
  "double_round x =
     (let x = quarter_at 0 4 8 12 x;
          x = quarter_at 1 5 9 13 x;
          x = quarter_at 2 6 10 14 x;
          x = quarter_at 3 7 11 15 x;
          x = quarter_at 0 5 10 15 x;
          x = quarter_at 1 6 11 12 x;
          x = quarter_at 2 7 8 13 x
      in quarter_at 3 4 9 14 x)"

definition chacha20_block :: "rng_state \<Rightarrow> u8 list \<times> rng_state" where
  "chacha20_block s =
     (let inp = chacha_input s;
          x = (double_round ^^ 10) inp
      in (concat (map2 (\<lambda>a b. store32 (a + b)) x inp), s\<lparr>counter := counter s + 1\<rparr>))"

definition rekey :: "rng_state \<Rightarrow> rng_state" where
  "rekey s0 =
     (case chacha20_block s0 of (block, s) \<Rightarrow>
        s\<lparr>key := map (\<lambda>i. load32 (drop (i * 4) block)) [0..<8],
          nonce := nonce s XOR
            (push_bit 32 (ucast (load32 (drop 32 block))) OR ucast (load32 (drop 36 block)))\<rparr>)"

section \<open>Collecting entropy\<close>

text \<open>The loop of \<^verbatim>\<open>absorb64\<close> from iteration \<open>i\<close> on.\<close>

fun absorb_key :: "nat list \<Rightarrow> u64 \<Rightarrow> u32 list \<Rightarrow> u64 \<times> u32 list" where
  "absorb_key [] x k = (x, k)"
| "absorb_key (i # is) x k =
     (case splitmix64 x of (z, x) \<Rightarrow>
        let k = k[i := k ! i XOR ucast z];
            j = (i + 5) mod 8
        in absorb_key is x (k[j := k ! j XOR ucast (drop_bit 32 z)]))"

definition absorb64 :: "hw \<Rightarrow> u64 \<Rightarrow> rng_state \<Rightarrow> rng_state" where
  "absorb64 h v s0 =
     (case rdtsc h s0 of (t, s) \<Rightarrow>
      case absorb_key [0..<8] (v XOR t XOR push_bit 7 (rng_addr h)) (key s) of (x, k) \<Rightarrow>
      case splitmix64 x of (z1, x) \<Rightarrow>
      case splitmix64 x of (z2, x) \<Rightarrow>
        s\<lparr>key := k, nonce := nonce s XOR z1, counter := counter s + (z2 AND 0xffff) + 1\<rparr>)"

definition detect_cpu :: "hw \<Rightarrow> rng_state \<Rightarrow> rng_state" where
  "detect_cpu h s =
     (case cpuid_of h 0 0 of (max_basic, b, c, d) \<Rightarrow>
      let s = absorb64 h (push_bit 32 (ucast b) XOR ucast d) s;
          s = absorb64 h (push_bit 32 (ucast c) XOR ucast max_basic) s;
          s = (if max_basic \<ge> 1 then
                 (case cpuid_of h 1 0 of (a, b, c, d) \<Rightarrow>
                    absorb64 h (push_bit 32 (ucast a) XOR ucast b XOR push_bit 1 (ucast c) XOR ucast d)
                      (s\<lparr>have_rdrand := c AND push_bit 30 1 \<noteq> 0\<rparr>))
               else s)
      in if max_basic \<ge> 7 then
           (case cpuid_of h 7 0 of (a, b, c, d) \<Rightarrow>
              absorb64 h (push_bit 32 (ucast a) XOR ucast b XOR push_bit 1 (ucast c) XOR ucast d)
                (s\<lparr>have_rdseed := b AND push_bit 18 1 \<noteq> 0\<rparr>))
         else s)"

text \<open>Waiting for the time-stamp counter to move: the number of the reading that differs.\<close>

partial_function (option) wait_tsc :: "hw \<Rightarrow> u64 \<Rightarrow> nat \<Rightarrow> nat option" where
  "wait_tsc h last_tsc n = (if tsc h n = last_tsc then wait_tsc h last_tsc (n + 1) else Some n)"

fun jitter_loop :: "nat list \<Rightarrow> hw \<Rightarrow> u64 \<Rightarrow> u64 \<Rightarrow> rng_state \<Rightarrow> (u64 \<times> rng_state) option" where
  "jitter_loop [] h last_tsc acc s = Some (acc, s)"
| "jitter_loop (i # is) h last_tsc acc s =
     (case wait_tsc h last_tsc (tsc_n s) of None \<Rightarrow> None
      | Some n \<Rightarrow>
          let now = tsc h n
          in jitter_loop is h now
               (acc XOR ((now - last_tsc) + push_bit 13 acc + drop_bit 7 acc + of_nat i))
               (s\<lparr>tsc_n := n + 1\<rparr>))"

definition collect_jitter :: "nat \<Rightarrow> hw \<Rightarrow> rng_state \<Rightarrow> rng_state option" where
  "collect_jitter rounds h s0 =
     (case rdtsc h s0 of (last_tsc, s) \<Rightarrow>
      case rsp_now h s of (sp, s) \<Rightarrow>
        map_option (\<lambda>(acc, s). absorb64 h acc s)
          (jitter_loop [0..<rounds] h last_tsc (0x243f6a8885a308d3 XOR sp) s))"

definition absorb_hw :: "hw \<Rightarrow> u64 option \<times> rng_state \<Rightarrow> rng_state" where
  "absorb_hw h r =
     (case r of (None, s) \<Rightarrow> s | (Some v, s) \<Rightarrow> (absorb64 h v s)\<lparr>seeded_by_hw := True\<rparr>)"

definition collect_hw :: "hw \<Rightarrow> rng_state \<Rightarrow> rng_state" where
  "collect_hw h s =
     (let s = (if have_rdseed s then ((\<lambda>s. absorb_hw h (rdseed64 128 h s)) ^^ 8) s else s)
      in if have_rdrand s then ((\<lambda>s. absorb_hw h (rdrand64 16 h s)) ^^ 8) s else s)"

section \<open>Entry points\<close>

fun seed_key :: "nat \<Rightarrow> u64 \<Rightarrow> u32 list \<times> u64" where
  "seed_key 0 seed = ([], seed)"
| "seed_key (Suc n) seed =
     (case splitmix64 seed of (z, seed) \<Rightarrow>
      case seed_key n seed of (ks, seed) \<Rightarrow> (ucast z # ks, seed))"

definition init_locked :: "hw \<Rightarrow> rng_state \<Rightarrow> rng_state option" where
  "init_locked h s0 =
     (if initialized s0 then Some s0
      else
        case rdtsc h s0 of (t, s) \<Rightarrow>
        case rsp_now h s of (sp, s) \<Rightarrow>
        case seed_key 8 (t XOR sp XOR init_addr h XOR rng_addr h) of (ks, seed) \<Rightarrow>
        case splitmix64 seed of (c, seed) \<Rightarrow>
        case splitmix64 seed of (n, seed) \<Rightarrow>
          let s = s\<lparr>key := ks, counter := c, nonce := n, generated := 0,
                    have_rdrand := False, have_rdseed := False, seeded_by_hw := False\<rparr>;
              s = detect_cpu h s
          in (case collect_jitter 128 h s of None \<Rightarrow> None
              | Some s \<Rightarrow>
                  let s = collect_hw h s;
                      s = absorb64 h seed s
                  in Some ((rekey s)\<lparr>initialized := True\<rparr>)))"

definition init :: "hw \<Rightarrow> rng_state \<Rightarrow> rng_state option" where
  "init h s = init_locked h s"

text \<open>The loop of \<^verbatim>\<open>add_entropy\<close> over the bytes still to come, \<open>i\<close> the index of the first.\<close>

fun entropy_loop :: "hw \<Rightarrow> nat \<Rightarrow> u8 list \<Rightarrow> u64 \<Rightarrow> rng_state \<Rightarrow> u64 \<times> rng_state" where
  "entropy_loop h i [] acc s = (acc, s)"
| "entropy_loop h i (b # bs) acc s =
     (let acc = acc XOR push_bit ((i mod 8) * 8) (ucast b)
      in if i mod 8 = 7 then
           entropy_loop h (i + 1) bs (of_nat i XOR 0xa4093822299f31d0) (absorb64 h acc s)
         else entropy_loop h (i + 1) bs acc s)"

definition add_entropy :: "hw \<Rightarrow> u8 list option \<Rightarrow> rng_state \<Rightarrow> rng_state option" where
  "add_entropy h data s0 =
     (case data of None \<Rightarrow> Some s0
      | Some bs \<Rightarrow>
          if bs = [] then Some s0
          else (case init_locked h s0 of None \<Rightarrow> None
            | Some s \<Rightarrow>
                (case rdtsc h s of (t, s) \<Rightarrow>
                 case rsp_now h s of (sp, s) \<Rightarrow>
                 case entropy_loop h 0 bs (of_nat (length bs) XOR t XOR sp) s of (acc, s) \<Rightarrow>
                   Some (rekey (absorb64 h acc s)))))"

text \<open>The output loop of \<^verbatim>\<open>fill\<close>.\<close>

function fill_loop :: "nat \<Rightarrow> rng_state \<Rightarrow> u8 list \<times> rng_state" where
  "fill_loop len s =
     (if len = 0 then ([], s)
      else case chacha20_block s of (block, s) \<Rightarrow>
        let n = (if len < 64 then len else 64)
        in case fill_loop (len - n) (s\<lparr>generated := generated s + of_nat n\<rparr>) of (out, s) \<Rightarrow>
             (take n block @ out, s))"
  by auto
termination by (relation "measure (\<lambda>(len, s). len)") auto

declare fill_loop.simps [simp del]

definition fill_random :: "hw \<Rightarrow> nat \<Rightarrow> rng_state \<Rightarrow> (u8 list \<times> rng_state) option" where
  "fill_random h len s0 =
     (if len = 0 then Some ([], s0)
      else case init_locked h s0 of None \<Rightarrow> None
      | Some s \<Rightarrow>
          (case (if generated s \<ge> push_bit 20 1
                 then map_option (\<lambda>s. (rekey s)\<lparr>generated := 0\<rparr>) (collect_jitter 32 h (collect_hw h s))
                 else Some s) of
             None \<Rightarrow> None
           | Some s \<Rightarrow> (case fill_loop len s of (out, s) \<Rightarrow> Some (out, rekey s))))"

definition next_u64 :: "hw \<Rightarrow> rng_state \<Rightarrow> (u64 \<times> rng_state) option" where
  "next_u64 h s = map_option (\<lambda>(bs, s). (u64_of_bytes bs, s)) (fill_random h 8 s)"

section \<open>The key stream\<close>

text \<open>The block the generator would produce after \<open>i\<close> more blocks under the same key.\<close>

definition block_at :: "rng_state \<Rightarrow> nat \<Rightarrow> u8 list" where
  "block_at s i = fst (chacha20_block (s\<lparr>counter := counter s + of_nat i\<rparr>))"

definition blocks_for :: "nat \<Rightarrow> nat" where
  "blocks_for len = (len + 63) div 64"

definition rng_wf :: "rng_state \<Rightarrow> bool" where
  "rng_wf s \<longleftrightarrow> length (key s) = 8"

lemma length_quarter_at [simp]: "length (quarter_at i j k l x) = length x"
  by (simp add: quarter_at_def split: prod.split)

lemma length_double_round [simp]: "length (double_round x) = length x"
  by (simp add: double_round_def Let_def)

lemma length_rounds [simp]: "length ((double_round ^^ n) x) = length x"
  by (induction n) simp_all

lemma length_chacha_input [simp]: "length (chacha_input s) = 16"
  by (simp add: chacha_input_def)

lemma length_concat_words: "length (concat (map2 (\<lambda>a b. store32 (f a b)) xs ys)) = 4 * min (length xs) (length ys)"
proof (induction xs arbitrary: ys)
  case (Cons x xs)
  then show ?case by (cases ys) (simp_all add: store32_def)
qed simp

lemma length_block [simp]: "length (fst (chacha20_block s)) = 64"
  by (simp add: chacha20_block_def Let_def length_concat_words)

lemma block_state [simp]: "snd (chacha20_block s) = s\<lparr>counter := counter s + 1\<rparr>"
  by (simp add: chacha20_block_def Let_def)

lemma block_frame [simp]:
  "fst (chacha20_block (s\<lparr>generated := g\<rparr>)) = fst (chacha20_block s)"
  by (simp add: chacha20_block_def chacha_input_def Let_def)

lemma block_at_step:
  "block_at (s\<lparr>counter := counter s + 1, generated := g\<rparr>) i = block_at s (Suc i)"
  by (simp add: block_at_def chacha20_block_def chacha_input_def Let_def ac_simps)

lemma block_at_0: "block_at s 0 = fst (chacha20_block s)"
  by (simp add: block_at_def)

lemma length_block_at [simp]: "length (block_at s i) = 64"
  by (simp add: block_at_def)

lemma blocks_for_step: "64 \<le> len \<Longrightarrow> blocks_for len = Suc (blocks_for (len - 64))"
  by (simp add: blocks_for_def div_if)

lemma blocks_for_small: "0 < len \<Longrightarrow> len < 64 \<Longrightarrow> blocks_for len = 1"
  by (simp add: blocks_for_def div_if)

lemma fill_loop_stream:
  "fill_loop len s =
     (take len (concat (map (block_at s) [0..<blocks_for len])),
      s\<lparr>counter := counter s + of_nat (blocks_for len), generated := generated s + of_nat len\<rparr>)"
proof (induction len s rule: fill_loop.induct)
  case (1 len s)
  obtain block s1 where b: "chacha20_block s = (block, s1)" by fastforce
  have blk: "block = block_at s 0" "s1 = s\<lparr>counter := counter s + 1\<rparr>"
    using b block_at_0 [of s] block_state [of s] by simp_all
  consider (z) "len = 0" | (small) "0 < len" "len < 64" | (big) "64 \<le> len" by linarith
  then show ?case
  proof cases
    case z
    then show ?thesis by (simp add: fill_loop.simps blocks_for_def)
  next
    case small
    then have "fill_loop len s = (take len block, s1\<lparr>generated := generated s1 + of_nat len\<rparr>)"
      using b by (simp add: fill_loop.simps [of len] fill_loop.simps [of 0])
    then show ?thesis using blk small blocks_for_small [of len] by simp
  next
    case big
    let ?s = "s1\<lparr>generated := generated s1 + of_nat 64\<rparr>"
    have s: "?s = s\<lparr>counter := counter s + 1, generated := generated s + of_nat 64\<rparr>"
      by (simp add: blk)
    have "fill_loop (len - 64) ?s =
       (take (len - 64) (concat (map (block_at ?s) [0..<blocks_for (len - 64)])),
        ?s\<lparr>counter := counter ?s + of_nat (blocks_for (len - 64)),
          generated := generated ?s + of_nat (len - 64)\<rparr>)"
      using 1 [OF _ b [symmetric], of 64] big by simp
    then have "fill_loop len s = (take 64 block @
        take (len - 64) (concat (map (block_at ?s) [0..<blocks_for (len - 64)])),
        ?s\<lparr>counter := counter ?s + of_nat (blocks_for (len - 64)),
          generated := generated ?s + of_nat (len - 64)\<rparr>)"
      using big b by (subst fill_loop.simps) simp
    moreover have "map (block_at ?s) [0..<n] = map (block_at s) [1..<Suc n]" for n
    proof -
      have "[1..<Suc n] = map Suc [0..<n]" by (simp add: map_Suc_upt)
      then show ?thesis
        unfolding s by (simp only: map_map) (rule map_cong, simp, simp only: o_def block_at_step)
    qed
    moreover have "concat (map (block_at s) [0..<blocks_for len]) =
        block @ concat (map (block_at s) [1..<Suc (blocks_for (len - 64))])"
      using big blk by (simp add: blocks_for_step upt_conv_Cons del: upt_Suc)
    moreover have "counter ?s + of_nat (blocks_for (len - 64)) = counter s + of_nat (blocks_for len)"
      "generated ?s + of_nat (len - 64) = generated s + of_nat len"
      using big by (simp_all add: blocks_for_step blk of_nat_diff ac_simps)
    moreover have "length block = 64" by (simp add: blk)
    ultimately show ?thesis
      using big by (simp add: blk(2))
  qed
qed

section \<open>Invariant and termination\<close>

lemma rekey_wf: "rng_wf (rekey s)"
  by (simp add: rekey_def rng_wf_def split: prod.split)

lemma length_absorb_key [simp]: "length (snd (absorb_key is x k)) = length k"
  by (induction "is" arbitrary: x k) (simp_all add: Let_def split: prod.split)

lemma absorb64_wf: "rng_wf s \<Longrightarrow> rng_wf (absorb64 h v s)"
  by (simp add: absorb64_def rng_wf_def rdtsc_def split_beta)

lemma absorb64_frame [simp]:
  "initialized (absorb64 h v s) = initialized s" "generated (absorb64 h v s) = generated s"
  "have_rdrand (absorb64 h v s) = have_rdrand s" "have_rdseed (absorb64 h v s) = have_rdseed s"
  by (simp_all add: absorb64_def rdtsc_def split: prod.split)

lemma rng_wf_upd [simp]:
  "rng_wf (s\<lparr>generated := g\<rparr>) = rng_wf s" "rng_wf (s\<lparr>initialized := b\<rparr>) = rng_wf s"
  "rng_wf (s\<lparr>seeded_by_hw := b\<rparr>) = rng_wf s" "rng_wf (s\<lparr>counter := c\<rparr>) = rng_wf s"
  "rng_wf (s\<lparr>have_rdrand := b\<rparr>) = rng_wf s" "rng_wf (s\<lparr>have_rdseed := b\<rparr>) = rng_wf s"
  "rng_wf (s\<lparr>tsc_n := n\<rparr>) = rng_wf s" "rng_wf (s\<lparr>rsp_n := n\<rparr>) = rng_wf s"
  "rng_wf (s\<lparr>rdrand_n := n\<rparr>) = rng_wf s" "rng_wf (s\<lparr>rdseed_n := n\<rparr>) = rng_wf s"
  by (simp_all add: rng_wf_def)

lemma rdrand64_wf: "rng_wf s \<Longrightarrow> rng_wf (snd (rdrand64 n h s))"
  by (induction n h s rule: rdrand64.induct) (simp_all add: Let_def split: prod.split)

lemma rdseed64_wf: "rng_wf s \<Longrightarrow> rng_wf (snd (rdseed64 n h s))"
  by (induction n h s rule: rdseed64.induct) (simp_all add: Let_def split: prod.split)

lemma absorb_hw_wf: "rng_wf (snd r) \<Longrightarrow> rng_wf (absorb_hw h r)"
  by (cases r; cases "fst r") (simp_all add: absorb_hw_def absorb64_wf)

lemma funpow_wf: "(\<And>s. rng_wf s \<Longrightarrow> rng_wf (f s)) \<Longrightarrow> rng_wf s \<Longrightarrow> rng_wf ((f ^^ n) s)"
  by (induction n) simp_all

lemma collect_hw_wf: "rng_wf s \<Longrightarrow> rng_wf (collect_hw h s)"
  unfolding collect_hw_def Let_def
  by (auto intro!: funpow_wf absorb_hw_wf rdrand64_wf rdseed64_wf)

lemma absorb_hw_init: "initialized (snd r) = b \<Longrightarrow> initialized (absorb_hw h r) = b"
  by (cases r; cases "fst r") (simp_all add: absorb_hw_def)

lemma rd64_init [simp]:
  "initialized (snd (rdrand64 n h s)) = initialized s" "initialized (snd (rdseed64 n h s)) = initialized s"
  by (induction n arbitrary: s) (simp_all add: Let_def split_beta)

lemma funpow_init:
  fixes f :: "rng_state \<Rightarrow> rng_state"
  shows "(\<And>s. initialized (f s) = initialized s) \<Longrightarrow> initialized ((f ^^ n) s) = initialized s"
  by (induction n) simp_all

lemma collect_hw_init: "initialized (collect_hw h s) = initialized s"
  unfolding collect_hw_def Let_def by (simp add: funpow_init absorb_hw_init)

lemma detect_cpu_wf: "rng_wf s \<Longrightarrow> rng_wf (detect_cpu h s)"
  by (simp add: detect_cpu_def Let_def absorb64_wf split: prod.split)

text \<open>The time-stamp counter never stops for good.\<close>

definition tsc_moves :: "hw \<Rightarrow> bool" where
  "tsc_moves h \<longleftrightarrow> (\<forall>n. \<exists>m\<ge>n. tsc h m \<noteq> tsc h n)"

lemma wait_tsc_total:
  assumes "tsc_moves h"
  shows "\<exists>m\<ge>n. wait_tsc h v n = Some m \<and> tsc h m \<noteq> v"
proof -
  have "\<exists>m\<ge>n. tsc h m \<noteq> v"
    using assms unfolding tsc_moves_def by (metis order_refl)
  then obtain k where "tsc h (n + k) \<noteq> v" by (metis le_Suc_ex)
  then show ?thesis
  proof (induction k arbitrary: n)
    case 0
    then show ?case by (subst wait_tsc.simps) simp
  next
    case (Suc k)
    show ?case
    proof (cases "tsc h n = v")
      case True
      then show ?thesis using Suc.IH [of "n + 1"] Suc.prems by (subst wait_tsc.simps) auto
    next
      case False
      then show ?thesis by (subst wait_tsc.simps) simp
    qed
  qed
qed

lemma jitter_loop_total:
  assumes "tsc_moves h"
  shows "rng_wf s \<Longrightarrow> \<exists>acc' s'. jitter_loop is h v acc s = Some (acc', s') \<and> rng_wf s' \<and>
    initialized s' = initialized s"
proof (induction "is" arbitrary: v acc s)
  case (Cons i "is")
  obtain m where "wait_tsc h v (tsc_n s) = Some m" using wait_tsc_total [OF assms] by blast
  moreover have "\<exists>acc' s'. jitter_loop is h (tsc h m) a (s\<lparr>tsc_n := Suc m\<rparr>) = Some (acc', s') \<and>
      rng_wf s' \<and> initialized s' = initialized s" for a m
    using Cons.IH [of "s\<lparr>tsc_n := Suc m\<rparr>" "tsc h m" a] Cons.prems by simp
  ultimately show ?case by (simp add: Let_def)
qed simp

lemma collect_jitter_total:
  assumes "tsc_moves h" and "rng_wf s"
  shows "\<exists>s'. collect_jitter n h s = Some s' \<and> rng_wf s' \<and> initialized s' = initialized s"
proof -
  let ?s = "s\<lparr>tsc_n := tsc_n s + 1\<rparr>\<lparr>rsp_n := rsp_n s + 1\<rparr>"
  obtain acc s' where "jitter_loop [0..<n] h (tsc h (tsc_n s)) (0x243f6a8885a308d3 XOR rsp h (rsp_n s)) ?s =
      Some (acc, s')" "rng_wf s'" "initialized s' = initialized s"
    using jitter_loop_total [OF assms(1), of ?s "[0..<n]" "tsc h (tsc_n s)"] assms(2) by fastforce
  then show ?thesis by (simp add: collect_jitter_def rdtsc_def rsp_now_def absorb64_wf)
qed

lemma length_seed_key [simp]: "length (fst (seed_key n x)) = n"
  by (induction n arbitrary: x) (simp_all add: split_beta)

lemma init_locked_total:
  assumes "tsc_moves h" and "initialized s \<longrightarrow> rng_wf s"
  shows "\<exists>s'. init_locked h s = Some s' \<and> rng_wf s' \<and> initialized s'"
proof (cases "initialized s")
  case True
  then show ?thesis using assms(2) by (simp add: init_locked_def)
next
  case False
  define s1 where "s1 = s\<lparr>tsc_n := tsc_n s + 1\<rparr>\<lparr>rsp_n := rsp_n s + 1\<rparr>"
  define q where "q = seed_key 8 (tsc h (tsc_n s) XOR rsp h (rsp_n s) XOR init_addr h XOR rng_addr h)"
  define c where "c = splitmix64 (snd q)"
  define n where "n = splitmix64 (snd c)"
  define s2 where "s2 = detect_cpu h (s1\<lparr>key := fst q, counter := fst c, nonce := fst n, generated := 0,
    have_rdrand := False, have_rdseed := False, seeded_by_hw := False\<rparr>)"
  have "rng_wf s2"
    unfolding s2_def by (rule detect_cpu_wf) (simp add: rng_wf_def q_def)
  then obtain s3 where "collect_jitter 128 h s2 = Some s3"
    using collect_jitter_total [OF assms(1)] by blast
  then have "init_locked h s = Some ((rekey (absorb64 h (snd n) (collect_hw h s3)))\<lparr>initialized := True\<rparr>)"
    using False by (simp add: init_locked_def rdtsc_def rsp_now_def split_beta Let_def
        s1_def q_def c_def n_def s2_def)
  then show ?thesis by (simp add: rekey_wf)
qed

lemma rekey_frame [simp]: "initialized (rekey s) = initialized s" "generated (rekey s) = generated s"
  using block_state [of s] by (simp_all add: rekey_def split_beta)

lemma fill_random_stream:
  assumes "initialized s" and "generated s < 2 ^ 20" and "0 < len"
  shows "fill_random h len s =
    Some (take len (concat (map (block_at s) [0..<blocks_for len])),
          rekey (s\<lparr>counter := counter s + of_nat (blocks_for len),
                   generated := generated s + of_nat len\<rparr>))"
proof -
  have "\<not> generated s \<ge> push_bit 20 1"
    using assms(2) by (simp add: not_le push_bit_eq_mult)
  then show ?thesis
    using assms by (simp add: fill_random_def init_locked_def fill_loop_stream)
qed

lemma length_stream:
  "len \<le> 64 * blocks_for len \<and> length (concat (map (block_at s) [0..<n])) = 64 * n"
proof
  show "len \<le> 64 * blocks_for len"
    using div_mult_mod_eq [of "len + 63" 64] mod_less_divisor [of 64 "len + 63"]
    unfolding blocks_for_def by linarith
  show "length (concat (map (block_at s) [0..<n])) = 64 * n"
    by (induction n) simp_all
qed

lemma fill_random_total:
  assumes "tsc_moves h" and "initialized s \<longrightarrow> rng_wf s"
  shows "\<exists>out s'. fill_random h len s = Some (out, s') \<and> length out = len \<and>
    (len = 0 \<or> rng_wf s' \<and> initialized s')"
proof (cases "len = 0")
  case False
  obtain s1 where s1: "init_locked h s = Some s1" "rng_wf s1" "initialized s1"
    using init_locked_total [OF assms] by blast
  obtain s2 where s2: "(if generated s1 \<ge> push_bit 20 1
      then map_option (\<lambda>s. (rekey s)\<lparr>generated := 0\<rparr>) (collect_jitter 32 h (collect_hw h s1))
      else Some s1) = Some s2" "initialized s2"
    using collect_jitter_total [OF assms(1) collect_hw_wf [OF s1(2)], of 32 h] s1(3)
    by (cases "generated s1 \<ge> push_bit 20 1") (auto simp: collect_hw_init)
  obtain out s3 where f: "fill_loop len s2 = (out, s3)" by fastforce
  have "length out = len" "initialized s3"
    using f s2(2) length_stream [of len s2 "blocks_for len"] by (auto simp: fill_loop_stream)
  then show ?thesis
    using False s1(1) s2(1) f rekey_wf [of s3] by (simp add: fill_random_def)
qed (simp add: fill_random_def)

section \<open>The permutation\<close>

definition rotr32 :: "u32 \<Rightarrow> nat \<Rightarrow> u32" where
  "rotr32 x n = drop_bit n x OR push_bit (32 - n) x"

lemma rot_inverse: "n < 32 \<Longrightarrow> rotr32 (rotl32 x n) n = x" "n < 32 \<Longrightarrow> rotl32 (rotr32 x n) n = x"
proof -
  assume n: "n < 32"
  have "bit (rotr32 (rotl32 x n) n) i = bit x i" "bit (rotl32 (rotr32 x n) n) i = bit x i"
    if "i < 32" for i
    using that n
    by (auto simp: rotl32_def rotr32_def bit_simps dest: bit_imp_le_length)
      (rule ccontr, erule notE, erule back_subst [of "bit x"], linarith)+
  then show "rotr32 (rotl32 x n) n = x" "rotl32 (rotr32 x n) n = x"
    by (auto intro!: bit_word_eqI)
qed

definition unquarter :: "u32 \<times> u32 \<times> u32 \<times> u32 \<Rightarrow> u32 \<times> u32 \<times> u32 \<times> u32" where
  "unquarter = (\<lambda>(a, b, c, d).
     let b = rotr32 b 7; b = b XOR c; c = c - d;
         d = rotr32 d 8; d = d XOR a; a = a - b;
         b = rotr32 b 12; b = b XOR c; c = c - d;
         d = rotr32 d 16; d = d XOR a; a = a - b
     in (a, b, c, d))"

lemma xor_cancel: "(x XOR y) XOR y = (x :: u32)"
  by (simp add: xor.assoc)

lemma unquarter_quarter: "unquarter (quarter q) = q"
  by (cases q) (simp add: quarter_def unquarter_def Let_def rot_inverse xor_cancel)

lemma quarter_unquarter: "quarter (unquarter q) = q"
  by (cases q) (simp add: quarter_def unquarter_def Let_def rot_inverse xor_cancel)

definition unquarter_at :: "nat \<Rightarrow> nat \<Rightarrow> nat \<Rightarrow> nat \<Rightarrow> u32 list \<Rightarrow> u32 list" where
  "unquarter_at i j k l x =
     (case unquarter (x ! i, x ! j, x ! k, x ! l) of (a, b, c, d) \<Rightarrow>
        x[i := a, j := b, k := c, l := d])"

lemma put4:
  assumes "distinct [i, j, k, l]" and "i < length x" "j < length x" "k < length x" "l < length x"
  shows "x[i := a, j := b, k := c, l := d] ! i = a" "x[i := a, j := b, k := c, l := d] ! j = b"
    "x[i := a, j := b, k := c, l := d] ! k = c" "x[i := a, j := b, k := c, l := d] ! l = d"
    "x[i := a, j := b, k := c, l := d, i := x ! i, j := x ! j, k := x ! k, l := x ! l] = x"
  using assms by (simp_all add: list_eq_iff_nth_eq nth_list_update)

lemma unquarter_at_inverse:
  assumes "distinct [i, j, k, l]" and "i < length x" "j < length x" "k < length x" "l < length x"
  shows "unquarter_at i j k l (quarter_at i j k l x) = x"
proof -
  obtain a b c d where q: "quarter (x ! i, x ! j, x ! k, x ! l) = (a, b, c, d)" by (rule prod_cases4)
  then have "unquarter (a, b, c, d) = (x ! i, x ! j, x ! k, x ! l)"
    using unquarter_quarter [of "(x ! i, x ! j, x ! k, x ! l)"] by simp
  then show ?thesis
    by (simp only: quarter_at_def unquarter_at_def q prod.case put4 [OF assms])
qed

lemma double_round_inj:
  assumes "length x = 16" and "length y = 16" and "double_round x = double_round y"
  shows "x = y"
proof -
  have inj: "u = v" if "quarter_at i j k l u = quarter_at i j k l v" "length u = 16" "length v = 16"
    "distinct [i, j, k, l]" "i < 16" "j < 16" "k < 16" "l < 16" for i j k l u v
  proof -
    have "unquarter_at i j k l (quarter_at i j k l u) = u" "unquarter_at i j k l (quarter_at i j k l v) = v"
      using that by (intro unquarter_at_inverse; simp)+
    then show ?thesis using that(1) by metis
  qed
  show ?thesis
    by (rule inj [of 0 4 8 12], rule inj [of 1 5 9 13], rule inj [of 2 6 10 14],
        rule inj [of 3 7 11 15], rule inj [of 0 5 10 15], rule inj [of 1 6 11 12],
        rule inj [of 2 7 8 13], rule inj [of 3 4 9 14],
        rule assms(3) [unfolded double_round_def Let_def]) (simp_all add: assms(1,2))
qed

lemma rounds_inj:
  "length x = 16 \<Longrightarrow> length y = 16 \<Longrightarrow> (double_round ^^ n) x = (double_round ^^ n) y \<Longrightarrow> x = y"
proof (induction n)
  case (Suc n)
  then show ?case using double_round_inj [of "(double_round ^^ n) x" "(double_round ^^ n) y"] by simp
qed simp

lemma load_store32: "load32 (store32 v) = v"
  by (rule bit_word_eqI, auto simp: load32_def store32_def bit_simps)
    (rule ccontr, erule notE, erule back_subst [of "bit v"], linarith)

lemma halves_eq:
  assumes "(ucast x :: u32) = ucast y" and "(ucast (drop_bit 32 x) :: u32) = ucast (drop_bit 32 y)"
  shows "x = (y :: u64)"
proof (rule bit_word_eqI)
  fix n assume n: "n < LENGTH(64)"
  have lo: "bit (ucast x :: u32) n = bit (ucast y :: u32) n"
    and hi: "bit (ucast (drop_bit 32 x) :: u32) (n - 32) = bit (ucast (drop_bit 32 y) :: u32) (n - 32)"
    using assms by simp_all
  show "bit x n = bit y n"
  proof (cases "n < 32")
    case True
    then show ?thesis using lo by (simp add: bit_ucast_iff)
  next
    case False
    then have "n - 32 < 32" using n by simp
    then show ?thesis using False hi by (simp add: bit_simps)
  qed
qed

lemma chacha_input_inj:
  assumes "rng_wf s" and "rng_wf s'" and "chacha_input s = chacha_input s'"
  shows "key s = key s' \<and> counter s = counter s' \<and> nonce s = nonce s'"
proof -
  have "key s ! i = key s' ! i" if "i < 8" for i
    using assms(3) that unfolding chacha_input_def
    by (auto simp: less_Suc_eq eval_nat_numeral)
  then have "key s = key s'"
    using assms(1,2) by (auto simp: rng_wf_def intro: nth_equalityI)
  then show ?thesis
    using assms(3) by (auto simp: chacha_input_def intro: halves_eq)
qed

section \<open>Properties\<close>

text \<open>
  C19: the bytes handed out are exactly the first \<open>len\<close> bytes of the ChaCha20 key stream from
  the current counter on, and the next key is taken from the block after them: no key byte is
  ever output, and no output byte of an earlier request depends on the key that follows it.
\<close>
theorem fill_random_keystream:
  assumes "initialized s" and "generated s < 2 ^ 20" and "0 < len"
  shows "\<exists>s'. fill_random h len s =
        Some (take len (concat (map (block_at s) [0..<blocks_for len])), s') \<and>
      len \<le> length (concat (map (block_at s) [0..<blocks_for len])) \<and>
      key s' = map (\<lambda>i. load32 (drop (i * 4) (block_at s (blocks_for len)))) [0..<8] \<and>
      generated s' = generated s + of_nat len"
proof -
  let ?s = "s\<lparr>counter := counter s + of_nat (blocks_for len)\<rparr>"
  have "block_at s (blocks_for len) = fst (chacha20_block (?s\<lparr>generated := generated s + of_nat len\<rparr>))"
    by (simp add: block_at_def)
  then have "key (rekey (?s\<lparr>generated := generated s + of_nat len\<rparr>)) =
      map (\<lambda>i. load32 (drop (i * 4) (block_at s (blocks_for len)))) [0..<8]"
    by (simp add: rekey_def split_beta)
  moreover have "len \<le> length (concat (map (block_at s) [0..<blocks_for len]))"
    using length_stream [of len s "blocks_for len"] by simp
  ultimately show ?thesis
    using fill_random_stream [OF assms, of h] by simp
qed

definition demo_hw :: hw where
  "demo_hw = \<lparr>tsc = of_nat, rsp = (\<lambda>n. 0), rdrand = (\<lambda>n. (0, False)), rdseed = (\<lambda>n. (0, False)),
     cpuid_of = (\<lambda>a b. (7, 0, 0, 0)), rng_addr = 0x1000, init_addr = 0x2000\<rparr>"

definition demo_rng :: rng_state where
  "demo_rng = \<lparr>key = replicate 8 0, counter = 0, nonce = 0, generated = 0, initialized = True,
     have_rdrand = False, have_rdseed = False, seeded_by_hw = False,
     tsc_n = 0, rsp_n = 0, rdrand_n = 0, rdseed_n = 0\<rparr>"

theorem fill_random_keystream_witness:
  "\<exists>s'. fill_random demo_hw 8 demo_rng =
        Some (take 8 (concat (map (block_at demo_rng) [0..<1])), s') \<and> generated s' = 8"
proof -
  have "blocks_for 8 = 1" by (simp add: blocks_for_def)
  then show ?thesis
    using fill_random_keystream [of demo_rng 8 demo_hw] by (auto simp: demo_rng_def)
qed

text \<open>
  C20: with a time-stamp counter that keeps moving, a request for random bytes always returns
  the number of bytes asked for, seeding the generator first when it is not; the key stays
  eight words.
\<close>
theorem fill_random_returns:
  assumes "tsc_moves h" and "initialized s \<longrightarrow> rng_wf s" and "0 < len"
  shows "\<exists>out s'. fill_random h len s = Some (out, s') \<and> length out = len \<and>
    rng_wf s' \<and> initialized s'"
  using fill_random_total [OF assms(1,2), of len] assms(3) by auto

theorem fill_random_returns_witness:
  "\<exists>out s'. fill_random demo_hw 100 (demo_rng\<lparr>initialized := False\<rparr>) = Some (out, s') \<and> length out = 100"
proof -
  have "tsc_moves demo_hw"
    unfolding tsc_moves_def demo_hw_def hw.simps
  proof
    fix n :: nat
    have "(of_nat (n + 1) :: u64) \<noteq> of_nat n" by simp
    then show "\<exists>m\<ge>n. (of_nat m :: u64) \<noteq> of_nat n" by (meson le_add1)
  qed
  then show ?thesis
    using fill_random_returns [of demo_hw "demo_rng\<lparr>initialized := False\<rparr>" 100] by auto
qed

text \<open>
  C21: the twenty rounds are a permutation of the state: generators that differ in key, counter
  or nonce never reach the same state before the final addition.
\<close>
theorem chacha_rounds_injective:
  assumes "rng_wf s" and "rng_wf s'"
  shows "(double_round ^^ 10) (chacha_input s) = (double_round ^^ 10) (chacha_input s') \<longleftrightarrow>
    key s = key s' \<and> counter s = counter s' \<and> nonce s = nonce s'"
proof
  assume "(double_round ^^ 10) (chacha_input s) = (double_round ^^ 10) (chacha_input s')"
  then have "chacha_input s = chacha_input s'"
    by (rule rounds_inj [OF length_chacha_input length_chacha_input])
  then show "key s = key s' \<and> counter s = counter s' \<and> nonce s = nonce s'"
    by (rule chacha_input_inj [OF assms])
next
  assume "key s = key s' \<and> counter s = counter s' \<and> nonce s = nonce s'"
  then have "chacha_input s = chacha_input s'" by (simp add: chacha_input_def)
  then show "(double_round ^^ 10) (chacha_input s) = (double_round ^^ 10) (chacha_input s')" by (rule arg_cong)
qed

theorem chacha_rounds_injective_witness:
  "(double_round ^^ 10) (chacha_input demo_rng) \<noteq> (double_round ^^ 10) (chacha_input (demo_rng\<lparr>counter := 1\<rparr>))"
proof -
  have "rng_wf demo_rng" "rng_wf (demo_rng\<lparr>counter := 1\<rparr>)"
    "counter demo_rng \<noteq> counter (demo_rng\<lparr>counter := 1\<rparr>)"
    by (simp_all add: demo_rng_def rng_wf_def)
  then show ?thesis
    using chacha_rounds_injective [of demo_rng "demo_rng\<lparr>counter := 1\<rparr>"] by blast
qed

text \<open>The quarter round on the published test vector.\<close>

lemma quarter_test_vector:
  "quarter (0x11111111, 0x01020304, 0x9b8d6f43, 0x01234567) =
     (0xea2a92f4, 0xcb1cf8ce, 0x4581472e, 0x5881c4bb)"
  by code_simp

end
