(* ===== verification/Linked.thy ===== *)
theory Linked
  imports Prelude
begin

text \<open>
  Singly linked lists in a store: \<open>seg f p xs q\<close> says that following the links \<open>f\<close> from \<open>p\<close>
  visits the non-null addresses \<open>xs\<close> in order and arrives at \<open>q\<close>; a null-terminated list is
  a segment that ends in 0.
\<close>

primrec seg :: "(addr \<Rightarrow> addr) \<Rightarrow> addr \<Rightarrow> addr list \<Rightarrow> addr \<Rightarrow> bool" where
  "seg f p [] q \<longleftrightarrow> p = q"
| "seg f p (x # xs) q \<longleftrightarrow> p = x \<and> x \<noteq> 0 \<and> seg f (f x) xs q"

abbreviation chain :: "(addr \<Rightarrow> addr) \<Rightarrow> addr \<Rightarrow> addr list \<Rightarrow> bool" where
  "chain f p xs \<equiv> seg f p xs 0"

lemma seg_append: "seg f p (xs @ ys) q \<longleftrightarrow> (\<exists>r. seg f p xs r \<and> seg f r ys q)"
  by (induction xs arbitrary: p) auto

lemma seg_snoc: "seg f p (xs @ [x]) q \<longleftrightarrow> seg f p xs x \<and> x \<noteq> 0 \<and> f x = q"
  by (auto simp: seg_append)

lemma seg_upd [simp]: "x \<notin> set xs \<Longrightarrow> seg (f(x := y)) p xs q = seg f p xs q"
  by (induction xs arbitrary: p) auto

lemma seg_cong: "(\<And>x. x \<in> set xs \<Longrightarrow> f x = g x) \<Longrightarrow> seg f p xs q = seg g p xs q"
  by (induction xs arbitrary: p) auto

lemma seg_nonzero: "seg f p xs q \<Longrightarrow> 0 \<notin> set xs"
  by (induction xs arbitrary: p) auto

lemma chain_0 [simp]: "chain f 0 xs \<longleftrightarrow> xs = []"
  by (cases xs) auto

lemma chain_Cons: "p \<noteq> 0 \<Longrightarrow> chain f p xs \<longleftrightarrow> (\<exists>ys. xs = p # ys \<and> chain f (f p) ys)"
  by (cases xs) auto

lemma chain_unique: "chain f p xs \<Longrightarrow> chain f p ys \<Longrightarrow> xs = ys"
proof (induction xs arbitrary: p ys)
  case Nil
  then show ?case by simp
next
  case (Cons x xs)
  then show ?case by (cases ys) auto
qed

text \<open>Distinct non-null addresses are fewer than the address space.\<close>

lemma distinct_addr_length:
  assumes "distinct xs" and "(0 :: addr) \<notin> set xs"
  shows "length xs < 2 ^ 64"
proof -
  have "length xs = card (set xs)" using assms(1) by (simp add: distinct_card)
  also have "card (set xs) < card (UNIV :: addr set)"
    using assms(2) by (intro psubset_card_mono) auto
  finally show ?thesis by (simp add: card_word)
qed

text \<open>Linking a new last element in.\<close>

lemma chain_snoc_upd:
  assumes "chain f p xs" and "distinct xs" and "w \<notin> set xs" and "w \<noteq> 0"
  shows "chain (if xs = [] then f(w := 0) else f(w := 0, last xs := w)) (if xs = [] then w else p) (xs @ [w])"
proof (cases xs rule: rev_cases)
  case Nil
  then show ?thesis using assms by simp
next
  case (snoc ys t)
  then show ?thesis
    using assms by (auto simp: seg_snoc seg_append)
qed

end
