(* ===== verification/Queues.thy ===== *)
theory Queues
  imports Prelude
begin

text \<open>
  The contract of a first-in first-out queue kept in some concrete state: \<open>R s q\<close> says that
  state \<open>s\<close> holds the elements \<open>q\<close>, oldest first; \<open>put\<close> adds an element the state accepts and
  \<open>get\<close> removes the oldest one. The work queue and the input event ring are instances.
\<close>

locale fifo =
  fixes R :: "'s \<Rightarrow> 'a list \<Rightarrow> bool"
    and ok :: "'a \<Rightarrow> 's \<Rightarrow> bool"
    and put :: "'a \<Rightarrow> 's \<Rightarrow> 's"
    and get :: "'s \<Rightarrow> 'a \<times> 's"
  assumes put_R: "R s q \<Longrightarrow> ok a s \<Longrightarrow> R (put a s) (q @ [a])"
    and get_R: "R s (a # q) \<Longrightarrow> fst (get s) = a \<and> R (snd (get s)) q"
begin

primrec gets :: "nat \<Rightarrow> 's \<Rightarrow> 'a list \<times> 's" where
  "gets 0 s = ([], s)"
| "gets (Suc n) s = (case get s of (a, s') \<Rightarrow> case gets n s' of (xs, t) \<Rightarrow> (a # xs, t))"

lemma gets_prefix: "R s (xs @ ys) \<Longrightarrow> fst (gets (length xs) s) = xs \<and> R (snd (gets (length xs) s)) ys"
proof (induction xs arbitrary: s)
  case (Cons x xs)
  then show ?case using get_R [of s x "xs @ ys"] by (simp add: split_beta)
qed simp

lemma gets_all: "R s q \<Longrightarrow> \<exists>t. gets (length q) s = (q, t) \<and> R t []"
  using gets_prefix [of s q "[]"] by (metis append_Nil2 prod.collapse)

text \<open>An element put into a queue of \<open>n\<close> elements comes out after exactly \<open>n\<close> others.\<close>

lemma put_then_gets:
  assumes "R s q" and "ok a s"
  shows "fst (gets (length q + 1) (put a s)) = q @ [a]"
  using gets_prefix [of "put a s" "q @ [a]" "[]"] put_R [OF assms] by simp

end

end
