(* ===== verification/Workqueue.thy ===== *)
theory Workqueue
  imports Linked Queues
begin

text \<open>
  The kernel work queue, \<^verbatim>\<open>src/src/impl/x86_64/smp/workqueue.cpp\<close>, and completions,
  \<^verbatim>\<open>src/src/impl/x86_64/module/completion.cpp\<close>.

  Work items are linked through their own \<^verbatim>\<open>next\<close> fields, so the state is a store from
  addresses to items with head and tail pointers, 0 the null pointer. A delayed item begins
  with its work item: the two share an address, and the store has one function for each half.
  Every critical section of the source is one operation here; what the scheduler answers when
  a task is woken, and the tick count, are arguments. A walk along a list is a
  \<^theory_text>\<open>partial_function\<close>, whose \<open>None\<close> is a list without an end.
\<close>

section \<open>State\<close>

record kernel_work =
  wfn :: addr
  warg :: addr
  wnext :: addr
  wflags :: u32

record kernel_delayed_work =
  dnext :: addr
  due_tick :: u64
  dflags :: u32

record stats =
  queued :: u64
  completed :: u64
  rejected :: u64
  wakeups :: u64
  waits :: u64
  max_depth :: u64
  depth :: u64
  worker_pid :: u64

record wq =
  works :: "addr \<Rightarrow> kernel_work"
  delayeds :: "addr \<Rightarrow> kernel_delayed_work"
  wq_head :: addr
  wq_tail :: addr
  delayed_head :: addr
  worker :: addr
  timer :: addr
  wq_inited :: bool
  wq_started :: bool
  counters :: stats

definition KERNEL_WORK_PENDING :: u32 where "KERNEL_WORK_PENDING = 1"
definition KERNEL_WORK_RUNNING :: u32 where "KERNEL_WORK_RUNNING = 2"
definition KERNEL_DELAYED_WORK_PENDING :: u32 where "KERNEL_DELAYED_WORK_PENDING = 1"

definition upd_work :: "addr \<Rightarrow> (kernel_work \<Rightarrow> kernel_work) \<Rightarrow> wq \<Rightarrow> wq" where
  "upd_work w f s = s\<lparr>works := (works s)(w := f (works s w))\<rparr>"

definition upd_delayed :: "addr \<Rightarrow> (kernel_delayed_work \<Rightarrow> kernel_delayed_work) \<Rightarrow> wq \<Rightarrow> wq" where
  "upd_delayed w f s = s\<lparr>delayeds := (delayeds s)(w := f (delayeds s w))\<rparr>"

definition busy :: "wq \<Rightarrow> addr \<Rightarrow> bool" where
  "busy s w \<longleftrightarrow> wflags (works s w) AND (KERNEL_WORK_PENDING OR KERNEL_WORK_RUNNING) \<noteq> 0"

section \<open>Immediate work\<close>

definition wq_init :: "wq \<Rightarrow> wq" where
  "wq_init s = s\<lparr>counters := \<lparr>queued = 0, completed = 0, rejected = 0, wakeups = 0, waits = 0,
     max_depth = 0, depth = 0, worker_pid = 0\<rparr>, wq_inited := True\<rparr>"

text \<open>\<open>t\<close> and \<open>tm\<close> are the tasks \<^verbatim>\<open>scheduler::spawn\<close> returns, 0 on failure.\<close>

definition start :: "addr \<Rightarrow> addr \<Rightarrow> u64 \<Rightarrow> wq \<Rightarrow> bool \<times> wq" where
  "start t tm pid s0 =
     (let s = (if \<not> wq_inited s0 then wq_init s0 else s0)
      in if wq_started s then (True, s)
         else if t = 0 then (False, s)
         else if tm = 0 then (False, s)
         else (True, s\<lparr>worker := t, timer := tm, wq_started := True,
                       counters := (counters s)\<lparr>worker_pid := pid\<rparr>\<rparr>))"

text \<open>Linking an item in at the tail and counting it.\<close>

definition enqueue :: "addr \<Rightarrow> wq \<Rightarrow> wq" where
  "enqueue w s0 =
     (let s = upd_work w (\<lambda>x. x\<lparr>wnext := 0, wflags := KERNEL_WORK_PENDING\<rparr>) s0;
          s = (if wq_tail s \<noteq> 0
               then (upd_work (wq_tail s) (\<lambda>x. x\<lparr>wnext := w\<rparr>) s)\<lparr>wq_tail := w\<rparr>
               else s\<lparr>wq_head := w, wq_tail := w\<rparr>);
          c = counters s;
          c = c\<lparr>queued := queued c + 1, depth := depth c + 1\<rparr>;
          c = (if depth c > max_depth c then c\<lparr>max_depth := depth c\<rparr> else c)
      in s\<lparr>counters := c\<rparr>)"

definition queue_work :: "bool \<Rightarrow> addr \<Rightarrow> wq \<Rightarrow> int \<times> wq" where
  "queue_work woken w s =
     (if w = 0 \<or> wfn (works s w) = 0 then (- 1, s)
      else if \<not> wq_inited s then (- 3, s)
      else if busy s w then (- 2, s\<lparr>counters := (counters s)\<lparr>rejected := rejected (counters s) + 1\<rparr>\<rparr>)
      else
        let s1 = enqueue w s
        in (0, if worker s1 \<noteq> 0 \<and> woken
               then s1\<lparr>counters := (counters s1)\<lparr>wakeups := wakeups (counters s1) + 1\<rparr>\<rparr>
               else s1))"

definition take_one :: "wq \<Rightarrow> addr \<times> wq" where
  "take_one s0 =
     (let w = wq_head s0 in
      if w = 0 then (0, s0)
      else
        let s = s0\<lparr>wq_head := wnext (works s0 w)\<rparr>;
            s = (if wq_head s = 0 then s\<lparr>wq_tail := 0\<rparr> else s);
            s = upd_work w (\<lambda>x. x\<lparr>wnext := 0, wflags := KERNEL_WORK_RUNNING\<rparr>) s;
            s = (if depth (counters s) \<noteq> 0
                 then s\<lparr>counters := (counters s)\<lparr>depth := depth (counters s) - 1\<rparr>\<rparr> else s)
        in (w, s))"

text \<open>
  One turn of the worker up to the call of the item's function, and its end after the call.
\<close>

definition worker_take :: "wq \<Rightarrow> addr \<times> wq" where
  "worker_take s0 =
     (case take_one s0 of (w, s) \<Rightarrow>
        if w = 0 then (0, s\<lparr>counters := (counters s)\<lparr>waits := waits (counters s) + 1\<rparr>\<rparr>) else (w, s))"

definition worker_done :: "addr \<Rightarrow> wq \<Rightarrow> wq" where
  "worker_done w s0 =
     (let s = upd_work w (\<lambda>x. x\<lparr>wflags := 0\<rparr>) s0
      in s\<lparr>counters := (counters s)\<lparr>completed := completed (counters s) + 1\<rparr>\<rparr>)"

definition kernel_work_init :: "addr \<Rightarrow> addr \<Rightarrow> addr \<Rightarrow> wq \<Rightarrow> wq" where
  "kernel_work_init w fn arg s =
     (if w = 0 then s
      else upd_work w (\<lambda>x. x\<lparr>wfn := fn, warg := arg, wnext := 0, wflags := 0\<rparr>) s)"

section \<open>Delayed work\<close>

text \<open>A \<^verbatim>\<open>kernel_delayed_work **\<close> is the item whose link it points to, 0 the list head.\<close>

definition get_link :: "addr \<Rightarrow> wq \<Rightarrow> addr" where
  "get_link pp s = (if pp = 0 then delayed_head s else dnext (delayeds s pp))"

definition set_link :: "addr \<Rightarrow> addr \<Rightarrow> wq \<Rightarrow> wq" where
  "set_link pp v s = (if pp = 0 then s\<lparr>delayed_head := v\<rparr> else upd_delayed pp (\<lambda>x. x\<lparr>dnext := v\<rparr>) s)"

definition unlink_delayed :: "addr \<Rightarrow> addr \<Rightarrow> wq \<Rightarrow> wq" where
  "unlink_delayed pp dw s =
     upd_delayed dw (\<lambda>x. x\<lparr>dnext := 0, dflags := dflags x AND NOT KERNEL_DELAYED_WORK_PENDING\<rparr>)
       (set_link pp (dnext (delayeds s dw)) s)"

partial_function (option) queue_ready_delayed :: "u64 \<Rightarrow> addr \<Rightarrow> wq \<Rightarrow> wq option" where
  "queue_ready_delayed now pp s =
     (let dw = get_link pp s in
      if dw = 0 then Some s
      else if due_tick (delayeds s dw) > now then queue_ready_delayed now dw s
      else if busy s dw then
        queue_ready_delayed now dw (upd_delayed dw (\<lambda>x. x\<lparr>due_tick := now + 1\<rparr>) s)
      else queue_ready_delayed now pp (enqueue dw (unlink_delayed pp dw s)))"

definition kernel_delayed_work_init :: "addr \<Rightarrow> addr \<Rightarrow> addr \<Rightarrow> wq \<Rightarrow> wq" where
  "kernel_delayed_work_init w fn arg s =
     (if w = 0 then s
      else upd_delayed w (\<lambda>x. x\<lparr>dnext := 0, due_tick := 0, dflags := 0\<rparr>) (kernel_work_init w fn arg s))"

partial_function (option) find_slot :: "u64 \<Rightarrow> addr \<Rightarrow> wq \<Rightarrow> addr option" where
  "find_slot due pp s =
     (let p = get_link pp s in
      if p \<noteq> 0 \<and> due_tick (delayeds s p) \<le> due then find_slot due p s else Some pp)"

definition kernel_queue_delayed_work :: "u64 \<Rightarrow> addr \<Rightarrow> u64 \<Rightarrow> wq \<Rightarrow> (int \<times> wq) option" where
  "kernel_queue_delayed_work ticks w delay s0 =
     (if w = 0 \<or> wfn (works s0 w) = 0 then Some (- 1, s0)
      else if \<not> wq_inited s0 then Some (- 3, s0)
      else if dflags (delayeds s0 w) AND KERNEL_DELAYED_WORK_PENDING \<noteq> 0 \<or>
              wflags (works s0 w) AND KERNEL_WORK_PENDING \<noteq> 0
      then Some (- 2, s0\<lparr>counters := (counters s0)\<lparr>rejected := rejected (counters s0) + 1\<rparr>\<rparr>)
      else
        let due = ticks + delay;
            s = upd_delayed w (\<lambda>x. x\<lparr>due_tick := due, dflags := KERNEL_DELAYED_WORK_PENDING\<rparr>) s0
        in map_option
             (\<lambda>pp. (0, set_link pp w (upd_delayed w (\<lambda>x. x\<lparr>dnext := get_link pp s\<rparr>) s)))
             (find_slot due 0 s))"

partial_function (option) cancel_loop :: "addr \<Rightarrow> addr \<Rightarrow> wq \<Rightarrow> (int \<times> wq) option" where
  "cancel_loop w pp s =
     (let p = get_link pp s in
      if p = 0 then Some (0, s)
      else if p = w then Some (1, unlink_delayed pp w s)
      else cancel_loop w p s)"

definition kernel_cancel_delayed_work :: "addr \<Rightarrow> wq \<Rightarrow> (int \<times> wq) option" where
  "kernel_cancel_delayed_work w s = (if w = 0 then Some (- 1, s) else cancel_loop w 0 s)"

definition snapshot :: "wq \<Rightarrow> stats \<times> bool \<times> bool" where
  "snapshot s = (counters s, wq_inited s, wq_started s)"

section \<open>The abstract queue\<close>

text \<open>
  \<open>wq_rep s q d\<close>: the store represents the pending items \<open>q\<close>, first to run first, and the
  delayed items \<open>d\<close>. An item is marked pending exactly while it is in the list, the depth
  counter is the length of the queue, and the maximum is at least that.
\<close>

abbreviation next_of :: "wq \<Rightarrow> addr \<Rightarrow> addr" where "next_of s \<equiv> \<lambda>w. wnext (works s w)"
abbreviation dnext_of :: "wq \<Rightarrow> addr \<Rightarrow> addr" where "dnext_of s \<equiv> \<lambda>w. dnext (delayeds s w)"

definition wq_rep :: "wq \<Rightarrow> addr list \<Rightarrow> addr list \<Rightarrow> bool" where
  "wq_rep s q d \<longleftrightarrow>
     chain (next_of s) (wq_head s) q \<and> distinct q \<and>
     wq_tail s = (if q = [] then 0 else last q) \<and>
     (\<forall>w. wflags (works s w) \<in> {0, 1, 2} \<and> (w \<in> set q \<longleftrightarrow> wflags (works s w) = 1)) \<and>
     depth (counters s) = of_nat (length q) \<and> depth (counters s) \<le> max_depth (counters s) \<and>
     chain (dnext_of s) (delayed_head s) d \<and> distinct d \<and>
     (\<forall>w. dflags (delayeds s w) \<in> {0, 1} \<and> (w \<in> set d \<longleftrightarrow> dflags (delayeds s w) = 1))"

lemmas work_flags = KERNEL_WORK_PENDING_def KERNEL_WORK_RUNNING_def KERNEL_DELAYED_WORK_PENDING_def

lemma busy_iff: "wq_rep s q d \<Longrightarrow> busy s w \<longleftrightarrow> wflags (works s w) \<noteq> 0"
  by (auto simp: wq_rep_def busy_def work_flags dest: spec [of _ w])

lemma works_upd [simp]:
  "works (upd_work w f s) = (works s)(w := f (works s w))" "delayeds (upd_work w f s) = delayeds s"
  "wq_head (upd_work w f s) = wq_head s" "wq_tail (upd_work w f s) = wq_tail s"
  "delayed_head (upd_work w f s) = delayed_head s" "counters (upd_work w f s) = counters s"
  "wq_inited (upd_work w f s) = wq_inited s" "worker (upd_work w f s) = worker s"
  by (simp_all add: upd_work_def)

lemma delayeds_upd [simp]:
  "delayeds (upd_delayed w g s) = (delayeds s)(w := g (delayeds s w))" "works (upd_delayed w g s) = works s"
  "wq_head (upd_delayed w g s) = wq_head s" "wq_tail (upd_delayed w g s) = wq_tail s"
  "delayed_head (upd_delayed w g s) = delayed_head s" "counters (upd_delayed w g s) = counters s"
  "wq_inited (upd_delayed w g s) = wq_inited s" "worker (upd_delayed w g s) = worker s"
  by (simp_all add: upd_delayed_def)

lemma fun_upd_field: "(\<lambda>x. f ((g(w := v)) x)) = (\<lambda>x. f (g x))(w := f v)"
  by auto

lemma enqueue_fields:
  "works (enqueue w s) = (let f = (works s)(w := (works s w)\<lparr>wnext := 0, wflags := 1\<rparr>)
     in if wq_tail s \<noteq> 0 then f(wq_tail s := (f (wq_tail s))\<lparr>wnext := w\<rparr>) else f)"
  "wq_head (enqueue w s) = (if wq_tail s \<noteq> 0 then wq_head s else w)" "wq_tail (enqueue w s) = w"
  "delayeds (enqueue w s) = delayeds s" "delayed_head (enqueue w s) = delayed_head s"
  "depth (counters (enqueue w s)) = depth (counters s) + 1"
  "max_depth (counters (enqueue w s)) = max (max_depth (counters s)) (depth (counters s) + 1)"
  "wq_inited (enqueue w s) = wq_inited s" "worker (enqueue w s) = worker s"
  by (auto simp: enqueue_def Let_def work_flags max_def)

lemma enqueue_rep:
  assumes rep: "wq_rep s q d" and w: "w \<noteq> 0" "wflags (works s w) \<noteq> 1"
  shows "wq_rep (enqueue w s) (q @ [w]) d"
proof -
  have nq: "w \<notin> set q" using rep w(2) by (simp add: wq_rep_def)
  have ch: "chain (next_of s) (wq_head s) q" "distinct q" "wq_tail s = (if q = [] then 0 else last q)"
    using rep by (simp_all add: wq_rep_def)
  have tl: "wq_tail s \<noteq> 0 \<longleftrightarrow> q \<noteq> []"
    using ch(3) seg_nonzero [OF ch(1)] by (metis last_in_set)
  have nx: "next_of (enqueue w s) = (if q = [] then (next_of s)(w := 0) else (next_of s)(w := 0, last q := w))"
    using tl ch(3) nq last_in_set [of q] by (auto simp: enqueue_fields Let_def fun_eq_iff)
  have "chain (next_of (enqueue w s)) (wq_head (enqueue w s)) (q @ [w])"
    using chain_snoc_upd [OF ch(1,2) nq w(1)] nx tl by (auto simp: enqueue_fields split: if_splits)
  moreover have "wflags (works (enqueue w s) x) = (if x = w then 1 else wflags (works s x))" for x
    using tl by (auto simp: enqueue_fields Let_def)
  ultimately show ?thesis
    using rep nq ch(2) unfolding wq_rep_def by (auto simp: enqueue_fields)
qed

lemma wq_rep_counters:
  "depth c = depth (counters s) \<Longrightarrow> max_depth c = max_depth (counters s) \<Longrightarrow>
   wq_rep (s\<lparr>counters := c\<rparr>) q d = wq_rep s q d"
  by (simp add: wq_rep_def)

lemma take_one_rep:
  assumes rep: "wq_rep s (w # q) d"
  shows "fst (take_one s) = w" "wq_rep (snd (take_one s)) q d" "wflags (works (snd (take_one s)) w) = 2"
    "wq_inited (snd (take_one s)) = wq_inited s"
    "\<And>x. wfn (works (snd (take_one s)) x) = wfn (works s x)"
    "delayeds (snd (take_one s)) = delayeds s"
    "\<And>x. x \<noteq> w \<Longrightarrow> works (snd (take_one s)) x = works s x"
proof -
  have w: "wq_head s = w" "w \<noteq> 0" "chain (next_of s) (next_of s w) q" "w \<notin> set q"
    using rep by (auto simp: wq_rep_def)
  have len: "Suc (length q) < 2 ^ 64"
    using rep distinct_addr_length [of "w # q"] seg_nonzero [of "next_of s" "wq_head s" "w # q"]
    by (auto simp: wq_rep_def)
  have dp: "depth (counters s) = of_nat (Suc (length q))" using rep by (simp add: wq_rep_def)
  have d0: "depth (counters s) \<noteq> 0"
    unfolding dp using len by (metis unat_of_nat64 unat_0 nat.distinct(1))
  have hd0: "next_of s w = 0 \<longleftrightarrow> q = []" using w(3) seg_nonzero [OF w(3)] by (cases q) auto
  show "fst (take_one s) = w" "wflags (works (snd (take_one s)) w) = 2"
    "wq_inited (snd (take_one s)) = wq_inited s"
    "\<And>x. wfn (works (snd (take_one s)) x) = wfn (works s x)"
    "delayeds (snd (take_one s)) = delayeds s"
    "\<And>x. x \<noteq> w \<Longrightarrow> works (snd (take_one s)) x = works s x"
    using w by (simp_all add: take_one_def Let_def work_flags)
  have nx: "next_of (snd (take_one s)) = (next_of s)(w := 0)"
    using w by (auto simp: take_one_def Let_def fun_eq_iff)
  have fl: "wflags (works (snd (take_one s)) x) = (if x = w then 2 else wflags (works s x))" for x
    using w by (auto simp: take_one_def Let_def work_flags)
  have "chain (next_of (snd (take_one s))) (wq_head (snd (take_one s))) q"
    unfolding nx using w hd0 by (auto simp: take_one_def Let_def)
  moreover have "wq_tail (snd (take_one s)) = (if q = [] then 0 else last q)"
    using w hd0 rep by (auto simp: take_one_def Let_def wq_rep_def)
  moreover have "depth (counters (snd (take_one s))) = of_nat (length q)"
    "max_depth (counters (snd (take_one s))) = max_depth (counters s)"
    using w d0 dp by (simp_all add: take_one_def Let_def)
  moreover have "(of_nat (length q) :: u64) \<le> of_nat (Suc (length q))"
    using len by (simp add: word_le_nat_alt del: of_nat_Suc)
  ultimately show "wq_rep (snd (take_one s)) q d"
    using rep w(4) fl dp unfolding wq_rep_def
    by (auto simp: take_one_def Let_def)
qed

lemma queue_work_rep:
  assumes rep: "wq_rep s q d"
  shows "queue_work woken w s =
      (let e = enqueue w s in
       if w = 0 \<or> wfn (works s w) = 0 then (- 1, s)
       else if \<not> wq_inited s then (- 3, s)
       else if wflags (works s w) \<noteq> 0
       then (- 2, s\<lparr>counters := (counters s)\<lparr>rejected := rejected (counters s) + 1\<rparr>\<rparr>)
       else (0, if worker e \<noteq> 0 \<and> woken
                then e\<lparr>counters := (counters e)\<lparr>wakeups := wakeups (counters e) + 1\<rparr>\<rparr> else e))"
    and "wq_rep (snd (queue_work woken w s)) (if fst (queue_work woken w s) = 0 then q @ [w] else q) d"
proof -
  show eq: "queue_work woken w s =
      (let e = enqueue w s in
       if w = 0 \<or> wfn (works s w) = 0 then (- 1, s)
       else if \<not> wq_inited s then (- 3, s)
       else if wflags (works s w) \<noteq> 0
       then (- 2, s\<lparr>counters := (counters s)\<lparr>rejected := rejected (counters s) + 1\<rparr>\<rparr>)
       else (0, if worker e \<noteq> 0 \<and> woken
                then e\<lparr>counters := (counters e)\<lparr>wakeups := wakeups (counters e) + 1\<rparr>\<rparr> else e))"
    by (simp add: queue_work_def busy_iff [OF rep] Let_def)
  show "wq_rep (snd (queue_work woken w s)) (if fst (queue_work woken w s) = 0 then q @ [w] else q) d"
    unfolding eq Let_def using rep enqueue_rep [OF rep, of w] by (auto simp: wq_rep_counters)
qed

section \<open>Delayed items\<close>

text \<open>
  The walk stands at the link out of \<open>pp\<close>, with the items \<open>ys\<close> still ahead of it and \<open>xs\<close>
  behind it.
\<close>

definition at_link :: "wq \<Rightarrow> addr \<Rightarrow> addr list \<Rightarrow> addr list \<Rightarrow> bool" where
  "at_link s pp xs ys \<longleftrightarrow>
     chain (dnext_of s) (delayed_head s) (xs @ ys) \<and> distinct (xs @ ys) \<and>
     pp = (if xs = [] then 0 else last xs)"

lemma at_link_get:
  assumes "at_link s pp xs ys"
  shows "get_link pp s = (if ys = [] then 0 else hd ys)"
proof (cases xs rule: rev_cases)
  case Nil
  then show ?thesis using assms by (cases ys) (auto simp: at_link_def get_link_def)
next
  case (snoc zs z)
  then show ?thesis
    using assms by (cases ys) (auto simp: at_link_def get_link_def seg_append)
qed

lemma at_link_step:
  assumes "at_link s pp xs (y # ys)"
  shows "at_link s y (xs @ [y]) ys" "y \<noteq> 0" "get_link pp s = y"
  using assms seg_nonzero [of "dnext_of s" "delayed_head s" "xs @ y # ys" 0] at_link_get [OF assms]
  by (auto simp: at_link_def)

lemma at_link_0: "wq_rep s q d \<Longrightarrow> at_link s 0 [] d"
  by (simp add: at_link_def wq_rep_def)

lemma set_link_fields [simp]:
  "works (set_link pp v s) = works s" "counters (set_link pp v s) = counters s"
  "wq_head (set_link pp v s) = wq_head s" "wq_tail (set_link pp v s) = wq_tail s"
  "dflags (delayeds (set_link pp v s) x) = dflags (delayeds s x)"
  "due_tick (delayeds (set_link pp v s) x) = due_tick (delayeds s x)"
  "wq_inited (set_link pp v s) = wq_inited s"
  by (simp_all add: set_link_def)

lemma unlink_fields:
  "dnext_of (unlink_delayed pp y s) =
     (if pp = 0 then dnext_of s else (dnext_of s)(pp := dnext_of s y))(y := 0)"
  "delayed_head (unlink_delayed pp y s) = (if pp = 0 then dnext_of s y else delayed_head s)"
  "works (unlink_delayed pp y s) = works s" "counters (unlink_delayed pp y s) = counters s"
  "wq_head (unlink_delayed pp y s) = wq_head s" "wq_tail (unlink_delayed pp y s) = wq_tail s"
  "due_tick (delayeds (unlink_delayed pp y s) x) = due_tick (delayeds s x)"
  "dflags (delayeds (unlink_delayed pp y s) x) =
     (if x = y then dflags (delayeds s x) AND NOT 1 else dflags (delayeds s x))"
  "wq_inited (unlink_delayed pp y s) = wq_inited s"
  by (auto simp: unlink_delayed_def set_link_def fun_eq_iff work_flags)

lemma unlink_chain:
  assumes "at_link s pp xs (y # ys)"
  shows "at_link (unlink_delayed pp y s) pp xs ys"
proof (cases xs rule: rev_cases)
  case Nil
  then show ?thesis
    using assms unfolding at_link_def unlink_fields by auto
next
  case (snoc zs z)
  have "z \<noteq> 0" using assms snoc by (auto simp: at_link_def seg_append)
  then show ?thesis
    using assms snoc unfolding at_link_def unlink_fields by (auto simp: seg_append)
qed

lemma unlink_rep:
  assumes rep: "wq_rep s q (xs @ y # ys)" and at: "at_link s pp xs (y # ys)"
  shows "wq_rep (unlink_delayed pp y s) q (xs @ ys)"
    "works (unlink_delayed pp y s) = works s"
    "due_tick (delayeds (unlink_delayed pp y s) x) = due_tick (delayeds s x)"
proof -
  have fl: "dflags (delayeds (unlink_delayed pp y s) w) = (if w = y then 0 else dflags (delayeds s w))" for w
    using rep by (auto simp: unlink_fields wq_rep_def dest: spec [of _ y])
  have "distinct (xs @ y # ys)" using rep by (simp add: wq_rep_def)
  then show "wq_rep (unlink_delayed pp y s) q (xs @ ys)"
    using rep unlink_chain [OF at] unfolding wq_rep_def at_link_def fl
    by (auto simp: unlink_fields(2-))
qed (simp_all add: unlink_fields)

text \<open>The items a tick makes ready, and what it leaves behind.\<close>

definition ready :: "wq \<Rightarrow> u64 \<Rightarrow> addr \<Rightarrow> bool" where
  "ready s now w \<longleftrightarrow> due_tick (delayeds s w) \<le> now \<and> wflags (works s w) = 0"

lemma ready_loop_rep:
  "wq_rep s q (xs @ ys) \<Longrightarrow> at_link s pp xs ys \<Longrightarrow>
   \<exists>s'. queue_ready_delayed now pp s = Some s' \<and>
     wq_rep s' (q @ filter (ready s now) ys) (xs @ filter (\<lambda>w. \<not> ready s now w) ys) \<and>
     wq_inited s' = wq_inited s"
proof (induction ys arbitrary: s q xs pp)
  case Nil
  then show ?case using at_link_get [OF Nil.prems(2)] by (subst queue_ready_delayed.simps) simp
next
  case (Cons y ys)
  note at = at_link_step [OF Cons.prems(2)]
  note rep = Cons.prems(1)
  have b: "busy s y \<longleftrightarrow> wflags (works s y) \<noteq> 0" by (rule busy_iff [OF rep])
  have step: "queue_ready_delayed now pp s =
     (if due_tick (delayeds s y) > now then queue_ready_delayed now y s
      else if busy s y then
        queue_ready_delayed now y (upd_delayed y (\<lambda>x. x\<lparr>due_tick := now + 1\<rparr>) s)
      else queue_ready_delayed now pp (enqueue y (unlink_delayed pp y s)))"
    using at(2,3) by (subst queue_ready_delayed.simps) simp
  have dist: "y \<notin> set ys" using rep by (simp add: wq_rep_def)
  show ?case
  proof (cases "due_tick (delayeds s y) > now")
    case True
    then have "\<not> ready s now y" by (simp add: ready_def not_le)
    then show ?thesis
      using Cons.IH [of s q "xs @ [y]" y] rep at(1) step True by simp
  next
    case late: False
    show ?thesis
    proof (cases "busy s y")
      case True
      let ?s = "upd_delayed y (\<lambda>x. x\<lparr>due_tick := now + 1\<rparr>) s"
      have dn: "dnext_of ?s = dnext_of s" by auto
      have rep': "wq_rep ?s q ((xs @ [y]) @ ys)"
        using rep unfolding wq_rep_def dn by auto
      have at': "at_link ?s y (xs @ [y]) ys" using at(1) unfolding at_link_def dn by simp
      have "ready ?s now w = ready s now w" if "w \<in> set ys" for w
        using that dist by (cases "w = y") (simp_all add: ready_def)
      then have "filter (ready ?s now) ys = filter (ready s now) ys"
        "filter (\<lambda>w. \<not> ready ?s now w) ys = filter (\<lambda>w. \<not> ready s now w) ys"
        by (simp_all cong: filter_cong)
      moreover have "\<not> ready s now y" using True b by (simp add: ready_def)
      ultimately show ?thesis
        using Cons.IH [OF rep' at'] True late step by simp
    next
      case False
      let ?u = "unlink_delayed pp y s"
      let ?s = "enqueue y ?u"
      have fl: "wflags (works s y) = 0" using False b by simp
      note u = unlink_rep [OF rep Cons.prems(2)]
      have rep': "wq_rep ?s (q @ [y]) (xs @ ys)"
        by (rule enqueue_rep [OF u(1) at(2)]) (simp add: u(2) fl)
      have "at_link ?s pp xs ys"
        using unlink_chain [OF Cons.prems(2)] unfolding at_link_def enqueue_fields .
      moreover have "ready ?s now w = ready s now w" if "w \<in> set ys" for w
        using that dist by (auto simp: ready_def enqueue_fields Let_def unlink_fields)
      then have "filter (ready ?s now) ys = filter (ready s now) ys"
        "filter (\<lambda>w. \<not> ready ?s now w) ys = filter (\<lambda>w. \<not> ready s now w) ys"
        by (simp_all cong: filter_cong)
      moreover have "wq_inited ?s = wq_inited s" by (simp add: enqueue_fields unlink_fields)
      moreover have "ready s now y" using fl late by (simp add: ready_def)
      ultimately show ?thesis
        using Cons.IH [OF rep', of pp] False late step by simp
    qed
  qed
qed

lemma tick_rep:
  assumes "wq_rep s q d"
  shows "\<exists>s'. queue_ready_delayed now 0 s = Some s' \<and>
     wq_rep s' (q @ filter (ready s now) d) (filter (\<lambda>w. \<not> ready s now w) d)"
  using ready_loop_rep [of s q "[]" d 0 now] at_link_0 [OF assms] assms by auto

lemma find_slot_at:
  "at_link s pp xs ys \<Longrightarrow>
   find_slot due pp s =
     Some (let zs = xs @ takeWhile (\<lambda>w. due_tick (delayeds s w) \<le> due) ys in if zs = [] then 0 else last zs)"
proof (induction ys arbitrary: xs pp)
  case Nil
  then show ?case
    using at_link_get [OF Nil.prems] by (subst find_slot.simps) (simp add: at_link_def)
next
  case (Cons y ys)
  note at = at_link_step [OF Cons.prems]
  show ?case
  proof (cases "due_tick (delayeds s y) \<le> due")
    case True
    then show ?thesis using Cons.IH [OF at(1)] at by (subst find_slot.simps) (simp add: Let_def)
  next
    case False
    then show ?thesis
      using at Cons.prems by (subst find_slot.simps) (simp add: at_link_def)
  qed
qed

lemma insert_rep:
  fixes due :: u64
  assumes rep: "wq_rep s q (xs @ ys)" and w: "w \<noteq> 0" "w \<notin> set (xs @ ys)"
  defines "pp \<equiv> if xs = [] then 0 else last xs"
  defines "t \<equiv> upd_delayed w (\<lambda>x. x\<lparr>due_tick := due, dflags := 1\<rparr>) s"
  defines "u \<equiv> set_link pp w (upd_delayed w (\<lambda>x. x\<lparr>dnext := get_link pp t\<rparr>) t)"
  shows "wq_rep u q (xs @ w # ys)"
proof -
  have at: "at_link s pp xs ys" using rep by (simp add: at_link_def wq_rep_def pp_def)
  have g: "get_link pp t = get_link pp s"
    using w(2) pp_def last_in_set [of xs] by (auto simp: get_link_def t_def)
  have pw: "pp \<noteq> w" using w last_in_set [of xs] by (auto simp: pp_def)
  have dn: "dnext_of u = (if pp = 0 then (dnext_of s)(w := get_link pp s)
      else (dnext_of s)(w := get_link pp s, pp := w))"
    using pw g by (auto simp: u_def t_def set_link_def fun_eq_iff)
  have dh: "delayed_head u = (if pp = 0 then w else delayed_head s)"
    by (simp add: u_def t_def set_link_def)
  have "chain (dnext_of u) (delayed_head u) (xs @ w # ys)"
  proof (cases xs rule: rev_cases)
    case Nil
    then show ?thesis
      using rep w at_link_get [OF at] unfolding dn dh by (cases ys) (auto simp: pp_def wq_rep_def)
  next
    case (snoc zs z)
    then have p: "pp = z" "z \<noteq> 0"
      using rep by (auto simp: pp_def wq_rep_def seg_append)
    have "seg (dnext_of s) (delayed_head s) zs z" "chain (dnext_of s) (dnext_of s z) ys"
      "z \<notin> set zs" "z \<notin> set ys" "w \<notin> set zs" "w \<notin> set ys" "z \<noteq> w"
      using rep snoc w by (auto simp: wq_rep_def seg_append)
    then show ?thesis
      using p w at_link_get [OF at] unfolding dn dh snoc by (auto simp: seg_append get_link_def)
  qed
  moreover have "dflags (delayeds u x) = (if x = w then 1 else dflags (delayeds s x))" for x
    by (simp add: u_def t_def)
  moreover have "works u = works s" "counters u = counters s" "wq_head u = wq_head s" "wq_tail u = wq_tail s"
    by (simp_all add: u_def t_def)
  ultimately show ?thesis
    using rep w unfolding wq_rep_def by auto
qed

lemma cancel_loop_rep:
  "wq_rep s q (xs @ ys) \<Longrightarrow> at_link s pp xs ys \<Longrightarrow> w \<notin> set xs \<Longrightarrow>
   \<exists>s'. cancel_loop w pp s = Some (if w \<in> set ys then 1 else 0, s') \<and>
     wq_rep s' q (xs @ filter (\<lambda>x. x \<noteq> w) ys)"
proof (induction ys arbitrary: xs pp)
  case Nil
  then show ?case using at_link_get [OF Nil.prems(2)] by (subst cancel_loop.simps) simp
next
  case (Cons y ys)
  note at = at_link_step [OF Cons.prems(2)]
  show ?case
  proof (cases "y = w")
    case True
    have "w \<notin> set ys" using Cons.prems(1) True by (simp add: wq_rep_def)
    then have "filter (\<lambda>x. x \<noteq> w) ys = ys" by (simp add: filter_id_conv) blast
    then show ?thesis
      using True at(2,3) unlink_rep(1) [OF Cons.prems(1,2)] by (subst cancel_loop.simps) simp
  next
    case False
    then show ?thesis
      using Cons.IH [of "xs @ [y]" y] Cons.prems at by (subst cancel_loop.simps) auto
  qed
qed

lemma queue_delayed_rep:
  assumes rep: "wq_rep s q d"
  shows "\<exists>r s'. kernel_queue_delayed_work ticks w delay s = Some (r, s') \<and>
    (if w = 0 \<or> wfn (works s w) = 0 then r = - 1 \<and> s' = s
     else if \<not> wq_inited s then r = - 3 \<and> s' = s
     else if w \<in> set d \<or> w \<in> set q then r = - 2 \<and> wq_rep s' q d
     else r = 0 \<and> due_tick (delayeds s' w) = ticks + delay \<and>
       wq_rep s' q (takeWhile (\<lambda>x. due_tick (delayeds s x) \<le> ticks + delay) d @ w #
                    dropWhile (\<lambda>x. due_tick (delayeds s x) \<le> ticks + delay) d))"
proof (cases "w = 0 \<or> wfn (works s w) = 0 \<or> \<not> wq_inited s")
  case True
  then show ?thesis by (auto simp: kernel_queue_delayed_work_def)
next
  case ok: False
  have fl: "dflags (delayeds s w) AND 1 \<noteq> 0 \<longleftrightarrow> w \<in> set d" "wflags (works s w) AND 1 \<noteq> 0 \<longleftrightarrow> w \<in> set q"
    using rep by (auto simp: wq_rep_def dest: spec [of _ w])
  show ?thesis
  proof (cases "w \<in> set d \<or> w \<in> set q")
    case True
    then show ?thesis
      using ok fl rep by (auto simp: kernel_queue_delayed_work_def work_flags wq_rep_counters)
  next
    case False
    define due where "due = ticks + delay"
    define P where "P = (\<lambda>x. due_tick (delayeds s x) \<le> due)"
    define xs where "xs = takeWhile P d"
    define ys where "ys = dropWhile P d"
    define pp where "pp = (if xs = [] then 0 else last xs)"
    define t where "t = upd_delayed w (\<lambda>x. x\<lparr>due_tick := due, dflags := 1\<rparr>) s"
    have split: "d = xs @ ys" by (simp add: xs_def ys_def)
    have at: "at_link t 0 [] d"
    proof -
      have "dnext_of t = dnext_of s" by (auto simp: t_def)
      then show ?thesis using at_link_0 [OF rep] by (simp add: at_link_def t_def)
    qed
    have "takeWhile (\<lambda>x. due_tick (delayeds t x) \<le> due) d = xs"
      unfolding xs_def P_def using False by (intro takeWhile_cong) (auto simp: t_def)
    then have slot: "find_slot due 0 t = Some pp"
      using find_slot_at [OF at, of due] by (simp add: pp_def Let_def)
    have "wq_rep (set_link pp w (upd_delayed w (\<lambda>x. x\<lparr>dnext := get_link pp t\<rparr>) t)) q (xs @ w # ys)"
      unfolding t_def pp_def
      by (rule insert_rep) (use rep split ok False in auto)
    then show ?thesis
      using ok False fl slot
      by (simp add: kernel_queue_delayed_work_def work_flags due_def [symmetric] Let_def
          t_def [symmetric] xs_def ys_def P_def) (simp add: t_def due_def)
  qed
qed

lemma cancel_rep:
  assumes rep: "wq_rep s q d" and "w \<noteq> 0"
  shows "\<exists>s'. kernel_cancel_delayed_work w s = Some (if w \<in> set d then 1 else 0, s') \<and>
    wq_rep s' q (filter (\<lambda>x. x \<noteq> w) d)"
  using cancel_loop_rep [of s q "[]" d 0 w] at_link_0 [OF rep] assms
  by (simp add: kernel_cancel_delayed_work_def)

lemma worker_take_rep:
  assumes rep: "wq_rep s q d"
  shows "case q of [] \<Rightarrow> fst (worker_take s) = 0 \<and> wq_rep (snd (worker_take s)) [] d
    | w # q' \<Rightarrow> fst (worker_take s) = w \<and> w \<noteq> 0 \<and> wq_rep (snd (worker_take s)) q' d \<and>
        wflags (works (snd (worker_take s)) w) = KERNEL_WORK_RUNNING"
proof (cases q)
  case Nil
  then have "wq_head s = 0" using rep by (simp add: wq_rep_def)
  then show ?thesis using Nil rep by (simp add: worker_take_def take_one_def wq_rep_counters)
next
  case (Cons w q')
  have "w \<noteq> 0" using rep Cons by (simp add: wq_rep_def)
  then show ?thesis
    using Cons take_one_rep(1-3) [of s w q' d] rep
    by (simp add: worker_take_def split_beta work_flags)
qed

lemma worker_done_rep:
  assumes rep: "wq_rep s q d" and "wflags (works s w) = KERNEL_WORK_RUNNING"
  shows "wq_rep (worker_done w s) q d"
proof -
  have n: "next_of (worker_done w s) = next_of s" by (auto simp: worker_done_def Let_def)
  have f: "wflags (works (worker_done w s) x) = (if x = w then 0 else wflags (works s x))" for x
    by (simp add: worker_done_def Let_def)
  have "w \<notin> set q" using rep assms(2) by (simp add: wq_rep_def work_flags)
  then show ?thesis
    using rep unfolding wq_rep_def n f by (auto simp: worker_done_def Let_def)
qed

lemma work_init_rep:
  assumes rep: "wq_rep s q d" and "w \<notin> set q"
  shows "wq_rep (kernel_work_init w fn arg s) q d"
proof -
  let ?s = "kernel_work_init w fn arg s"
  have n: "chain (next_of ?s) (wq_head ?s) q = chain (next_of s) (wq_head s) q"
    using assms(2) by (subst seg_cong [of q "next_of ?s" "next_of s"]) (auto simp: kernel_work_init_def)
  have f: "wflags (works ?s x) = (if x = w \<and> w \<noteq> 0 then 0 else wflags (works s x))" for x
    by (simp add: kernel_work_init_def)
  show ?thesis
    using rep assms(2) unfolding wq_rep_def n f by (auto simp: kernel_work_init_def)
qed

section \<open>Histories\<close>

text \<open>
  \<open>wq_run A T s\<close>: the queue can be in state \<open>s\<close> after accepting the items \<open>A\<close> and starting the
  items \<open>T\<close>, both in order, under any interleaving of callers, worker and timer. A delayed item
  is accepted when the timer moves it to the queue.
\<close>

inductive wq_run :: "addr list \<Rightarrow> addr list \<Rightarrow> wq \<Rightarrow> bool" where
  run_init: "wq_rep s [] [] \<Longrightarrow> wq_run [] [] s"
| run_item: "wq_run A T s \<Longrightarrow> \<not> busy s w \<Longrightarrow> wq_run A T (kernel_work_init w fn arg s)"
| run_queue: "wq_run A T s \<Longrightarrow> queue_work woken w s = (r, s') \<Longrightarrow>
    wq_run (if r = 0 then A @ [w] else A) T s'"
| run_take: "wq_run A T s \<Longrightarrow> worker_take s = (w, s') \<Longrightarrow>
    wq_run A (if w = 0 then T else T @ [w]) s'"
| run_done: "wq_run A T s \<Longrightarrow> wflags (works s w) = KERNEL_WORK_RUNNING \<Longrightarrow>
    wq_run A T (worker_done w s)"
| run_delay: "wq_run A T s \<Longrightarrow> kernel_queue_delayed_work ticks w delay s = Some (r, s') \<Longrightarrow>
    wq_run A T s'"
| run_cancel: "wq_run A T s \<Longrightarrow> w \<noteq> 0 \<Longrightarrow> kernel_cancel_delayed_work w s = Some (r, s') \<Longrightarrow>
    wq_run A T s'"
| run_tick: "wq_run A T s \<Longrightarrow> chain (dnext_of s) (delayed_head s) d \<Longrightarrow>
    queue_ready_delayed now 0 s = Some s' \<Longrightarrow> wq_run (A @ filter (ready s now) d) T s'"

lemma wq_run_fifo: "wq_run A T s \<Longrightarrow> \<exists>q d. wq_rep s q d \<and> A = T @ q"
proof (induction rule: wq_run.induct)
  case (run_init s)
  then show ?case by auto
next
  case (run_item A T s w fn arg)
  then obtain q d where r: "wq_rep s q d" "A = T @ q" by blast
  have "w \<notin> set q" using run_item(2) busy_iff [OF r(1), of w] r(1) by (auto simp: wq_rep_def)
  then show ?case using work_init_rep [OF r(1)] r(2) by blast
next
  case (run_queue A T s woken w r s')
  then obtain q d where "wq_rep s q d" "A = T @ q" by blast
  then show ?case using queue_work_rep(2) [of s q d woken w] run_queue(2) by auto
next
  case (run_take A T s w s')
  then obtain q d where r: "wq_rep s q d" "A = T @ q" by blast
  show ?case using worker_take_rep [OF r(1)] r(2) run_take(2) by (cases q) auto
next
  case (run_done A T s w)
  then show ?case using worker_done_rep by blast
next
  case (run_delay A T s ticks w delay r s')
  then obtain q d where r: "wq_rep s q d" "A = T @ q" by blast
  then show ?case using queue_delayed_rep [OF r(1), of ticks w delay] run_delay(2) by (auto split: if_splits)
next
  case (run_cancel A T s w r s')
  then obtain q d where r: "wq_rep s q d" "A = T @ q" by blast
  then show ?case using cancel_rep [OF r(1), of w] run_cancel(2,3) by auto
next
  case (run_tick A T s d now s')
  then obtain q e where r: "wq_rep s q e" "A = T @ q" by blast
  have "e = d" using r(1) run_tick(2) by (intro chain_unique) (auto simp: wq_rep_def)
  then show ?case using tick_rep [OF r(1), of now] run_tick(3) r(2) by auto
qed

interpretation wq_fifo: fifo "\<lambda>s q. \<exists>d. wq_rep s q d" "\<lambda>w s. w \<noteq> 0 \<and> wflags (works s w) \<noteq> 1" enqueue take_one
proof
  show "\<exists>d. wq_rep (enqueue a s) (q @ [a]) d"
    if "\<exists>d. wq_rep s q d" "a \<noteq> 0 \<and> wflags (works s a) \<noteq> 1" for s q a
    using enqueue_rep that by blast
  show "fst (take_one s) = a \<and> (\<exists>d. wq_rep (snd (take_one s)) q d)" if "\<exists>d. wq_rep s (a # q) d" for s a q
    using take_one_rep(1,2) that by blast
qed

section \<open>Completions\<close>

text \<open>
  A completion is a flag and at most one waiting task. A waiter registers itself and is put to
  sleep before the lock is released, so registering and sleeping are one step; a signal sets
  the flag, takes the registered waiter, and wakes it after releasing the lock. \<open>asleep\<close> is the
  set of tasks blocked in the scheduler, \<open>to_wake\<close> those a signaller is about to wake.
\<close>

record completion =
  cdone :: u32
  waiter :: addr

record csys =
  comp :: completion
  asleep :: "addr set"
  to_wake :: "addr set"

definition kernel_completion_init :: "bool \<Rightarrow> completion \<Rightarrow> completion" where
  "kernel_completion_init b c = c\<lparr>cdone := (if b then 1 else 0), waiter := 0\<rparr>"

definition kernel_completion_reset :: "completion \<Rightarrow> completion" where
  "kernel_completion_reset c = c\<lparr>cdone := 0, waiter := 0\<rparr>"

text \<open>The locked part of a signal, with the task to wake.\<close>

definition kernel_completion_signal :: "completion \<Rightarrow> addr \<times> completion" where
  "kernel_completion_signal c = (waiter c, c\<lparr>cdone := 1, waiter := 0\<rparr>)"

datatype wait_result = Returns int | Sleeps

text \<open>One turn of the wait loop for task \<open>t\<close>, 0 when there is no task that may sleep.\<close>

definition kernel_completion_wait :: "bool \<Rightarrow> addr \<Rightarrow> completion \<Rightarrow> wait_result \<times> completion" where
  "kernel_completion_wait can_sleep t c =
     (if \<not> can_sleep then (Returns (- 2), c)
      else if cdone c \<noteq> 0 then (Returns 0, c\<lparr>cdone := 0, waiter := 0\<rparr>)
      else if t = 0 then (Returns (- 2), c)
      else (Sleeps, c\<lparr>waiter := t\<rparr>))"

text \<open>
  What happens to a completion: tasks turn the wait loop, anyone signals or resets, a
  signaller that has left the lock wakes the task it took, and the scheduler resumes a sleeping
  task for another reason. A sleeping task does nothing.
\<close>

datatype comp_event = C_wait addr | C_reset | C_signal | C_wake addr | C_resume addr

fun comp_do :: "comp_event \<Rightarrow> csys \<Rightarrow> csys" where
  "comp_do (C_wait t) s =
     (if t \<in> asleep s then s
      else case kernel_completion_wait True t (comp s) of (r, c) \<Rightarrow>
        s\<lparr>comp := c, asleep := (if r = Sleeps then insert t (asleep s) else asleep s)\<rparr>)"
| "comp_do C_reset s = s\<lparr>comp := kernel_completion_reset (comp s)\<rparr>"
| "comp_do C_signal s =
     (case kernel_completion_signal (comp s) of (w, c) \<Rightarrow>
        s\<lparr>comp := c, to_wake := (if w \<noteq> 0 then insert w (to_wake s) else to_wake s)\<rparr>)"
| "comp_do (C_wake t) s =
     (if t \<in> to_wake s then s\<lparr>asleep := asleep s - {t}, to_wake := to_wake s - {t}\<rparr> else s)"
| "comp_do (C_resume t) s = s\<lparr>asleep := asleep s - {t}\<rparr>"

definition comp_run :: "comp_event list \<Rightarrow> csys \<Rightarrow> csys" where
  "comp_run es s = fold comp_do es s"

text \<open>
  The use a completion is made for: a task enters the wait, and the completion is reset, only
  while no task sleeps on it.
\<close>

fun one_user :: "comp_event list \<Rightarrow> csys \<Rightarrow> bool" where
  "one_user [] s \<longleftrightarrow> True"
| "one_user (e # es) s \<longleftrightarrow>
     (case e of C_wait t \<Rightarrow> t \<noteq> 0 \<and> asleep s = {} | C_reset \<Rightarrow> asleep s = {} | _ \<Rightarrow> True) \<and> one_user es (comp_do e s)"

definition comp_start :: "bool \<Rightarrow> completion \<Rightarrow> csys" where
  "comp_start b c = \<lparr>comp = kernel_completion_init b c, asleep = {}, to_wake = {}\<rparr>"

definition comp_inv :: "csys \<Rightarrow> bool" where
  "comp_inv s \<longleftrightarrow> (\<forall>t \<in> asleep s. t \<noteq> 0 \<and> (waiter (comp s) = t \<or> t \<in> to_wake s)) \<and> (waiter (comp s) \<noteq> 0 \<longrightarrow> cdone (comp s) = 0)"

lemma comp_do_inv:
  "comp_inv s \<Longrightarrow> (case e of C_wait t \<Rightarrow> t \<noteq> 0 \<and> asleep s = {} | C_reset \<Rightarrow> asleep s = {} | _ \<Rightarrow> True) \<Longrightarrow> comp_inv (comp_do e s)"
  by (cases e) (auto simp: comp_inv_def kernel_completion_wait_def kernel_completion_signal_def kernel_completion_reset_def split: if_splits)

lemma comp_run_inv: "comp_inv s \<Longrightarrow> one_user es s \<Longrightarrow> comp_inv (comp_run es s)"
proof (induction es arbitrary: s)
  case (Cons e es)
  then have "comp_inv (comp_do e s)" by (intro comp_do_inv) simp_all
  then show ?case using Cons by (simp add: comp_run_def)
qed (simp add: comp_run_def)

text \<open>
  Outside that use sleepers are lost: a second waiter replaces the first, and a reset forgets
  the waiter; no later signal reaches the task.
\<close>

lemma second_waiter_loses_first:
  "comp_run [C_wait 1, C_wait 2, C_signal, C_wake 2] (comp_start False c) =
     \<lparr>comp = c\<lparr>cdone := 1, waiter := 0\<rparr>, asleep = {1}, to_wake = {}\<rparr>"
  by (simp add: comp_run_def comp_start_def kernel_completion_init_def kernel_completion_wait_def kernel_completion_signal_def)

lemma reset_loses_waiter:
  "comp_run [C_wait 1, C_reset, C_signal] (comp_start False c) =
     \<lparr>comp = c\<lparr>cdone := 1, waiter := 0\<rparr>, asleep = {1}, to_wake = {}\<rparr>"
  by (simp add: comp_run_def comp_start_def kernel_completion_init_def kernel_completion_wait_def kernel_completion_signal_def
      kernel_completion_reset_def)

section \<open>Properties\<close>

text \<open>
  C22: the work queue is first-in first-out under every interleaving of callers, worker, timer
  and cancellation: the items started are, in order, the first items accepted, and the ones
  accepted but not started are exactly the pending list the store represents, each once, with
  the depth counter its length.
\<close>
theorem wq_first_in_first_out:
  assumes "wq_run A T s"
  shows "\<exists>q d. A = T @ q \<and> chain (next_of s) (wq_head s) q \<and> distinct q \<and>
    depth (counters s) = of_nat (length q) \<and> (\<forall>w. w \<in> set q \<longleftrightarrow> wflags (works s w) = KERNEL_WORK_PENDING) \<and>
    chain (dnext_of s) (delayed_head s) d \<and> distinct d"
  using wq_run_fifo [OF assms] by (auto simp: wq_rep_def work_flags)

definition demo_wq :: wq where
  "demo_wq = wq_init \<lparr>works = (\<lambda>w. \<lparr>wfn = 0x100, warg = 0, wnext = 0, wflags = 0\<rparr>),
     delayeds = (\<lambda>w. \<lparr>dnext = 0, due_tick = 0, dflags = 0\<rparr>), wq_head = 0, wq_tail = 0,
     delayed_head = 0, worker = 0, timer = 0, wq_inited = False, wq_started = False,
     counters = \<lparr>queued = 0, completed = 0, rejected = 0, wakeups = 0, waits = 0, max_depth = 0,
       depth = 0, worker_pid = 0\<rparr>\<rparr>"

lemma demo_wq_rep: "wq_rep demo_wq [] []"
  by (simp add: demo_wq_def wq_init_def wq_rep_def)

theorem wq_first_in_first_out_witness:
  "\<exists>q d. [0x10] = [] @ q \<and> chain (next_of (snd (queue_work False 0x10 demo_wq)))
      (wq_head (snd (queue_work False 0x10 demo_wq))) q \<and> distinct q \<and>
      chain (dnext_of (snd (queue_work False 0x10 demo_wq)))
        (delayed_head (snd (queue_work False 0x10 demo_wq))) d"
proof -
  have "queue_work False 0x10 demo_wq = (0, snd (queue_work False 0x10 demo_wq))"
    by (simp add: queue_work_def busy_def demo_wq_def wq_init_def)
  from run_queue [OF run_init [OF demo_wq_rep] this]
  have "wq_run [0x10] [] (snd (queue_work False 0x10 demo_wq))" by simp
  from wq_first_in_first_out [OF this] show ?thesis by blast
qed

text \<open>
  C23: as many turns of the worker as there are pending items start all of them, in the order
  they were queued, and leave the queue empty.
\<close>
theorem worker_drains_queue:
  assumes "wq_rep s q d"
  shows "\<exists>t e. wq_fifo.gets (length q) s = (q, t) \<and> wq_rep t [] e"
  using wq_fifo.gets_all [of s q] assms by blast

theorem worker_drains_queue_witness:
  "\<exists>t e. wq_fifo.gets (length [0x10 :: addr]) (enqueue 0x10 demo_wq) = ([0x10], t) \<and> wq_rep t [] e"
proof (rule worker_drains_queue)
  have "wq_rep (enqueue 0x10 demo_wq) ([] @ [0x10]) []"
    by (rule enqueue_rep [OF demo_wq_rep]) (simp_all add: demo_wq_def wq_init_def)
  then show "wq_rep (enqueue 0x10 demo_wq) [0x10] []" by simp
qed

text \<open>
  C24: a timer tick returns and moves exactly the delayed items that are due and idle to the end
  of the queue, keeping their order, and keeps every other delayed item.
\<close>
theorem tick_moves_ready:
  assumes "wq_rep s q d"
  shows "\<exists>s'. queue_ready_delayed now 0 s = Some s' \<and>
     wq_rep s' (q @ filter (ready s now) d) (filter (\<lambda>w. \<not> ready s now w) d)"
  by (rule tick_rep [OF assms])

text \<open>Two delayed items, due at 3 and at 9.\<close>

definition demo_delayed :: wq where
  "demo_delayed = demo_wq\<lparr>delayeds := (\<lambda>w. if w = 0x10 then \<lparr>dnext = 0x20, due_tick = 3, dflags = 1\<rparr>
       else \<lparr>dnext = 0, due_tick = 9, dflags = (if w = 0x20 then 1 else 0)\<rparr>), delayed_head := 0x10\<rparr>"

theorem tick_moves_ready_witness:
  "\<exists>s'. queue_ready_delayed 5 0 demo_delayed = Some s' \<and> wq_rep s' [0x10] [0x20]"
proof -
  have "wq_rep demo_delayed [] [0x10, 0x20]"
    by (simp add: demo_delayed_def demo_wq_def wq_init_def wq_rep_def)
  from tick_moves_ready [OF this, of 5] show ?thesis
    by (simp add: demo_delayed_def demo_wq_def wq_init_def ready_def)
qed

text \<open>
  C25: no wake-up is lost on a completion used by one task at a time, that is, in every history of
  waits, resets, signals, wake-ups and other resumptions in which a task enters the wait and
  the completion is reset only while no task sleeps on it: a sleeping task is still the
  registered waiter of a completion that has not been signalled, or a signaller is about to wake it;
  so one more signal and the wake-up that follows it end its sleep.
\<close>
theorem completion_no_lost_wakeup:
  assumes "one_user es (comp_start b c)" and "t \<in> asleep (comp_run es (comp_start b c))"
  shows "(waiter (comp (comp_run es (comp_start b c))) = t \<and> cdone (comp (comp_run es (comp_start b c))) = 0 \<or>
      t \<in> to_wake (comp_run es (comp_start b c))) \<and>
    t \<notin> asleep (comp_run (es @ [C_signal, C_wake t]) (comp_start b c))"
proof -
  let ?s = "comp_run es (comp_start b c)"
  have "comp_inv (comp_start b c)" by (simp add: comp_inv_def comp_start_def kernel_completion_init_def)
  then have inv: "comp_inv ?s" by (rule comp_run_inv [OF _ assms(1)])
  have t: "t \<noteq> 0" "waiter (comp ?s) = t \<or> t \<in> to_wake ?s" using inv assms(2) by (auto simp: comp_inv_def)
  have "comp_run (es @ [C_signal, C_wake t]) (comp_start b c) = comp_do (C_wake t) (comp_do C_signal ?s)"
    by (simp add: comp_run_def)
  then have "t \<notin> asleep (comp_run (es @ [C_signal, C_wake t]) (comp_start b c))"
    using t by (auto simp: kernel_completion_signal_def)
  then show ?thesis using t inv by (auto simp: comp_inv_def)
qed

theorem completion_no_lost_wakeup_witness:
  "0x40 \<in> asleep (comp_run [C_wait 0x40, C_signal] (comp_start False \<lparr>cdone = 0, waiter = 0\<rparr>)) \<and>
   0x40 \<in> to_wake (comp_run [C_wait 0x40, C_signal] (comp_start False \<lparr>cdone = 0, waiter = 0\<rparr>)) \<and>
   0x40 \<notin> asleep (comp_run [C_wait 0x40, C_signal, C_signal, C_wake 0x40] (comp_start False \<lparr>cdone = 0, waiter = 0\<rparr>))"
proof -
  let ?es = "[C_wait 0x40, C_signal]" and ?s = "comp_start False \<lparr>cdone = 0, waiter = 0\<rparr>"
  have o: "one_user ?es ?s" by (simp add: comp_start_def)
  have e: "comp_run ?es ?s = \<lparr>comp = \<lparr>cdone = 1, waiter = 0\<rparr>, asleep = {0x40}, to_wake = {0x40}\<rparr>"
    by (simp add: comp_run_def comp_start_def kernel_completion_init_def kernel_completion_wait_def kernel_completion_signal_def)
  show ?thesis using completion_no_lost_wakeup [OF o, of "0x40"] unfolding e by simp
qed

end
