(* ===== verification/Boot_Options.thy ===== *)
theory Boot_Options
  imports Prelude
begin

text \<open>
  The boot command line, \<^verbatim>\<open>src/src/impl/x86_64/boot_options.cpp\<close>. A C string is the list
  of its characters before the terminator; a token is the pair of a pointer and a length in
  the source and the list of its characters here, so \<^verbatim>\<open>strncmp(tok, lit, n) == 0\<close> with \<open>n\<close>
  at most the token's length is a test of its first \<open>n\<close> characters. The fixed-size arrays of
  \<^verbatim>\<open>options\<close> hold the strings below, and the bounds are proved.
\<close>

section \<open>State\<close>

datatype root_kind = Root_none | Root_disk | Root_part

record options =
  valid :: bool
  root :: root_kind
  root_uuid :: string
  rootfs :: string
  rootmode :: string
  opt_error :: string

definition no_options :: options where
  "no_options = \<lparr>valid = True, root = Root_none, root_uuid = [], rootfs = [], rootmode = [], opt_error = []\<rparr>"

definition code :: "char \<Rightarrow> nat" where
  "code c = of_char c"

definition is_space :: "char \<Rightarrow> bool" where
  "is_space c \<longleftrightarrow> c = CHR '' '' \<or> c = CHR 0x09 \<or> c = CHR 0x0A \<or> c = CHR 0x0D"

section \<open>Values\<close>

text \<open>The message is cut to the 79 characters its array holds.\<close>

definition set_error :: "string \<Rightarrow> options \<Rightarrow> bool \<times> options" where
  "set_error msg g = (False, g\<lparr>valid := False, opt_error := take 79 msg\<rparr>)"

definition is_hex :: "char \<Rightarrow> bool" where
  "is_hex c \<longleftrightarrow> code CHR ''0'' \<le> code c \<and> code c \<le> code CHR ''9'' \<or>
     code CHR ''a'' \<le> code c \<and> code c \<le> code CHR ''f'' \<or>
     code CHR ''A'' \<le> code c \<and> code c \<le> code CHR ''F''"

definition lower_hex :: "char \<Rightarrow> char" where
  "lower_hex c = (if code CHR ''A'' \<le> code c \<and> code c \<le> code CHR ''F''
     then char_of (code c - code CHR ''A'' + code CHR ''a'') else c)"

definition valid_gpt_uuid :: "string \<Rightarrow> bool" where
  "valid_gpt_uuid s \<longleftrightarrow> length s = 36 \<and>
     (\<forall>i \<in> set [0..<36]. if i = 8 \<or> i = 13 \<or> i = 18 \<or> i = 23 then s ! i = CHR ''-'' else is_hex (s ! i))"

definition valid_mbr_disk_uuid :: "string \<Rightarrow> bool" where
  "valid_mbr_disk_uuid s \<longleftrightarrow> length s = 8 \<and> (\<forall>i \<in> set [0..<8]. is_hex (s ! i))"

definition valid_mbr_part_uuid :: "string \<Rightarrow> bool" where
  "valid_mbr_part_uuid s \<longleftrightarrow> length s = 11 \<and> s ! 8 = CHR ''-'' \<and>
     (\<forall>i \<in> set [0..<8]. is_hex (s ! i)) \<and> is_hex (s ! 9) \<and> is_hex (s ! 10)"

definition copy_token :: "nat \<Rightarrow> string \<Rightarrow> string option" where
  "copy_token dst_size src = (if dst_size = 0 \<or> length src \<ge> dst_size then None else Some src)"

definition copy_disk_uuid :: "string \<Rightarrow> string option" where
  "copy_disk_uuid src =
     (if \<not> valid_gpt_uuid src \<and> \<not> valid_mbr_disk_uuid src then None else Some (map lower_hex src))"

definition copy_part_uuid :: "string \<Rightarrow> string option" where
  "copy_part_uuid src =
     (if \<not> valid_gpt_uuid src \<and> \<not> valid_mbr_part_uuid src then None else Some (map lower_hex src))"

section \<open>Options\<close>

definition set_root :: "string \<Rightarrow> options \<Rightarrow> bool \<times> options" where
  "set_root v g =
     (if root g \<noteq> Root_none then set_error ''duplicate root option'' g
      else if length v > 5 \<and> take 5 v = ''disk:'' then
        (case copy_disk_uuid (drop 5 v) of
           None \<Rightarrow> set_error ''bad root disk uuid'' g
         | Some u \<Rightarrow> (True, g\<lparr>root_uuid := u, root := Root_disk\<rparr>))
      else if length v > 5 \<and> take 5 v = ''part:'' then
        (case copy_part_uuid (drop 5 v) of
           None \<Rightarrow> set_error ''bad root partition uuid'' g
         | Some u \<Rightarrow> (True, g\<lparr>root_uuid := u, root := Root_part\<rparr>))
      else set_error ''bad root option'' g)"

definition valid_fs_name :: "string \<Rightarrow> bool" where
  "valid_fs_name s \<longleftrightarrow> \<not> (length s = 0 \<or> length s \<ge> 32) \<and>
     (\<forall>c \<in> set s. code CHR ''a'' \<le> code c \<and> code c \<le> code CHR ''z'' \<or>
        code CHR ''0'' \<le> code c \<and> code c \<le> code CHR ''9'' \<or> c = CHR ''_'' \<or> c = CHR ''-'')"

definition set_rootfs :: "string \<Rightarrow> options \<Rightarrow> bool \<times> options" where
  "set_rootfs v g =
     (if rootfs g \<noteq> [] then set_error ''duplicate rootfs option'' g
      else if \<not> valid_fs_name v then set_error ''bad rootfs option'' g
      else case copy_token 32 v of None \<Rightarrow> (False, g) | Some t \<Rightarrow> (True, g\<lparr>rootfs := t\<rparr>))"

definition set_rootmode :: "string \<Rightarrow> options \<Rightarrow> bool \<times> options" where
  "set_rootmode v g =
     (if rootmode g \<noteq> [] then set_error ''duplicate rootmode option'' g
      else if length v = 1 \<and> v ! 0 = CHR ''r'' then
        (case copy_token 3 ''r'' of None \<Rightarrow> (False, g) | Some t \<Rightarrow> (True, g\<lparr>rootmode := t\<rparr>))
      else if length v = 2 \<and> v ! 0 = CHR ''r'' \<and> v ! 1 = CHR ''w'' then
        (case copy_token 3 ''rw'' of None \<Rightarrow> (False, g) | Some t \<Rightarrow> (True, g\<lparr>rootmode := t\<rparr>))
      else set_error ''bad rootmode option'' g)"

definition parse_option :: "string \<Rightarrow> options \<Rightarrow> bool \<times> options" where
  "parse_option tok g =
     (if length tok = 0 then (True, g)
      else if length tok \<ge> 5 \<and> take 5 tok = ''root='' then set_root (drop 5 tok) g
      else if length tok \<ge> 7 \<and> take 7 tok = ''rootfs='' then set_rootfs (drop 7 tok) g
      else if length tok \<ge> 9 \<and> take 9 tok = ''rootmode='' then set_rootmode (drop 9 tok) g
      else if CHR ''='' \<notin> set tok \<and> tok ! 0 = CHR ''/'' then (True, g)
      else set_error ''unknown boot option'' g)"

function parse_cmdline :: "string \<Rightarrow> options \<Rightarrow> options" where
  "parse_cmdline p g =
     (if p = [] then g
      else
        let q = dropWhile is_space p;
            tok = takeWhile (\<lambda>c. \<not> is_space c) q;
            rest = dropWhile (\<lambda>c. \<not> is_space c) q
        in case parse_option tok g of (ok, g') \<Rightarrow> if ok then parse_cmdline rest g' else g')"
  by auto
termination
proof (relation "measure (\<lambda>(p, g). length p)")
  fix p :: string and g q tok rest a ok g'
  assume a: "p \<noteq> []" "q = dropWhile is_space p" "rest = dropWhile (\<lambda>c. \<not> is_space c) q"
  have "length rest < length p"
  proof (cases "q = p")
    case True
    then have "\<not> is_space (hd p)" using a(1,2) by (metis hd_dropWhile)
    then show ?thesis
      using a(1,3) True length_dropWhile_le [of "\<lambda>c. \<not> is_space c" "tl p"] by (cases p) (auto simp: less_Suc_eq_le)
  next
    case False
    have e: "p = takeWhile is_space p @ q" by (simp add: a(2))
    with False have "takeWhile is_space p \<noteq> []" by (metis append_Nil)
    then have "length q < length p" using arg_cong [OF e, of length] by simp
    then show ?thesis using a(3) length_dropWhile_le [of "\<lambda>c. \<not> is_space c" q] by simp
  qed
  then show "((rest, g'), p, g) \<in> measure (\<lambda>(p, g). length p)" by simp
qed simp

declare parse_cmdline.simps [simp del]

text \<open>
  The multiboot information is the list of its tags up to the end tag; the first command-line
  tag decides.
\<close>

definition MULTIBOOT_TAG_TYPE_CMDLINE :: nat where "MULTIBOOT_TAG_TYPE_CMDLINE = 1"

definition default_mode :: "options \<Rightarrow> options" where
  "default_mode g = (if valid g \<and> rootmode g = [] then g\<lparr>rootmode := ''r''\<rparr> else g)"

fun boot_options_init :: "(nat \<times> string) list \<Rightarrow> options" where
  "boot_options_init [] = default_mode no_options"
| "boot_options_init ((ty, txt) # tags) =
     (if ty = MULTIBOOT_TAG_TYPE_CMDLINE then default_mode (parse_cmdline txt no_options)
      else boot_options_init tags)"

section \<open>Tokens\<close>

text \<open>The reference: the maximal runs of non-blank characters.\<close>

function tokens :: "string \<Rightarrow> string list" where
  "tokens [] = []"
| "is_space c \<Longrightarrow> tokens (c # s) = tokens s"
| "\<not> is_space c \<Longrightarrow> tokens (c # s) =
     (c # takeWhile (\<lambda>x. \<not> is_space x) s) # tokens (dropWhile (\<lambda>x. \<not> is_space x) s)"
  by (metis list.exhaust) auto
termination
  by (relation "measure length") (auto simp: less_Suc_eq_le length_dropWhile_le)

fun run_options :: "string list \<Rightarrow> options \<Rightarrow> options" where
  "run_options [] g = g"
| "run_options (t # ts) g = (case parse_option t g of (ok, g') \<Rightarrow> if ok then run_options ts g' else g')"

lemma tokens_skip: "tokens (dropWhile is_space s) = tokens s"
  by (induction s) auto

lemma parse_cmdline_tokens: "parse_cmdline p g = run_options (tokens p) g"
proof (induction p g rule: parse_cmdline.induct)
  case (1 p g)
  show ?case
  proof (cases "dropWhile is_space p")
    case Nil
    then have "tokens p = []" by (metis tokens.simps(1) tokens_skip)
    then show ?thesis
      by (subst parse_cmdline.simps)
        (simp add: Nil parse_option_def parse_cmdline.simps [of "[]"] del: dropWhile_eq_Nil_conv)
  next
    case (Cons c s)
    have c: "\<not> is_space c" using Cons by (metis hd_dropWhile list.discI list.sel(1))
    have t: "tokens p = (c # takeWhile (\<lambda>x. \<not> is_space x) s) # tokens (dropWhile (\<lambda>x. \<not> is_space x) s)"
      using tokens_skip [of p] Cons c by simp
    have p: "p \<noteq> []" using Cons by auto
    obtain ok g' where o: "parse_option (c # takeWhile (\<lambda>x. \<not> is_space x) s) g = (ok, g')" by fastforce
    have "parse_cmdline (dropWhile (\<lambda>x. \<not> is_space x) s) g' =
        run_options (tokens (dropWhile (\<lambda>x. \<not> is_space x) s)) g'" if ok
      using 1 [OF p refl refl refl, of ok g'] that c o by (simp add: Cons)
    then show ?thesis
      using p c Cons o by (subst parse_cmdline.simps) (simp add: t)
  qed
qed

section \<open>Invariant\<close>

text \<open>
  Every array is within its bound with room for the terminator, a set root has a well-formed
  lower-case identifier, and an error is recorded exactly when the options are invalid.
\<close>

fun root_ok :: "root_kind \<Rightarrow> string \<Rightarrow> bool" where
  "root_ok Root_none u \<longleftrightarrow> u = []"
| "root_ok Root_disk u \<longleftrightarrow> valid_gpt_uuid u \<or> valid_mbr_disk_uuid u"
| "root_ok Root_part u \<longleftrightarrow> valid_gpt_uuid u \<or> valid_mbr_part_uuid u"

definition opts_wf :: "options \<Rightarrow> bool" where
  "opts_wf g \<longleftrightarrow> length (root_uuid g) < 37 \<and> length (rootfs g) < 32 \<and>
     rootmode g \<in> {[], ''r'', ''rw''} \<and> length (opt_error g) < 80 \<and>
     root_ok (root g) (root_uuid g) \<and>
     map lower_hex (root_uuid g) = root_uuid g \<and>
     (rootfs g \<noteq> [] \<longrightarrow> valid_fs_name (rootfs g)) \<and>
     (valid g \<longleftrightarrow> opt_error g = [])"

lemma code_bound: "code c < 256"
  by (simp add: code_def)

lemma code_char_of [simp]: "n < 256 \<Longrightarrow> code (char_of n) = n"
  by (simp add: code_def)

lemma code_hex_chars [simp]:
  "code CHR ''0'' = 48" "code CHR ''9'' = 57" "code CHR ''a'' = 97" "code CHR ''f'' = 102"
  "code CHR ''A'' = 65" "code CHR ''F'' = 70" "code CHR ''z'' = 122" "code CHR ''-'' = 45"
  by (simp_all add: code_def)

lemma lower_hex_props:
  "is_hex c \<Longrightarrow> is_hex (lower_hex c)" "lower_hex (lower_hex c) = lower_hex c"
  "lower_hex CHR ''-'' = CHR ''-''"
proof -
  show "is_hex c \<Longrightarrow> is_hex (lower_hex c)" by (auto simp: is_hex_def lower_hex_def)
  show "lower_hex (lower_hex c) = lower_hex c" by (auto simp: lower_hex_def)
  show "lower_hex CHR ''-'' = CHR ''-''" by (simp add: lower_hex_def)
qed

lemma lower_uuid:
  "valid_gpt_uuid s \<Longrightarrow> valid_gpt_uuid (map lower_hex s)"
  "valid_mbr_disk_uuid s \<Longrightarrow> valid_mbr_disk_uuid (map lower_hex s)"
  "valid_mbr_part_uuid s \<Longrightarrow> valid_mbr_part_uuid (map lower_hex s)"
  by (auto simp: valid_gpt_uuid_def valid_mbr_disk_uuid_def valid_mbr_part_uuid_def lower_hex_props
      split: if_splits)

lemma uuid_length:
  "valid_gpt_uuid s \<Longrightarrow> length s = 36" "valid_mbr_disk_uuid s \<Longrightarrow> length s = 8"
  "valid_mbr_part_uuid s \<Longrightarrow> length s = 11"
  by (simp_all add: valid_gpt_uuid_def valid_mbr_disk_uuid_def valid_mbr_part_uuid_def)

lemma set_error_wf: "opts_wf g \<Longrightarrow> msg \<noteq> [] \<Longrightarrow> opts_wf (snd (set_error msg g))"
  by (auto simp: opts_wf_def set_error_def)

lemma copy_uuid_ok:
  "copy_disk_uuid v = Some u \<Longrightarrow> root_ok Root_disk u \<and> length u < 37 \<and> map lower_hex u = u"
  "copy_part_uuid v = Some u \<Longrightarrow> root_ok Root_part u \<and> length u < 37 \<and> map lower_hex u = u"
  by (auto simp: copy_disk_uuid_def copy_part_uuid_def lower_uuid lower_hex_props dest: uuid_length
      split: if_splits)

lemma set_root_wf: "opts_wf g \<Longrightarrow> opts_wf (snd (set_root v g))"
proof -
  assume g: "opts_wf g"
  have "opts_wf (g\<lparr>root_uuid := u, root := k\<rparr>)" if "root_ok k u \<and> length u < 37 \<and> map lower_hex u = u" for k u
    using g that by (simp add: opts_wf_def)
  then show ?thesis
    using g copy_uuid_ok [of "drop 5 v"] by (simp add: set_root_def set_error_wf split: option.split)
qed

lemma set_rootfs_wf: "opts_wf g \<Longrightarrow> opts_wf (snd (set_rootfs v g))"
  by (auto simp: set_rootfs_def copy_token_def set_error_wf)
    (auto simp: opts_wf_def valid_fs_name_def)

lemma set_rootmode_wf: "opts_wf g \<Longrightarrow> opts_wf (snd (set_rootmode v g))"
  by (auto simp: set_rootmode_def copy_token_def set_error_wf) (auto simp: opts_wf_def)

lemma parse_option_wf: "opts_wf g \<Longrightarrow> opts_wf (snd (parse_option t g))"
  by (simp add: parse_option_def set_root_wf set_rootfs_wf set_rootmode_wf set_error_wf)

lemma run_options_wf: "opts_wf g \<Longrightarrow> opts_wf (run_options ts g)"
proof (induction ts arbitrary: g)
  case (Cons t ts)
  then show ?case using parse_option_wf [of g t] by (simp add: split_beta)
qed simp

lemma no_options_wf: "opts_wf no_options"
  by (simp add: opts_wf_def no_options_def)

lemma default_mode_wf: "opts_wf g \<Longrightarrow> opts_wf (default_mode g)"
  by (auto simp: default_mode_def opts_wf_def)

lemma init_cmdline: "boot_options_init tags =
    default_mode (case map_of tags MULTIBOOT_TAG_TYPE_CMDLINE of
      None \<Rightarrow> no_options | Some txt \<Rightarrow> run_options (tokens txt) no_options)"
  by (induction tags rule: boot_options_init.induct) (simp_all add: parse_cmdline_tokens)

section \<open>Rejection\<close>

text \<open>Once a root is set it stays set, and a second one is refused.\<close>

definition is_root_token :: "string \<Rightarrow> bool" where
  "is_root_token t \<longleftrightarrow> take 5 t = ''root=''"

lemma root_token_cases:
  "is_root_token t \<Longrightarrow> parse_option t g = set_root (drop 5 t) g"
proof -
  assume t: "is_root_token t"
  then have "length (take 5 t) = 5" by (simp add: is_root_token_def)
  then have "5 \<le> length t" "t \<noteq> []" by auto
  then show ?thesis using t by (simp add: parse_option_def is_root_token_def)
qed

lemma set_error_fst [simp]: "fst (set_error m g) = False" "valid (snd (set_error m g)) = False"
  by (simp_all add: set_error_def)

lemma set_root_ok: "fst (set_root v g) \<Longrightarrow> root (snd (set_root v g)) \<noteq> Root_none \<and> root g = Root_none"
  by (auto simp: set_root_def split: option.splits if_splits)

lemma set_root_fail: "\<not> fst (set_root v g) \<Longrightarrow> \<not> valid (snd (set_root v g))"
  by (auto simp: set_root_def split: option.splits if_splits)

lemma set_rootfs_cases:
  "if fst (set_rootfs v g) then root (snd (set_rootfs v g)) = root g else \<not> valid (snd (set_rootfs v g))"
  by (simp add: set_rootfs_def copy_token_def) (simp add: valid_fs_name_def)

lemma set_rootmode_cases:
  "if fst (set_rootmode v g) then root (snd (set_rootmode v g)) = root g
   else \<not> valid (snd (set_rootmode v g))"
  by (simp add: set_rootmode_def copy_token_def)

lemma parse_option_root:
  assumes "fst (parse_option t g)" and "root g \<noteq> Root_none"
  shows "root (snd (parse_option t g)) = root g \<and> \<not> is_root_token t"
proof -
  have "\<not> is_root_token t"
    using assms set_root_ok [of "drop 5 t" g] root_token_cases [of t g] by auto
  then show ?thesis
    using assms(1) set_rootfs_cases [of "drop 7 t" g] set_rootmode_cases [of "drop 9 t" g]
    by (auto simp: parse_option_def is_root_token_def split: if_splits)
qed

lemma parse_option_fail: "\<not> fst (parse_option t g) \<Longrightarrow> \<not> valid (snd (parse_option t g))"
  using set_root_fail [of "drop 5 t" g] set_rootfs_cases [of "drop 7 t" g]
    set_rootmode_cases [of "drop 9 t" g]
  by (auto simp: parse_option_def split: if_splits)

lemma run_root_again:
  "root g \<noteq> Root_none \<Longrightarrow> \<exists>t \<in> set ts. is_root_token t \<Longrightarrow> \<not> valid (run_options ts g)"
proof (induction ts arbitrary: g)
  case (Cons t ts)
  then show ?case
    using parse_option_root [of t g] parse_option_fail [of t g]
    by (cases "fst (parse_option t g)") (auto simp: split_beta)
qed simp

lemma run_two_roots:
  "is_root_token a \<Longrightarrow> is_root_token b \<Longrightarrow> \<not> valid (run_options (xs @ a # ys @ b # zs) g)"
proof (induction xs arbitrary: g)
  case Nil
  show ?case
  proof (cases "fst (parse_option a g)")
    case True
    then have "root (snd (parse_option a g)) \<noteq> Root_none"
      using set_root_ok [of "drop 5 a" g] root_token_cases [OF Nil(1)] by simp
    then show ?thesis
      using True run_root_again [of "snd (parse_option a g)" "ys @ b # zs"] Nil(2) by (simp add: split_beta)
  next
    case False
    then show ?thesis using parse_option_fail [of a g] by (simp add: split_beta)
  qed
next
  case (Cons x xs)
  then show ?case using parse_option_fail [of x g] by (cases "fst (parse_option x g)") (simp_all add: split_beta)
qed

section \<open>Properties\<close>

text \<open>
  C26: for every command line the parser ends, is the fold of the options over the maximal runs
  of non-blank characters, and keeps every fixed-size array within its bound, the root
  identifier well formed and in lower case, and the error message set exactly when the options
  are invalid.
\<close>
theorem boot_options_correct:
  "opts_wf (boot_options_init tags) \<and>
   boot_options_init tags =
     default_mode (case map_of tags MULTIBOOT_TAG_TYPE_CMDLINE of
       None \<Rightarrow> no_options | Some txt \<Rightarrow> run_options (tokens txt) no_options)"
  unfolding init_cmdline
  by (auto intro!: default_mode_wf run_options_wf no_options_wf split: option.split)

text \<open>
  C27: a command line that names the root twice is rejected, wherever the two options stand.
\<close>
theorem duplicate_root_rejected:
  assumes "tokens txt = xs @ a # ys @ b # zs" and "is_root_token a" and "is_root_token b"
  shows "\<not> valid (boot_options_init [(MULTIBOOT_TAG_TYPE_CMDLINE, txt)])"
  using run_two_roots [OF assms(2,3), of xs ys zs no_options] assms(1)
  by (simp add: parse_cmdline_tokens default_mode_def)

theorem duplicate_root_rejected_witness:
  "\<not> valid (boot_options_init [(MULTIBOOT_TAG_TYPE_CMDLINE, ''root=disk:0123abcd root=part:0'')])"
  by (rule duplicate_root_rejected [of _ "[]" "''root=disk:0123abcd''" "[]" "''root=part:0''" "[]"])
    (simp_all add: is_space_def is_root_token_def)

end
