(* ===== verification/Tmpfs.thy ===== *)
theory Tmpfs
  imports Prelude
begin

text \<open>
  The in-memory file system, \<^verbatim>\<open>src/src/module/tmpfs/src/tmpfs.c\<close>: page-backed files,
  directories as lists of children, quota accounting and mount options.

  Nodes live in a store from node numbers to records; \<^verbatim>\<open>children\<close> and \<^verbatim>\<open>next\<close> are the list of a
  directory's children in link order. A data page is a function from offsets below the page
  size to bytes, an absent page \<open>None\<close>; the length of the page list is
  \<^verbatim>\<open>page_capacity\<close>. File offsets and sizes are the numbers their 64-bit values denote:
  every sum is guarded by the source against overflow. The quota counters stay 64-bit words.
  Whether \<^verbatim>\<open>kmalloc\<close> and \<^verbatim>\<open>krealloc\<close> find memory are the arguments \<open>km\<close> (for the data page of
  an index) and \<open>kr\<close> (for a page array of a size).
\<close>

section \<open>State\<close>

definition TMPFS_PAGE_SIZE :: nat where "TMPFS_PAGE_SIZE = 4096"
definition TMPFS_NAME_MAX :: nat where "TMPFS_NAME_MAX = 255"
definition UINT64_MAX :: nat where "UINT64_MAX = 2 ^ 64 - 1"

datatype node_type = VFS_NODE_FILE | VFS_NODE_DIRECTORY

type_synonym page = "nat \<Rightarrow> u8"

record tmpfs_node =
  tname :: string
  ino :: u32
  ntype :: node_type
  nmode :: u32
  fsize :: nat
  tparent :: "nat option"
  children :: "nat list"
  pages :: "page option list"
  page_count :: nat

record tmpfs_mount =
  limit :: u64
  mused :: u64
  next_ino :: u32
  enforce_limit :: bool
  def_mode :: u32

section \<open>Quota\<close>

definition account :: "u64 \<Rightarrow> tmpfs_mount \<Rightarrow> tmpfs_mount option" where
  "account add m =
     (if enforce_limit m \<and> add > limit m - mused m then None else Some (m\<lparr>mused := mused m + add\<rparr>))"

definition unaccount :: "u64 \<Rightarrow> tmpfs_mount \<Rightarrow> tmpfs_mount" where
  "unaccount sub m = m\<lparr>mused := (if sub > mused m then 0 else mused m - sub)\<rparr>"

abbreviation page_bytes :: u64 where "page_bytes \<equiv> 4096"

section \<open>Page arrays\<close>

text \<open>The doubling loop: the outer option is termination, the inner one overflow.\<close>

partial_function (option) grow_pages :: "nat \<Rightarrow> nat \<Rightarrow> nat option option" where
  "grow_pages cap pgs =
     (if cap < pgs then if cap > UINT64_MAX div 2 then Some None else grow_pages (cap * 2) pgs
      else Some (Some cap))"

definition ensure_page_array :: "(nat \<Rightarrow> bool) \<Rightarrow> nat \<Rightarrow> tmpfs_node \<Rightarrow> tmpfs_node option" where
  "ensure_page_array kr pgs n =
     (if pgs \<le> length (pages n) then Some n
      else case grow_pages (if length (pages n) \<noteq> 0 then length (pages n) else 4) pgs of
        Some (Some cap) \<Rightarrow>
          if cap > UINT64_MAX div 8 then None
          else if \<not> kr cap then None
          else Some (n\<lparr>pages := pages n @ replicate (cap - length (pages n)) None\<rparr>)
      | _ \<Rightarrow> None)"

definition ensure_file_capacity :: "(nat \<Rightarrow> bool) \<Rightarrow> nat \<Rightarrow> tmpfs_node \<Rightarrow> tmpfs_node option" where
  "ensure_file_capacity kr fin n =
     (if fin > UINT64_MAX - 4095 then None
      else
        let pgs = (fin + 4095) div TMPFS_PAGE_SIZE in
        case ensure_page_array kr pgs n of None \<Rightarrow> None
        | Some n' \<Rightarrow> Some (if pgs > page_count n' then n'\<lparr>page_count := pgs\<rparr> else n'))"

definition ensure_data_page ::
  "(nat \<Rightarrow> bool) \<Rightarrow> (nat \<Rightarrow> bool) \<Rightarrow> nat \<Rightarrow> tmpfs_mount \<Rightarrow> tmpfs_node \<Rightarrow>
     bool \<times> tmpfs_mount \<times> tmpfs_node" where
  "ensure_data_page km kr pg m n0 =
     (if pg > UINT64_MAX div TMPFS_PAGE_SIZE - 1 then (False, m, n0)
      else case (if pg \<ge> length (pages n0) then ensure_file_capacity kr ((pg + 1) * TMPFS_PAGE_SIZE) n0
                 else Some n0) of
        None \<Rightarrow> (False, m, n0)
      | Some n \<Rightarrow>
          if pages n ! pg \<noteq> None then (True, m, n)
          else case account page_bytes m of None \<Rightarrow> (False, m, n)
          | Some m' \<Rightarrow>
              if \<not> km pg then (False, unaccount page_bytes m', n)
              else (True, m', n\<lparr>pages := (pages n)[pg := Some (\<lambda>i. 0)]\<rparr>))"

section \<open>File contents\<close>

text \<open>The copy loops, by the bytes still to go; \<open>at\<close> is the absolute file offset.\<close>

function read_loop :: "tmpfs_node \<Rightarrow> nat \<Rightarrow> nat \<Rightarrow> u8 list" where
  "read_loop n at left =
     (if left = 0 then []
      else
        let pg = at div TMPFS_PAGE_SIZE;
            off = at mod TMPFS_PAGE_SIZE;
            cnt = min (TMPFS_PAGE_SIZE - off) left;
            chunk = (case (if pg < length (pages n) then pages n ! pg else None) of
                       Some p \<Rightarrow> map p [off..<off + cnt]
                     | None \<Rightarrow> replicate cnt 0)
        in chunk @ read_loop n (at + cnt) (left - cnt))"
  by auto
termination
  by (relation "measure (\<lambda>(n, at, left). left)") (auto simp: TMPFS_PAGE_SIZE_def)

declare read_loop.simps [simp del]

definition tmpfs_read :: "tmpfs_node \<Rightarrow> nat \<Rightarrow> nat \<Rightarrow> u8 list" where
  "tmpfs_read n off sz =
     (if ntype n \<noteq> VFS_NODE_FILE \<or> off \<ge> fsize n then []
      else read_loop n off (if sz > fsize n - off then fsize n - off else sz))"

definition page_write :: "page \<Rightarrow> nat \<Rightarrow> u8 list \<Rightarrow> page" where
  "page_write p off bs = (\<lambda>i. if off \<le> i \<and> i < off + length bs then bs ! (i - off) else p i)"

function write_loop ::
  "(nat \<Rightarrow> bool) \<Rightarrow> (nat \<Rightarrow> bool) \<Rightarrow> nat \<Rightarrow> u8 list \<Rightarrow> tmpfs_mount \<Rightarrow> tmpfs_node \<Rightarrow>
     nat \<times> tmpfs_mount \<times> tmpfs_node" where
  "write_loop km kr at bs m n =
     (if bs = [] then (0, m, n)
      else
        let pg = at div TMPFS_PAGE_SIZE;
            off = at mod TMPFS_PAGE_SIZE;
            cnt = min (TMPFS_PAGE_SIZE - off) (length bs)
        in case ensure_data_page km kr pg m n of
             (False, m', n') \<Rightarrow> (0, m', n')
           | (True, m', n') \<Rightarrow>
               let n'' = n'\<lparr>pages := (pages n')[pg := Some (page_write (the (pages n' ! pg)) off (take cnt bs))]\<rparr>
               in case write_loop km kr (at + cnt) (drop cnt bs) m' n'' of
                    (done, m3, n3) \<Rightarrow> (cnt + done, m3, n3))"
  by auto
termination
  by (relation "measure (\<lambda>(km, kr, at, bs, m, n). length bs)") (auto simp: TMPFS_PAGE_SIZE_def)

declare write_loop.simps [simp del]

definition tmpfs_write ::
  "(nat \<Rightarrow> bool) \<Rightarrow> (nat \<Rightarrow> bool) \<Rightarrow> nat \<Rightarrow> u8 list \<Rightarrow> tmpfs_mount \<Rightarrow> tmpfs_node \<Rightarrow>
     nat \<times> tmpfs_mount \<times> tmpfs_node" where
  "tmpfs_write km kr off bs m n0 =
     (if ntype n0 \<noteq> VFS_NODE_FILE then (0, m, n0)
      else if bs \<noteq> [] \<and> off > UINT64_MAX - length bs then (0, m, n0)
      else case ensure_file_capacity kr (off + length bs) n0 of None \<Rightarrow> (0, m, n0)
      | Some n \<Rightarrow>
          (case write_loop km kr off bs m n of (done, m', n') \<Rightarrow>
             (done, m', if off + done > fsize n' then n'\<lparr>fsize := off + done\<rparr> else n')))"

text \<open>Freeing the pages from \<open>keep\<close> up to \<open>page_count\<close>.\<close>

fun drop_pages :: "nat list \<Rightarrow> tmpfs_mount \<Rightarrow> page option list \<Rightarrow> tmpfs_mount \<times> page option list" where
  "drop_pages [] m ps = (m, ps)"
| "drop_pages (i # is) m ps =
     (if ps ! i \<noteq> None then drop_pages is (unaccount page_bytes m) (ps[i := None])
      else drop_pages is m ps)"

definition tmpfs_truncate ::
  "(nat \<Rightarrow> bool) \<Rightarrow> nat \<Rightarrow> tmpfs_mount \<Rightarrow> tmpfs_node \<Rightarrow> int \<times> tmpfs_mount \<times> tmpfs_node" where
  "tmpfs_truncate kr sz m n0 =
     (if ntype n0 \<noteq> VFS_NODE_FILE then (- 1, m, n0)
      else if sz > UINT64_MAX - 4095 then (- 1, m, n0)
      else
        let keep = (if sz \<noteq> 0 then (sz + 4095) div TMPFS_PAGE_SIZE else 0) in
        case (if sz > fsize n0 then ensure_file_capacity kr sz n0 else Some n0) of
          None \<Rightarrow> (- 1, m, n0)
        | Some n \<Rightarrow>
            (case drop_pages [keep..<page_count n] m (pages n) of (m', ps) \<Rightarrow>
               let tl = sz mod TMPFS_PAGE_SIZE;
                   ps' = (if keep \<noteq> 0 \<and> tl \<noteq> 0 \<and> ps ! (keep - 1) \<noteq> None
                          then ps[keep - 1 := Some (\<lambda>i. if tl \<le> i \<and> i < TMPFS_PAGE_SIZE then 0 else the (ps ! (keep - 1)) i)]
                          else ps)
               in (0, m', n\<lparr>pages := ps', page_count := keep, fsize := sz\<rparr>)))"

section \<open>Contents and invariant\<close>

text \<open>
  The byte at an offset, absent pages reading as zero. A file is well formed when its pages lie
  below \<^verbatim>\<open>page_count\<close>, that count covers the size, and everything past the size is zero.
\<close>

definition page_byte :: "page option list \<Rightarrow> nat \<Rightarrow> u8" where
  "page_byte ps i =
     (if i div 4096 < length ps
      then case ps ! (i div 4096) of None \<Rightarrow> 0 | Some p \<Rightarrow> p (i mod 4096) else 0)"

definition fbyte :: "tmpfs_node \<Rightarrow> nat \<Rightarrow> u8" where
  "fbyte n i = page_byte (pages n) i"

definition paged :: "tmpfs_node \<Rightarrow> bool" where
  "paged n \<longleftrightarrow> page_count n \<le> length (pages n) \<and> page_count n \<le> UINT64_MAX div 4096 \<and>
     (\<forall>i \<in> {page_count n..<length (pages n)}. pages n ! i = None)"

definition file_wf :: "tmpfs_node \<Rightarrow> bool" where
  "file_wf n \<longleftrightarrow> ntype n = VFS_NODE_FILE \<and> paged n \<and> fsize n \<le> page_count n * 4096 \<and>
     (\<forall>i\<ge>fsize n. fbyte n i = 0)"

definition content :: "tmpfs_node \<Rightarrow> u8 list" where
  "content n = map (fbyte n) [0..<fsize n]"

definition npages :: "page option list \<Rightarrow> nat" where
  "npages ps = length (filter (\<lambda>p. p \<noteq> None) ps)"

lemmas tmpfs_consts = TMPFS_PAGE_SIZE_def UINT64_MAX_def

lemma grow_pages_total:
  "0 < cap \<Longrightarrow> grow_pages cap pgs = Some None \<or>
     (\<exists>c. grow_pages cap pgs = Some (Some c) \<and> cap \<le> c \<and> pgs \<le> c)"
proof (induction "pgs - cap" arbitrary: cap rule: less_induct)
  case less
  show ?case
  proof (cases "cap < pgs \<and> cap \<le> UINT64_MAX div 2")
    case True
    then have "grow_pages (cap * 2) pgs = Some None \<or>
        (\<exists>c. grow_pages (cap * 2) pgs = Some (Some c) \<and> cap * 2 \<le> c \<and> pgs \<le> c)"
      using less.prems by (intro less.hyps) auto
    moreover have "grow_pages cap pgs = grow_pages (cap * 2) pgs"
      using True by (subst grow_pages.simps) simp
    ultimately show ?thesis by auto
  next
    case False
    then show ?thesis by (subst (1 2) grow_pages.simps) auto
  qed
qed

lemma ensure_page_array_ok:
  assumes "ensure_page_array kr pgs n = Some n'"
  obtains k where "n' = n\<lparr>pages := pages n @ replicate k None\<rparr>" "pgs \<le> length (pages n')"
proof (cases "pgs \<le> length (pages n)")
  case True
  then show ?thesis using assms that [of 0] by (simp add: ensure_page_array_def)
next
  case False
  let ?c0 = "if length (pages n) \<noteq> 0 then length (pages n) else 4"
  have "0 < ?c0" by simp
  then consider "grow_pages ?c0 pgs = Some None"
    | c where "grow_pages ?c0 pgs = Some (Some c)" "?c0 \<le> c" "pgs \<le> c"
    using grow_pages_total [of ?c0 pgs] by blast
  then show ?thesis
  proof cases
    case 1
    then show ?thesis using assms False by (simp add: ensure_page_array_def del: length_0_conv)
  next
    case c: 2
    then have "n' = n\<lparr>pages := pages n @ replicate (c - length (pages n)) None\<rparr>"
      using assms False by (simp add: ensure_page_array_def split: if_splits del: length_0_conv)
    then show ?thesis using that c(3) by simp
  qed
qed

lemma page_byte_grow [simp]: "page_byte (ps @ replicate k None) i = page_byte ps i"
  by (simp add: page_byte_def nth_append)

lemma npages_simps [simp]:
  "npages [] = 0" "npages (p # ps) = (if p = None then 0 else 1) + npages ps"
  "npages (ps @ qs) = npages ps + npages qs" "npages (replicate k None) = 0"
  by (simp_all add: npages_def)

lemma npages_update:
  "i < length ps \<Longrightarrow> npages (ps[i := x]) + (if ps ! i = None then 0 else 1) =
     npages ps + (if x = None then 0 else 1)"
proof (induction ps arbitrary: i)
  case (Cons p ps)
  then show ?case by (cases i) auto
qed simp

lemma page_index:
  fixes at j :: nat
  assumes "at mod 4096 + j < 4096"
  shows "(at + j) div 4096 = at div 4096 \<and> (at + j) mod 4096 = at mod 4096 + j"
proof -
  have "at + j = (at mod 4096 + j) + at div 4096 * 4096" by simp
  then show ?thesis
    using assms div_mult_self1 [of 4096 "at mod 4096 + j" "at div 4096"]
      mod_mult_self1 [of "at mod 4096 + j" "at div 4096" 4096] by simp
qed

lemma ceil_page: "(fin :: nat) \<le> (fin + 4095) div 4096 * 4096"
  using div_mult_mod_eq [of "fin + 4095" 4096] mod_less_divisor [of 4096 "fin + 4095"] by linarith

lemma ensure_file_capacity_ok:
  assumes "ensure_file_capacity kr fin n = Some n'" and "paged n"
  obtains k c where "n' = n\<lparr>pages := pages n @ replicate k None, page_count := c\<rparr>"
    "paged n'" "fin \<le> page_count n' * 4096" "page_count n \<le> c" "fin \<le> UINT64_MAX - 4095"
proof -
  let ?p = "(fin + 4095) div 4096"
  obtain n1 where n1: "ensure_page_array kr ?p n = Some n1"
    "n' = (if ?p > page_count n1 then n1\<lparr>page_count := ?p\<rparr> else n1)" "fin \<le> UINT64_MAX - 4095"
    using assms(1)
    by (auto simp: ensure_file_capacity_def TMPFS_PAGE_SIZE_def Let_def split: if_splits option.splits)
  obtain k where k: "n1 = n\<lparr>pages := pages n @ replicate k None\<rparr>" "?p \<le> length (pages n1)"
    using ensure_page_array_ok [OF n1(1)] by blast
  let ?c = "max (page_count n) ?p"
  have n': "n' = n\<lparr>pages := pages n @ replicate k None, page_count := ?c\<rparr>"
    using n1(2) k(1) by (auto simp: max_def)
  have "?p \<le> UINT64_MAX div 4096" using n1(3) by (intro div_le_mono) (simp add: UINT64_MAX_def)
  then have "paged n'"
    using assms(2) k n' by (auto simp: paged_def nth_append)
  moreover have "fin \<le> page_count n' * 4096"
    using ceil_page [of fin] n' by (simp add: max_def)
  ultimately show ?thesis using that [OF n'] n1(3) by simp
qed

section \<open>Reading\<close>

lemma read_loop_bytes: "read_loop n at left = map (fbyte n) [at..<at + left]"
proof (induction n at left rule: read_loop.induct)
  case (1 n at left)
  show ?case
  proof (cases "left = 0")
    case True
    then show ?thesis by (simp add: read_loop.simps)
  next
    case False
    define off where "off = at mod 4096"
    define cnt where "cnt = min (4096 - off) left"
    have off: "off < 4096" by (simp add: off_def)
    have idx: "(at + j) div 4096 = at div 4096 \<and> (at + j) mod 4096 = off + j" if "j < cnt" for j
    proof -
      have "at mod 4096 + j < 4096" using that off by (simp add: cnt_def off_def less_diff_conv add.commute)
      then show ?thesis using page_index [of at j] by (simp add: off_def)
    qed
    have chunk: "(case (if at div 4096 < length (pages n) then pages n ! (at div 4096) else None) of
          Some p \<Rightarrow> map p [off..<off + cnt] | None \<Rightarrow> replicate cnt 0) = map (fbyte n) [at..<at + cnt]"
      by (auto simp: list_eq_iff_nth_eq fbyte_def page_byte_def idx split: option.splits)
    have ih: "read_loop n (at + cnt) (left - cnt) = map (fbyte n) [at + cnt..<at + left]"
      using 1 [OF False refl refl refl refl] False
      by (simp add: TMPFS_PAGE_SIZE_def off_def [symmetric] cnt_def [symmetric]) (simp add: cnt_def)
    have "[at..<at + left] = [at..<at + cnt] @ [at + cnt..<at + left]"
      using upt_add_eq_append [of at "at + cnt" "left - cnt"] by (simp add: cnt_def)
    moreover have "read_loop n at left =
        (case (if at div 4096 < length (pages n) then pages n ! (at div 4096) else None) of
          Some p \<Rightarrow> map p [off..<off + cnt] | None \<Rightarrow> replicate cnt 0) @ read_loop n (at + cnt) (left - cnt)"
      using False by (subst read_loop.simps) (simp only: Let_def TMPFS_PAGE_SIZE_def if_False off_def cnt_def)
    ultimately show ?thesis using chunk ih by simp
  qed
qed

lemma tmpfs_read_content:
  assumes "ntype n = VFS_NODE_FILE"
  shows "tmpfs_read n off sz = take sz (drop off (content n))"
proof (cases "off < fsize n")
  case True
  let ?k = "if sz > fsize n - off then fsize n - off else sz"
  have "take sz [off..<fsize n] = [off..<off + ?k]"
  proof (cases "sz > fsize n - off")
    case True
    then show ?thesis using \<open>off < fsize n\<close> by simp
  next
    case False
    then show ?thesis using True by (simp add: take_upt)
  qed
  then show ?thesis
    using assms True by (simp add: tmpfs_read_def read_loop_bytes content_def drop_map take_map drop_upt)
qed (simp add: assms tmpfs_read_def content_def)

section \<open>Writing\<close>

text \<open>\<open>acct m T\<close>: the mount is charged for exactly \<open>T\<close> pages and is within its limit.\<close>

definition acct :: "tmpfs_mount \<Rightarrow> nat \<Rightarrow> bool" where
  "acct m T \<longleftrightarrow> unat (mused m) = 4096 * T \<and> (enforce_limit m \<longrightarrow> mused m \<le> limit m)"

lemma account_ok:
  assumes "acct m T" and "4096 * (T + 1) < 2 ^ 64"
  shows "case account page_bytes m of
      None \<Rightarrow> enforce_limit m
    | Some m' \<Rightarrow> acct m' (T + 1) \<and> unaccount page_bytes m' = m \<and>
        enforce_limit m' = enforce_limit m \<and> limit m' = limit m"
proof (cases "enforce_limit m \<and> page_bytes > limit m - mused m")
  case True
  then show ?thesis by (simp add: account_def)
next
  case False
  have u: "unat (mused m + page_bytes) = 4096 * (T + 1)"
    using assms by (subst unat_word_ariths) (simp add: acct_def)
  have ge: "\<not> page_bytes > mused m + page_bytes"
    using u by (simp add: word_less_nat_alt)
  have "mused m + page_bytes \<le> limit m" if "enforce_limit m"
  proof -
    have le: "mused m \<le> limit m" "page_bytes \<le> limit m - mused m"
      using that assms(1) False by (auto simp: acct_def)
    then have "unat (limit m - mused m) = unat (limit m) - unat (mused m)" by (simp add: unat_sub)
    then show ?thesis
      using le u assms(1) by (simp add: word_le_nat_alt acct_def)
  qed
  then show ?thesis
    using False u ge by (simp add: account_def acct_def unaccount_def)
qed

lemma acct_cong: "acct m T \<Longrightarrow> T = U \<Longrightarrow> acct m U"
  by simp

lemma ensure_data_page_ok:
  assumes pg: "paged n" "pg < page_count n" and ac: "acct m (T + npages (pages n))"
    and room: "4096 * (T + npages (pages n) + 1) < 2 ^ 64"
  obtains ok m' ps where "ensure_data_page km kr pg m n = (ok, m', n\<lparr>pages := ps\<rparr>)"
    "length ps = length (pages n)" "\<And>i. page_byte ps i = page_byte (pages n) i"
    "ok \<Longrightarrow> ps ! pg \<noteq> None" "paged (n\<lparr>pages := ps\<rparr>)" "acct m' (T + npages ps)"
    "npages ps \<le> npages (pages n) + 1"
    "enforce_limit m' = enforce_limit m" "limit m' = limit m"
    "km pg \<Longrightarrow> \<not> enforce_limit m \<Longrightarrow> ok"
proof -
  have lt: "pg < length (pages n)" using pg by (simp add: paged_def)
  have small: "\<not> pg > UINT64_MAX div TMPFS_PAGE_SIZE - 1"
  proof -
    have "page_count n \<le> UINT64_MAX div TMPFS_PAGE_SIZE"
      using pg(1) by (simp add: paged_def TMPFS_PAGE_SIZE_def)
    then show ?thesis using pg(2) by linarith
  qed
  have d: "ensure_data_page km kr pg m n =
      (if pages n ! pg \<noteq> None then (True, m, n)
       else case account page_bytes m of None \<Rightarrow> (False, m, n)
         | Some m' \<Rightarrow> if \<not> km pg then (False, unaccount page_bytes m', n)
             else (True, m', n\<lparr>pages := (pages n)[pg := Some (\<lambda>i. 0)]\<rparr>))"
    unfolding ensure_data_page_def if_not_P [OF small] using lt by simp
  show ?thesis
  proof (cases "pages n ! pg")
    case (Some p)
    then show ?thesis
      using that [of True m "pages n"] pg(1) ac by (simp add: d)
  next
    case None
    have r: "4096 * (T + npages (pages n) + 1) < 2 ^ 64" using room .
    note a = account_ok [OF ac r]
    show ?thesis
    proof (cases "account page_bytes m")
      case none: None
      then show ?thesis
        using that [of False m "pages n"] pg(1) ac None a by (simp add: d)
    next
      case (Some m')
      show ?thesis
      proof (cases "km pg")
        case False
        then show ?thesis
          using that [of False m "pages n"] pg(1) ac None Some a by (simp add: d)
      next
        case True
        let ?ps = "(pages n)[pg := Some (\<lambda>i. 0)]"
        have e: "ensure_data_page km kr pg m n = (True, m', n\<lparr>pages := ?ps\<rparr>)"
          using None Some True by (simp add: d)
        have b: "page_byte ?ps i = page_byte (pages n) i" for i
          using None lt by (auto simp: page_byte_def nth_list_update)
        have np: "npages ?ps = npages (pages n) + 1"
          using npages_update [OF lt, of "Some (\<lambda>i. 0)"] None by simp
        have "paged (n\<lparr>pages := ?ps\<rparr>)" using pg by (auto simp: paged_def nth_list_update)
        then show ?thesis
          using that [OF e] b np lt a Some by (simp add: ac_simps)
      qed
    qed
  qed
qed

lemma page_write_byte:
  assumes lt: "at div 4096 < length ps" and some: "ps ! (at div 4096) = Some p"
    and fits: "at mod 4096 + length bs \<le> 4096"
  shows "page_byte (ps[at div 4096 := Some (page_write p (at mod 4096) bs)]) i =
    (if at \<le> i \<and> i < at + length bs then bs ! (i - at) else page_byte ps i)"
proof (cases "i div 4096 = at div 4096")
  case True
  have "i = at div 4096 * 4096 + i mod 4096" using True by (metis div_mult_mod_eq)
  moreover have "at = at div 4096 * 4096 + at mod 4096" by simp
  ultimately have "at mod 4096 \<le> i mod 4096 \<longleftrightarrow> at \<le> i" "i mod 4096 - at mod 4096 = i - at"
    "i mod 4096 < at mod 4096 + length bs \<longleftrightarrow> i < at + length bs" by linarith+
  then show ?thesis
    using True lt some by (simp add: page_byte_def page_write_def)
next
  case False
  have "\<not> (at \<le> i \<and> i < at + length bs)"
  proof
    assume "at \<le> i \<and> i < at + length bs"
    then have "at mod 4096 + (i - at) < 4096" using fits by linarith
    then show False using page_index [of at "i - at"] False \<open>at \<le> i \<and> i < at + length bs\<close> by simp
  qed
  then show ?thesis using False by (auto simp: page_byte_def)
qed

lemma write_loop_ok:
  "paged n \<Longrightarrow> at + length bs \<le> page_count n * 4096 \<Longrightarrow> acct m (T + npages (pages n)) \<Longrightarrow>
   4096 * (T + npages (pages n) + length bs) < 2 ^ 64 \<Longrightarrow>
   \<exists>d m' ps. write_loop km kr at bs m n = (d, m', n\<lparr>pages := ps\<rparr>) \<and> d \<le> length bs \<and>
     length ps = length (pages n) \<and> paged (n\<lparr>pages := ps\<rparr>) \<and> acct m' (T + npages ps) \<and>
     (\<forall>i. page_byte ps i = (if at \<le> i \<and> i < at + d then bs ! (i - at) else page_byte (pages n) i)) \<and>
     limit m' = limit m \<and> enforce_limit m' = enforce_limit m \<and>
     ((\<forall>p. km p) \<and> \<not> enforce_limit m \<longrightarrow> d = length bs)"
proof (induction km kr at bs m n rule: write_loop.induct)
  case (1 km kr at bs m n)
  note pg = 1(2) and fit = 1(3) and ac = 1(4) and room = 1(5)
  show ?case
  proof (cases "bs = []")
    case True
    then show ?thesis using pg ac by (auto simp: write_loop.simps intro!: exI [of _ "pages n"])
  next
    case False
    define k where "k = at div 4096"
    define off where "off = at mod 4096"
    define cnt where "cnt = min (4096 - off) (length bs)"
    have off: "off < 4096" by (simp add: off_def)
    have cnt: "0 < cnt" "cnt \<le> length bs" "off + cnt \<le> 4096"
      using False off by (auto simp: cnt_def)
    have klt: "k < page_count n"
      using fit cnt unfolding k_def by (simp add: div_less_iff_less_mult)
    have room1: "4096 * (T + npages (pages n) + 1) < 2 ^ 64"
      using room False by (cases bs) auto
    obtain ok m1 ps where e: "ensure_data_page km kr k m n = (ok, m1, n\<lparr>pages := ps\<rparr>)"
      and ps: "length ps = length (pages n)" "\<And>i. page_byte ps i = page_byte (pages n) i"
        "ok \<Longrightarrow> ps ! k \<noteq> None" "paged (n\<lparr>pages := ps\<rparr>)"
      and m1: "acct m1 (T + npages ps)" "npages ps \<le> npages (pages n) + 1"
        "enforce_limit m1 = enforce_limit m" "limit m1 = limit m" "km k \<Longrightarrow> \<not> enforce_limit m \<Longrightarrow> ok"
      using ensure_data_page_ok [OF pg klt ac room1, of km kr] by blast
    have step: "write_loop km kr at bs m n =
        (case ensure_data_page km kr k m n of
           (False, m', n') \<Rightarrow> (0, m', n')
         | (True, m', n') \<Rightarrow>
             case write_loop km kr (at + cnt) (drop cnt bs) m'
               (n'\<lparr>pages := (pages n')[k := Some (page_write (the (pages n' ! k)) off (take cnt bs))]\<rparr>) of
               (done, m3, n3) \<Rightarrow> (cnt + done, m3, n3))"
      using False by (subst write_loop.simps)
        (simp only: if_False Let_def TMPFS_PAGE_SIZE_def k_def off_def cnt_def)
    show ?thesis
    proof (cases ok)
      case bad: False
      then show ?thesis using step e ps m1 by auto
    next
      case True
      obtain p where p: "ps ! k = Some p" using ps(3) True by auto
      define ps' where "ps' = ps[k := Some (page_write p off (take cnt bs))]"
      have kl: "k < length ps" using klt pg ps(1) by (simp add: paged_def)
      have byte: "page_byte ps' i = (if at \<le> i \<and> i < at + cnt then bs ! (i - at) else page_byte (pages n) i)" for i
        using page_write_byte [of at ps p "take cnt bs" i] kl p cnt ps(2)
        by (auto simp: ps'_def k_def off_def)
      have np: "npages ps' = npages ps"
        using npages_update [OF kl, of "Some (page_write p off (take cnt bs))"] p by (simp add: ps'_def)
      have pg': "paged (n\<lparr>pages := ps'\<rparr>)"
        using ps(4) klt by (auto simp: paged_def ps'_def nth_list_update)
      have fit': "at + cnt + length (drop cnt bs) \<le> page_count (n\<lparr>pages := ps'\<rparr>) * 4096"
        using fit cnt by simp
      have room': "4096 * (T + npages (pages (n\<lparr>pages := ps'\<rparr>)) + length (drop cnt bs)) < 2 ^ 64"
        using room m1(2) cnt np by simp
      have ih: "k = at div TMPFS_PAGE_SIZE" "off = at mod TMPFS_PAGE_SIZE"
          "cnt = min (TMPFS_PAGE_SIZE - off) (length bs)" "ok = True"
          "n\<lparr>pages := ps'\<rparr> = n\<lparr>pages := ps\<rparr>\<lparr>pages := (pages (n\<lparr>pages := ps\<rparr>))
             [k := Some (page_write (the (pages (n\<lparr>pages := ps\<rparr>) ! k)) off (take cnt bs))]\<rparr>"
          "acct m1 (T + npages (pages (n\<lparr>pages := ps'\<rparr>)))"
        using p True m1(1) np by (simp_all add: k_def off_def cnt_def TMPFS_PAGE_SIZE_def ps'_def)
      obtain d m' qs where w: "write_loop km kr (at + cnt) (drop cnt bs) m1 (n\<lparr>pages := ps'\<rparr>) =
            (d, m', n\<lparr>pages := ps'\<rparr>\<lparr>pages := qs\<rparr>)" "d \<le> length (drop cnt bs)"
          "length qs = length (pages (n\<lparr>pages := ps'\<rparr>))" "paged (n\<lparr>pages := ps'\<rparr>\<lparr>pages := qs\<rparr>)"
          "acct m' (T + npages qs)"
          "\<forall>i. page_byte qs i = (if at + cnt \<le> i \<and> i < at + cnt + d then drop cnt bs ! (i - (at + cnt))
             else page_byte (pages (n\<lparr>pages := ps'\<rparr>)) i)"
          "limit m' = limit m1" "enforce_limit m' = enforce_limit m1"
          "(\<forall>p. km p) \<and> \<not> enforce_limit m1 \<longrightarrow> d = length (drop cnt bs)"
        using 1(1) [OF False ih(1,2,3) e [symmetric] ih(4) refl ih(5) pg' fit' ih(6) room'] by blast
      have "write_loop km kr at bs m n = (cnt + d, m', n\<lparr>pages := qs\<rparr>)"
        using step e True p w(1) by (simp add: ps'_def)
      moreover have "page_byte qs i =
          (if at \<le> i \<and> i < at + (cnt + d) then bs ! (i - at) else page_byte (pages n) i)" for i
        using spec [OF w(6), of i] byte [of i] cnt(2) by (auto simp: add.commute)
      moreover have "cnt + d \<le> length bs" using w(2) cnt(2) by simp
      moreover have "(\<forall>p. km p) \<and> \<not> enforce_limit m \<longrightarrow> cnt + d = length bs"
        using w(9) m1(3) cnt(2) by simp
      moreover have "length qs = length (pages n)" "limit m' = limit m" "enforce_limit m' = enforce_limit m"
        using w(3,7,8) m1(3,4) ps(1) by (simp_all add: ps'_def)
      moreover have "paged (n\<lparr>pages := qs\<rparr>)" using w(4) by simp
      ultimately show ?thesis using w(5) by (intro exI conjI allI)
    qed
  qed
qed

section \<open>Write and truncate against byte lists\<close>

definition splice :: "nat \<Rightarrow> u8 list \<Rightarrow> u8 list \<Rightarrow> u8 list" where
  "splice off bs c = take off c @ replicate (off - length c) 0 @ bs @ drop (off + length bs) c"

definition resize :: "nat \<Rightarrow> u8 list \<Rightarrow> u8 list" where
  "resize sz c = take sz c @ replicate (sz - length c) 0"

lemma length_content [simp]: "length (content n) = fsize n"
  by (simp add: content_def)

lemma nth_content: "i < fsize n \<Longrightarrow> content n ! i = fbyte n i"
  by (simp add: content_def)

lemma content_eqI:
  assumes "length c = fsize n" and "\<And>i. i < fsize n \<Longrightarrow> c ! i = fbyte n i"
  shows "content n = c"
  using assms by (intro nth_equalityI) (simp_all add: nth_content)

lemma npages_replicate_None [simp]: "npages (ps @ replicate k None) = npages ps"
  by (simp add: npages_def)

lemma grow_pages_bounded:
  "0 < cap \<Longrightarrow> cap \<le> b \<Longrightarrow> 2 * pgs \<le> b \<Longrightarrow> b \<le> UINT64_MAX \<Longrightarrow> \<exists>c. grow_pages cap pgs = Some (Some c) \<and> c \<le> b"
proof (induction "pgs - cap" arbitrary: cap rule: less_induct)
  case less
  show ?case
  proof (cases "cap < pgs")
    case True
    then have "\<exists>c. grow_pages (cap * 2) pgs = Some (Some c) \<and> c \<le> b"
      using less.prems by (intro less.hyps) auto
    moreover have "\<not> cap > UINT64_MAX div 2" using True less.prems by linarith
    then have "grow_pages cap pgs = grow_pages (cap * 2) pgs"
      using True by (subst grow_pages.simps) simp
    ultimately show ?thesis by simp
  next
    case False
    then show ?thesis using less.prems by (subst grow_pages.simps) simp
  qed
qed

lemma ensure_file_capacity_succeeds:
  assumes fin: "fin \<le> UINT64_MAX - 4095" and kr: "\<forall>c. kr c"
    and cap: "length (pages n) \<le> UINT64_MAX div 8"
  shows "ensure_file_capacity kr fin n \<noteq> None"
proof -
  let ?p = "(fin + 4095) div 4096" and ?c0 = "if length (pages n) \<noteq> 0 then length (pages n) else 4"
  have p: "2 * ?p \<le> UINT64_MAX div 8" using fin by (simp add: UINT64_MAX_def)
  have c0: "0 < ?c0" and c0b: "?c0 \<le> UINT64_MAX div 8" using cap by (auto simp: UINT64_MAX_def)
  obtain c where c: "grow_pages ?c0 ?p = Some (Some c)" "c \<le> UINT64_MAX div 8"
    using grow_pages_bounded [OF c0 c0b p] by (auto simp: UINT64_MAX_def)
  then have "ensure_page_array kr ?p n \<noteq> None"
    using kr by (simp add: ensure_page_array_def del: length_0_conv)
  then show ?thesis using fin
    by (auto simp: ensure_file_capacity_def TMPFS_PAGE_SIZE_def Let_def split: option.split)
qed

lemma splice_content:
  assumes wf: "file_wf n" and sz: "fsize n' = (if off + length bs > fsize n then off + length bs else fsize n)"
    and byte: "\<And>i. fbyte n' i = (if off \<le> i \<and> i < off + length bs then bs ! (i - off) else fbyte n i)"
  shows "content n' = splice off bs (content n)"
proof (rule content_eqI)
  show "length (splice off bs (content n)) = fsize n'"
    using sz by (auto simp: splice_def)
  show "splice off bs (content n) ! i = fbyte n' i" if "i < fsize n'" for i
    using that sz wf
    by (auto simp: splice_def byte nth_append nth_content file_wf_def min_def split: if_splits)
qed

lemma tmpfs_write_ok:
  assumes wf: "file_wf n" and ac: "acct m (T + npages (pages n))"
    and room: "4096 * (T + npages (pages n) + length bs) < 2 ^ 64"
    and w: "tmpfs_write km kr off bs m n = (d, m', n')"
  shows "d \<le> length bs \<and> file_wf n' \<and> acct m' (T + npages (pages n')) \<and>
    limit m' = limit m \<and> enforce_limit m' = enforce_limit m \<and>
    tname n' = tname n \<and> children n' = children n \<and>
    (d = 0 \<and> m' = m \<and> n' = n \<or> content n' = splice off (take d bs) (content n)) \<and>
    (off + length bs \<le> UINT64_MAX - 4095 \<and> (\<forall>c. kr c) \<and> (\<forall>p. km p) \<and> \<not> enforce_limit m \<and>
       length (pages n) \<le> UINT64_MAX div 8 \<longrightarrow> d = length bs \<and> content n' = splice off bs (content n))"
proof -
  have isf: "ntype n = VFS_NODE_FILE" and pg: "paged n" using wf by (simp_all add: file_wf_def)
  have len: "length bs \<le> UINT64_MAX - 4095" using room by (simp add: UINT64_MAX_def)
  show ?thesis
  proof (cases "ensure_file_capacity kr (off + length bs) n")
    case None
    then have "d = 0 \<and> m' = m \<and> n' = n" using w isf by (simp add: tmpfs_write_def split: if_splits)
    then show ?thesis using wf ac None ensure_file_capacity_succeeds [of "off + length bs" kr n] by auto
  next
    case (Some n1)
    then obtain k c where n1: "n1 = n\<lparr>pages := pages n @ replicate k None, page_count := c\<rparr>"
      "paged n1" "off + length bs \<le> page_count n1 * 4096" "page_count n \<le> c"
      "off + length bs \<le> UINT64_MAX - 4095"
      using ensure_file_capacity_ok [OF Some pg] by blast
    have ac1: "acct m (T + npages (pages n1))" and room1: "4096 * (T + npages (pages n1) + length bs) < 2 ^ 64"
      using ac room n1(1) by simp_all
    obtain e m2 ps where l: "write_loop km kr off bs m n1 = (e, m2, n1\<lparr>pages := ps\<rparr>)" "e \<le> length bs"
      "length ps = length (pages n1)" "paged (n1\<lparr>pages := ps\<rparr>)" "acct m2 (T + npages ps)"
      "\<forall>i. page_byte ps i = (if off \<le> i \<and> i < off + e then bs ! (i - off) else page_byte (pages n1) i)"
      "limit m2 = limit m" "enforce_limit m2 = enforce_limit m"
      "(\<forall>p. km p) \<and> \<not> enforce_limit m \<longrightarrow> e = length bs"
      using write_loop_ok [OF n1(2,3) ac1 room1, of km kr] by blast
    define sz where "sz = (if off + e > fsize n then off + e else fsize n)"
    have "off + length bs < UINT64_MAX" using n1(5) by (simp add: UINT64_MAX_def)
    then have r: "d = e" "m' = m2" "n' = n1\<lparr>pages := ps, fsize := sz\<rparr>"
      using w isf Some l(1) n1(1) by (auto simp: tmpfs_write_def sz_def split: if_splits)
    have byte: "fbyte n' i = (if off \<le> i \<and> i < off + length (take d bs) then take d bs ! (i - off) else fbyte n i)" for i
      using spec [OF l(6), of i] r l(2) n1(1) by (auto simp: fbyte_def)
    have c: "content n' = splice off (take d bs) (content n)"
      by (rule splice_content [OF wf]) (use r l(2) byte sz_def in simp_all)
    have "file_wf n'"
      unfolding file_wf_def
    proof (intro conjI allI impI)
      show "ntype n' = VFS_NODE_FILE" using r n1(1) isf by simp
      show "paged n'" using l(4) r by (simp add: paged_def)
      have "fsize n \<le> c * 4096" using wf n1(4) by (auto simp: file_wf_def intro: order_trans)
      then show "fsize n' \<le> page_count n' * 4096" using r n1(1,3) l(2) by (auto simp: sz_def)
      show "fbyte n' i = 0" if "fsize n' \<le> i" for i
        using that r wf byte [of i] l(2) by (auto simp: sz_def file_wf_def split: if_splits)
    qed
    then show ?thesis using r l c n1(1) by auto
  qed
qed

lemma unaccount_ok: "acct m (Suc T) \<Longrightarrow> acct (unaccount page_bytes m) T"
proof -
  assume a: "acct m (Suc T)"
  then have u: "unat (mused m) = 4096 * T + 4096" by (simp add: acct_def)
  then have le: "page_bytes \<le> mused m" by (simp add: word_le_nat_alt)
  then have "unat (mused m - page_bytes) = 4096 * T" using u by (simp add: unat_sub)
  moreover have "mused m - page_bytes \<le> mused m" using le by (rule word_sub_le)
  ultimately show ?thesis using a le by (auto simp: acct_def unaccount_def not_less)
qed

lemma unaccount_frame [simp]:
  "limit (unaccount b m) = limit m" "enforce_limit (unaccount b m) = enforce_limit m"
  "next_ino (unaccount b m) = next_ino m" "def_mode (unaccount b m) = def_mode m"
  by (simp_all add: unaccount_def)

lemma drop_pages_ok:
  "\<forall>i \<in> set is. i < length ps \<Longrightarrow> acct m (T + npages ps) \<Longrightarrow>
   \<exists>m' qs. drop_pages is m ps = (m', qs) \<and> length qs = length ps \<and> acct m' (T + npages qs) \<and>
     (\<forall>i < length ps. qs ! i = (if i \<in> set is then None else ps ! i)) \<and>
     limit m' = limit m \<and> enforce_limit m' = enforce_limit m"
proof (induction "is" arbitrary: m ps)
  case Nil
  then show ?case by simp
next
  case (Cons j js)
  show ?case
  proof (cases "ps ! j")
    case None
    then show ?thesis using Cons.IH [of ps m] Cons.prems by auto
  next
    case (Some p)
    have j: "j < length ps" using Cons.prems by simp
    have "npages (ps[j := None]) + 1 = npages ps"
      using npages_update [OF j, of None] Some by simp
    then have "acct (unaccount page_bytes m) (T + npages (ps[j := None]))"
      using Cons.prems(2) by (intro unaccount_ok) (metis Suc_eq_plus1 add_Suc_right)
    then show ?thesis
      using Cons.IH [of "ps[j := None]" "unaccount page_bytes m"] Cons.prems Some
      by (auto simp: nth_list_update)
  qed
qed

lemma resize_content:
  assumes wf: "file_wf n" and sz: "fsize n' = sz"
    and byte: "\<And>i. i < sz \<Longrightarrow> fbyte n' i = fbyte n i"
  shows "content n' = resize sz (content n)"
proof (rule content_eqI)
  show "length (resize sz (content n)) = fsize n'" using sz by (simp add: resize_def)
  show "resize sz (content n) ! i = fbyte n' i" if "i < fsize n'" for i
    using that sz wf by (auto simp: resize_def byte nth_append nth_content file_wf_def min_def)
qed

lemma keep_pages:
  fixes sz :: nat
  shows "(sz + 4095) div 4096 = sz div 4096 + (if sz mod 4096 = 0 then 0 else 1)"
proof -
  define q r where "q = sz div 4096" and "r = sz mod 4096"
  have e: "sz = q * 4096 + r" "r < 4096" by (simp_all add: q_def r_def)
  have "(sz + 4095) div 4096 = q + (if r = 0 then 0 else 1)"
    by (rule div_nat_eqI) (use e in \<open>simp_all split: if_split\<close>)
  then show ?thesis by (simp add: q_def r_def)
qed

lemma keep_bytes:
  fixes sz :: nat
  assumes keep: "keep = (sz + 4095) div 4096"
  shows "i < sz \<Longrightarrow> i div 4096 < keep"
    and "i < sz \<Longrightarrow> sz mod 4096 \<noteq> 0 \<Longrightarrow> i div 4096 = keep - 1 \<Longrightarrow> i mod 4096 < sz mod 4096"
    and "sz \<le> i \<Longrightarrow> i div 4096 < keep \<Longrightarrow>
      keep \<noteq> 0 \<and> sz mod 4096 \<noteq> 0 \<and> i div 4096 = keep - 1 \<and> sz mod 4096 \<le> i mod 4096"
proof -
  define q r a b where "q = sz div 4096" and "r = sz mod 4096" and "a = i div 4096" and "b = i mod 4096"
  have e: "sz = q * 4096 + r" "r < 4096" "i = a * 4096 + b" "b < 4096"
    by (simp_all add: q_def r_def a_def b_def)
  have k: "keep = q + (if r = 0 then 0 else 1)" unfolding q_def r_def keep by (rule keep_pages)
  have le: "a < q + (if r = 0 then 0 else 1)" if "i < sz"
  proof (rule ccontr)
    assume "\<not> a < q + (if r = 0 then 0 else 1)"
    then have "q * 4096 + r \<le> a * 4096" using e(2) by (cases "r = 0") auto
    then show False using that e by linarith
  qed
  show "i < sz \<Longrightarrow> i div 4096 < keep" using le k by (simp add: a_def)
  have "i < sz \<Longrightarrow> r \<noteq> 0 \<Longrightarrow> a = keep - 1 \<Longrightarrow> b < r" using e k by simp
  then show "i < sz \<Longrightarrow> sz mod 4096 \<noteq> 0 \<Longrightarrow> i div 4096 = keep - 1 \<Longrightarrow> i mod 4096 < sz mod 4096"
    by (simp add: a_def b_def r_def)
  have "keep \<noteq> 0 \<and> r \<noteq> 0 \<and> a = keep - 1 \<and> r \<le> b" if "sz \<le> i" "a < keep"
  proof -
    have "q \<le> a" using that(1) unfolding q_def a_def by (rule div_le_mono)
    then have "r \<noteq> 0" "a = q" using k that(2) by (auto split: if_splits)
    then show ?thesis using e k that(1) by simp
  qed
  then show "sz \<le> i \<Longrightarrow> i div 4096 < keep \<Longrightarrow>
      keep \<noteq> 0 \<and> sz mod 4096 \<noteq> 0 \<and> i div 4096 = keep - 1 \<and> sz mod 4096 \<le> i mod 4096"
    by (simp add: a_def b_def r_def)
qed

text \<open>The pages a truncation leaves.\<close>

lemma trim_pages:
  fixes sz :: nat
  assumes kd: "keep = (sz + 4095) div 4096" and rd: "rest = sz mod 4096" and pg: "paged n" and keep: "keep \<le> page_count n" and len: "length qs = length (pages n)"
    and qs: "\<forall>i < length (pages n). qs ! i = (if i \<in> set [keep..<page_count n] then None else pages n ! i)"
    and rs_def: "rs = (if keep \<noteq> 0 \<and> rest \<noteq> 0 \<and> qs ! (keep - 1) \<noteq> None
      then qs[keep - 1 := Some (\<lambda>i. if rest \<le> i \<and> i < 4096 then 0 else the (qs ! (keep - 1)) i)] else qs)"
  shows "page_byte rs i = (if i < sz then page_byte (pages n) i else 0)"
    and "npages rs = npages qs" and "length rs = length qs"
    and "\<forall>i \<in> {keep..<length rs}. rs ! i = None"
proof -
  have pc: "page_count n \<le> length (pages n)"
    and beyond: "\<And>i. page_count n \<le> i \<Longrightarrow> i < length (pages n) \<Longrightarrow> pages n ! i = None"
    using pg by (auto simp: paged_def)
  show len': "length rs = length qs" by (simp add: rs_def)
  show "npages rs = npages qs"
  proof (cases "keep \<noteq> 0 \<and> rest \<noteq> 0 \<and> qs ! (keep - 1) \<noteq> None")
    case True
    have "keep - 1 < length qs" using True keep pc len by linarith
    from npages_update [OF this, of "Some (\<lambda>i. if rest \<le> i \<and> i < 4096 then 0 else the (qs ! (keep - 1)) i)"]
    show ?thesis using True by (simp only: rs_def) simp
  next
    case False
    then show ?thesis unfolding rs_def by (simp only: if_False)
  qed
  show none: "\<forall>i \<in> {keep..<length rs}. rs ! i = None"
    using qs len beyond by (auto simp: rs_def nth_list_update not_less)
  have keepq: "\<And>i. i < keep \<Longrightarrow> qs ! i = pages n ! i" using qs keep pc by simp
  show "page_byte rs i = (if i < sz then page_byte (pages n) i else 0)"
  proof (cases "i div 4096 < keep")
    case True
    then have l: "i div 4096 < length (pages n)" using keep pc by simp
    show ?thesis
    proof (cases "i div 4096 = keep - 1 \<and> rest \<noteq> 0 \<and> qs ! (keep - 1) \<noteq> None")
      case last: True
      then obtain p where p: "pages n ! (keep - 1) = Some p" using keepq [OF True] by auto
      have rs: "rs ! (keep - 1) = Some (\<lambda>i. if rest \<le> i \<and> i < 4096 then 0 else p i)"
        using last True keepq [OF True] p l len by (simp add: rs_def cong: if_cong)
      have cut: "(i < sz) = (i mod 4096 < rest)"
        using keep_bytes(2,3) [OF kd, of i] last True rd by (cases "i < sz") (auto simp: not_less)
      show ?thesis using rs p cut last l len len' by (auto simp: page_byte_def)
    next
      case False
      then have "rs ! (i div 4096) = pages n ! (i div 4096)"
        using keepq [OF True] by (auto simp: rs_def nth_list_update)
      moreover have "page_byte (pages n) i = 0" if "\<not> i < sz"
        using keep_bytes(3) [OF kd, of i] that True False keepq [OF True] rd
        by (auto simp: page_byte_def)
      ultimately show ?thesis using l len len' by (simp add: page_byte_def)
    qed
  next
    case False
    then have "\<not> i < sz" using keep_bytes(1) [OF kd, of i] by blast
    then show ?thesis using False none by (simp add: page_byte_def)
  qed
qed

lemma tmpfs_truncate_ok:
  assumes wf: "file_wf n" and ac: "acct m (T + npages (pages n))"
    and t: "tmpfs_truncate kr sz m n = (r, m', n')"
  shows "r = - 1 \<and> m' = m \<and> n' = n \<or>
    r = 0 \<and> content n' = resize sz (content n) \<and> file_wf n' \<and> acct m' (T + npages (pages n')) \<and>
    limit m' = limit m \<and> enforce_limit m' = enforce_limit m \<and>
    tname n' = tname n \<and> children n' = children n"
proof (cases "sz > UINT64_MAX - 4095 \<or> sz > fsize n \<and> ensure_file_capacity kr sz n = None")
  case True
  then show ?thesis using t wf by (auto simp: tmpfs_truncate_def file_wf_def Let_def split: if_splits)
next
  case False
  have isf: "ntype n = VFS_NODE_FILE" and pg: "paged n" using wf by (simp_all add: file_wf_def)
  define keep where "keep = (sz + 4095) div 4096"
  obtain n1 where n1: "(if sz > fsize n then ensure_file_capacity kr sz n else Some n) = Some n1"
    using False by (cases "sz > fsize n") auto
  obtain k c where s1: "n1 = n\<lparr>pages := pages n @ replicate k None, page_count := c\<rparr>" "paged n1"
    "sz \<le> c * 4096"
  proof (cases "sz > fsize n")
    case True
    then show ?thesis using n1 ensure_file_capacity_ok [of kr sz n n1] pg that by auto
  next
    case False
    then have "n1 = n\<lparr>pages := pages n @ replicate 0 None, page_count := page_count n\<rparr>" using n1 by simp
    then show ?thesis using that [of "page_count n" 0] wf pg False by (auto simp: file_wf_def)
  qed
  have "(sz + 4095) div 4096 \<le> (c * 4096 + 4095) div 4096" using s1(3) by (intro div_le_mono) simp
  then have keep: "keep \<le> page_count n1" using keep_pages [of "c * 4096"] s1(1) by (simp add: keep_def)
  have in_range: "\<forall>i \<in> set [keep..<page_count n1]. i < length (pages n1)"
    using s1(2) by (auto simp: paged_def)
  have ac1: "acct m (T + npages (pages n1))" using ac s1(1) by simp
  obtain m2 qs where q: "drop_pages [keep..<page_count n1] m (pages n1) = (m2, qs)"
    "length qs = length (pages n1)" "acct m2 (T + npages qs)"
    "\<forall>i < length (pages n1). qs ! i = (if i \<in> set [keep..<page_count n1] then None else pages n1 ! i)"
    "limit m2 = limit m" "enforce_limit m2 = enforce_limit m"
    using drop_pages_ok [OF in_range ac1] by blast
  define rs where "rs = (if keep \<noteq> 0 \<and> sz mod 4096 \<noteq> 0 \<and> qs ! (keep - 1) \<noteq> None
      then qs[keep - 1 := Some (\<lambda>i. if sz mod 4096 \<le> i \<and> i < 4096 then 0 else the (qs ! (keep - 1)) i)] else qs)"
  note tr = trim_pages [OF keep_def refl s1(2) keep q(2,4) rs_def]
  have k0: "(if sz \<noteq> 0 then (sz + 4095) div 4096 else 0) = keep" by (simp add: keep_def)
  have res: "r = 0" "m' = m2" "n' = n1\<lparr>pages := rs, page_count := keep, fsize := sz\<rparr>"
    using t isf False
    unfolding tmpfs_truncate_def TMPFS_PAGE_SIZE_def Let_def k0 n1 option.case q(1) prod.case rs_def [symmetric]
    by simp_all
  have c: "content n' = resize sz (content n)"
    by (rule resize_content [OF wf]) (use res tr(1) s1(1) in \<open>simp_all add: fbyte_def\<close>)
  have "sz \<le> keep * 4096" unfolding keep_def by (rule ceil_page)
  moreover have "keep \<le> UINT64_MAX div 4096" using keep s1(2) by (simp add: paged_def)
  ultimately have "file_wf n'"
    using res tr(1,3,4) s1 isf keep q(2) by (simp add: file_wf_def paged_def fbyte_def)
  then show ?thesis using res c q tr(2) s1(1) by simp
qed

lemma tmpfs_truncate_succeeds:
  assumes wf: "file_wf n" and t: "tmpfs_truncate kr sz m n = (r, m', n')"
    and sz: "sz \<le> fsize n \<or> sz \<le> UINT64_MAX - 4095 \<and> (\<forall>c. kr c) \<and> length (pages n) \<le> UINT64_MAX div 8"
  shows "r = 0"
proof -
  have "fsize n \<le> UINT64_MAX - 4095" using wf by (simp add: file_wf_def paged_def UINT64_MAX_def)
  then have "\<not> sz > UINT64_MAX - 4095" using sz by linarith
  moreover have "(if sz > fsize n then ensure_file_capacity kr sz n else Some n) \<noteq> None"
    using sz ensure_file_capacity_succeeds [of sz kr n] by auto
  ultimately show ?thesis
    using t wf by (auto simp: tmpfs_truncate_def file_wf_def Let_def split: prod.splits option.splits)
qed

section \<open>Properties\<close>

lemma read_back:
  assumes "ntype n' = VFS_NODE_FILE" and "content n' = splice off bs c"
  shows "tmpfs_read n' off (length bs) = bs"
proof -
  have len: "length (take off c @ replicate (off - length c) 0) = off" by simp
  have "drop off (content n') = bs @ drop (off + length bs) c"
    unfolding assms(2) splice_def append_assoc [symmetric] by (subst (2) len [symmetric]) (simp del: len)
  then show ?thesis using assms(1) by (simp add: tmpfs_read_content)
qed

definition new_file :: tmpfs_node where
  "new_file = \<lparr>tname = ''f'', ino = 2, ntype = VFS_NODE_FILE, nmode = 420, fsize = 0, tparent = None,
     children = [], pages = [], page_count = 0\<rparr>"

definition new_mount :: tmpfs_mount where
  "new_mount = \<lparr>limit = 65536, mused = 0, next_ino = 3, enforce_limit = False, def_mode = 420\<rparr>"

lemma new_file_wf: "file_wf new_file" "acct new_mount (0 + npages (pages new_file))"
  by (simp_all add: file_wf_def paged_def new_file_def new_mount_def fbyte_def page_byte_def acct_def npages_def)

text \<open>C28: A write to a file replaces exactly the bytes it reports as written, fills a gap beyond the
  end with zeros, keeps the file well formed and the quota counter equal to the memory in
  use, and leaves the file untouched when the page array cannot grow. What was
  written reads back, and without a quota the whole buffer is written whenever memory is available.\<close>

theorem tmpfs_write_refines:
  assumes "file_wf n" and "acct m (T + npages (pages n))"
    and "4096 * (T + npages (pages n) + length bs) < 2 ^ 64"
    and "tmpfs_write km kr off bs m n = (d, m', n')"
  shows "d \<le> length bs \<and> file_wf n' \<and> acct m' (T + npages (pages n')) \<and>
    (d = 0 \<and> m' = m \<and> n' = n \<or>
      content n' = splice off (take d bs) (content n) \<and> tmpfs_read n' off d = take d bs) \<and>
    (off + length bs \<le> UINT64_MAX - 4095 \<and> (\<forall>c. kr c) \<and> (\<forall>p. km p) \<and> \<not> enforce_limit m \<and>
      length (pages n) \<le> UINT64_MAX div 8 \<longrightarrow> d = length bs)"
proof -
  note ok = tmpfs_write_ok [OF assms]
  have "tmpfs_read n' off d = take d bs" if "content n' = splice off (take d bs) (content n)"
    using read_back [OF _ that] ok by (simp add: file_wf_def)
  then show ?thesis using ok by auto
qed

theorem tmpfs_write_refines_witness:
  "\<exists>d m' n'. tmpfs_write (\<lambda>_. True) (\<lambda>_. True) 4095 [1, 2] new_mount new_file = (d, m', n') \<and>
     d = 2 \<and> tmpfs_read n' 4095 2 = [1, 2]"
proof -
  obtain d m' n' where w: "tmpfs_write (\<lambda>_. True) (\<lambda>_. True) 4095 [1, 2] new_mount new_file = (d, m', n')"
    by (metis prod_cases3)
  have room: "4096 * (0 + npages (pages new_file) + length [1, 2 :: u8]) < 2 ^ 64"
    by (simp add: new_file_def npages_def)
  note t = tmpfs_write_refines [OF new_file_wf room w]
  then have "d = 2" by (simp add: new_mount_def new_file_def UINT64_MAX_def)
  then show ?thesis using t w by simp
qed

text \<open>C29: Truncating a file either fails and changes nothing, or sets its contents to the old contents
  cut or extended with zeros to the new size; the file stays well formed, so that bytes cut
  off never reappear when the file grows again, and the memory of freed pages is given
  back to the quota. Shrinking never fails, and growing only fails when the size is out of range or
  the page array cannot grow.\<close>

theorem tmpfs_truncate_refines:
  assumes "file_wf n" and "acct m (T + npages (pages n))" and "tmpfs_truncate kr sz m n = (r, m', n')"
  shows "(r = - 1 \<and> m' = m \<and> n' = n \<or>
    r = 0 \<and> content n' = resize sz (content n) \<and> file_wf n' \<and> acct m' (T + npages (pages n'))) \<and>
    (sz \<le> fsize n \<or> sz \<le> UINT64_MAX - 4095 \<and> (\<forall>c. kr c) \<and> length (pages n) \<le> UINT64_MAX div 8 \<longrightarrow> r = 0)"
proof -
  have "r = 0" if "sz \<le> fsize n \<or> sz \<le> UINT64_MAX - 4095 \<and> (\<forall>c. kr c) \<and> length (pages n) \<le> UINT64_MAX div 8"
    by (rule tmpfs_truncate_succeeds [OF assms(1,3) that])
  then show ?thesis using tmpfs_truncate_ok [OF assms] by blast
qed

text \<open>Two bytes are written, and a truncation to one byte keeps the first.\<close>

theorem tmpfs_truncate_refines_witness:
  "\<exists>m1 n1 m' n'. tmpfs_write (\<lambda>_. True) (\<lambda>_. True) 0 [7, 8] new_mount new_file = (2, m1, n1) \<and>
     tmpfs_truncate (\<lambda>_. True) 1 m1 n1 = (0, m', n') \<and> content n' = [7]"
proof -
  obtain d m1 n1 where w: "tmpfs_write (\<lambda>_. True) (\<lambda>_. True) 0 [7, 8] new_mount new_file = (d, m1, n1)"
    by (metis prod_cases3)
  have room: "4096 * (0 + npages (pages new_file) + length [7, 8 :: u8]) < 2 ^ 64"
    by (simp add: new_file_def npages_def)
  note ok = tmpfs_write_ok [OF new_file_wf room w]
  have d: "d = 2" using ok by (simp add: new_mount_def new_file_def UINT64_MAX_def)
  have c: "content n1 = [7, 8]" using ok d by (auto simp: splice_def content_def new_file_def)
  then have "length (content n1) = 2" by simp
  then have sz: "1 \<le> fsize n1" by (simp add: content_def)
  obtain r m' n' where t: "tmpfs_truncate (\<lambda>_. True) 1 m1 n1 = (r, m', n')" by (metis prod_cases3)
  have wf: "file_wf n1" "acct m1 (0 + npages (pages n1))" using ok by simp_all
  have "r = 0 \<and> content n' = [7]"
    using tmpfs_truncate_refines [OF wf t] sz c by (auto simp: resize_def)
  then show ?thesis using w d t by blast
qed

end
