(* ===== verification/Tmpfs_Dir.thy ===== *)
theory Tmpfs_Dir
  imports Tmpfs
begin

text \<open>
  The directory half of \<^verbatim>\<open>src/src/module/tmpfs/src/tmpfs.c\<close>: names, lookup, creation, removal,
  renaming, recursive release, mount options, mount and unmount.

  The state of a mount is the store of its live nodes with the mount record. A C string is the
  list of its characters before the terminator, so equal lengths and \<^verbatim>\<open>memcmp\<close> zero are
  equality. Operations that follow node pointers yield \<open>None\<close> when they would touch a node that is not
  live. Which address \<^verbatim>\<open>kmalloc\<close> gives a new node (\<open>None\<close> on failure), whether the name copy
  and the VFS node can be allocated are arguments.
\<close>

section \<open>State and names\<close>

record tmpfs_fs =
  nodes :: "nat \<Rightarrow> tmpfs_node option"
  mnt :: tmpfs_mount

fun name_scan :: "nat \<Rightarrow> string \<Rightarrow> nat option" where
  "name_scan len [] = Some len"
| "name_scan len (c # cs) =
     (if len = TMPFS_NAME_MAX \<or> c = CHR ''/'' then None else name_scan (Suc len) cs)"

definition name_len_valid :: "string \<Rightarrow> nat option" where
  "name_len_valid nm =
     (case name_scan 0 nm of None \<Rightarrow> None
      | Some len \<Rightarrow>
          if len = 0 \<or> len = 1 \<and> nm ! 0 = CHR ''.'' \<or>
             len = 2 \<and> nm ! 0 = CHR ''.'' \<and> nm ! 1 = CHR ''.'' then None
          else Some len)"

definition name_valid :: "string \<Rightarrow> bool" where
  "name_valid nm \<longleftrightarrow> name_len_valid nm \<noteq> None"

section \<open>Lookup\<close>

text \<open>Following the sibling links; the outer option is a dangling link.\<close>

fun find_child_len :: "(nat \<Rightarrow> tmpfs_node option) \<Rightarrow> nat list \<Rightarrow> string \<Rightarrow> nat option option" where
  "find_child_len st [] nm = Some None"
| "find_child_len st (c # cs) nm =
     (case st c of None \<Rightarrow> None
      | Some n \<Rightarrow> if tname n = nm then Some (Some c) else find_child_len st cs nm)"

definition find_child :: "(nat \<Rightarrow> tmpfs_node option) \<Rightarrow> nat list \<Rightarrow> string \<Rightarrow> nat option option" where
  "find_child st cs nm = (case name_len_valid nm of None \<Rightarrow> Some None | Some _ \<Rightarrow> find_child_len st cs nm)"

text \<open>The node a successful \<^verbatim>\<open>tmpfs_finddir\<close> wraps; \<open>mk\<close> is whether the VFS node can be made.\<close>

definition tmpfs_finddir :: "bool \<Rightarrow> nat \<Rightarrow> string \<Rightarrow> tmpfs_fs \<Rightarrow> nat option option" where
  "tmpfs_finddir mk d nm fs =
     (case nodes fs d of None \<Rightarrow> None
      | Some dir \<Rightarrow>
          if ntype dir \<noteq> VFS_NODE_DIRECTORY then Some None
          else (case find_child (nodes fs) (children dir) nm of None \<Rightarrow> None
                | Some r \<Rightarrow> Some (if mk then r else None)))"

record vfs_dirent =
  d_inode :: u32
  d_type :: node_type
  d_name_len :: nat
  d_name :: string

text \<open>The entry at an index; the name is copied when the buffer holds it with its terminator.\<close>

definition tmpfs_readdir :: "nat \<Rightarrow> nat \<Rightarrow> nat \<Rightarrow> tmpfs_fs \<Rightarrow> vfs_dirent option option" where
  "tmpfs_readdir d idx cap fs =
     (case nodes fs d of None \<Rightarrow> None
      | Some dir \<Rightarrow>
          if ntype dir \<noteq> VFS_NODE_DIRECTORY \<or> idx \<ge> length (children dir) then Some None
          else (case nodes fs (children dir ! idx) of None \<Rightarrow> None
                | Some n \<Rightarrow> Some (Some \<lparr>d_inode = ino n, d_type = ntype n, d_name_len = length (tname n),
                    d_name = (if cap > length (tname n) then tname n else [])\<rparr>)))"

section \<open>Creation and release\<close>

definition alloc_node_len ::
  "nat option \<Rightarrow> bool \<Rightarrow> string \<Rightarrow> nat \<Rightarrow> node_type \<Rightarrow> u32 \<Rightarrow> tmpfs_mount \<Rightarrow>
     (nat \<times> tmpfs_node \<times> tmpfs_mount) option" where
  "alloc_node_len an kn nm len ty md m =
     (if len = 0 \<or> len > TMPFS_NAME_MAX then None
      else case an of None \<Rightarrow> None
      | Some a \<Rightarrow>
          if \<not> kn then None
          else Some (a, \<lparr>tname = take len nm, ino = next_ino m, ntype = ty, nmode = md, fsize = 0,
                 tparent = None, children = [], pages = [], page_count = 0\<rparr>, m\<lparr>next_ino := next_ino m + 1\<rparr>))"

definition alloc_node ::
  "nat option \<Rightarrow> bool \<Rightarrow> string \<Rightarrow> node_type \<Rightarrow> u32 \<Rightarrow> tmpfs_mount \<Rightarrow>
     (nat \<times> tmpfs_node \<times> tmpfs_mount) option" where
  "alloc_node an kn nm ty md m =
     (case name_len_valid nm of None \<Rightarrow> None | Some len \<Rightarrow> alloc_node_len an kn nm len ty md m)"

fun free_pages :: "page option list \<Rightarrow> tmpfs_mount \<Rightarrow> tmpfs_mount" where
  "free_pages [] m = m"
| "free_pages (p # ps) m = free_pages ps (if p \<noteq> None then unaccount page_bytes m else m)"

text \<open>\<^verbatim>\<open>free_node\<close> on each node of a list, children first, as its loop over \<^verbatim>\<open>children\<close> does.\<close>

partial_function (option) free_nodes :: "nat list \<Rightarrow> tmpfs_fs \<Rightarrow> tmpfs_fs option" where
  "free_nodes cs fs =
     (case cs of [] \<Rightarrow> Some fs
      | c # rest \<Rightarrow>
          (case nodes fs c of None \<Rightarrow> None
           | Some n \<Rightarrow>
               Option.bind (free_nodes (children n) fs) (\<lambda>fs1.
                 free_nodes rest
                   (fs1\<lparr>nodes := (nodes fs1)(c := None), mnt := free_pages (pages n) (mnt fs1)\<rparr>))))"

definition free_node :: "nat \<Rightarrow> tmpfs_fs \<Rightarrow> tmpfs_fs option" where
  "free_node x fs = free_nodes [x] fs"

text \<open>\<open>mk\<close> is \<open>None\<close> when the caller passes no \<^verbatim>\<open>out\<close>, else whether the VFS node could be made.\<close>

definition tmpfs_create ::
  "nat option \<Rightarrow> bool \<Rightarrow> bool option \<Rightarrow> nat \<Rightarrow> string \<Rightarrow> node_type \<Rightarrow> tmpfs_fs \<Rightarrow> (int \<times> tmpfs_fs) option" where
  "tmpfs_create an kn mk d nm ty fs =
     (case nodes fs d of None \<Rightarrow> None
      | Some dir \<Rightarrow>
          if ntype dir \<noteq> VFS_NODE_DIRECTORY then Some (- 1, fs)
          else case name_len_valid nm of None \<Rightarrow> Some (- 1, fs)
          | Some len \<Rightarrow>
              (case find_child_len (nodes fs) (children dir) nm of None \<Rightarrow> None
               | Some (Some _) \<Rightarrow> Some (- 1, fs)
               | Some None \<Rightarrow>
                   (case alloc_node_len an kn nm len ty (def_mode (mnt fs)) (mnt fs) of
                      None \<Rightarrow> Some (- 1, fs)
                    | Some (a, n, m) \<Rightarrow>
                        let st = (nodes fs)(a \<mapsto> n\<lparr>tparent := Some d\<rparr>,
                                   d \<mapsto> dir\<lparr>children := a # children dir\<rparr>)
                        in if mk = Some False
                           then (case free_node a (fs\<lparr>nodes := st(d \<mapsto> dir), mnt := m\<rparr>) of
                                   None \<Rightarrow> None | Some fs' \<Rightarrow> Some (- 1, fs'))
                           else Some (0, fs\<lparr>nodes := st, mnt := m\<rparr>))))"

text \<open>The unlink loop: the children before the match, in order, the match and the children after.\<close>

fun unlink_scan ::
  "(nat \<Rightarrow> tmpfs_node option) \<Rightarrow> nat list \<Rightarrow> string \<Rightarrow> (nat \<times> tmpfs_node \<times> nat list) option option" where
  "unlink_scan st [] nm = Some None"
| "unlink_scan st (c # cs) nm =
     (case st c of None \<Rightarrow> None
      | Some n \<Rightarrow>
          if tname n = nm then Some (Some (c, n, cs))
          else (case unlink_scan st cs nm of
                  Some (Some (x, n', cs')) \<Rightarrow> Some (Some (x, n', c # cs'))
                | r \<Rightarrow> r))"

definition tmpfs_unlink :: "nat \<Rightarrow> string \<Rightarrow> tmpfs_fs \<Rightarrow> (int \<times> tmpfs_fs) option" where
  "tmpfs_unlink d nm fs =
     (case nodes fs d of None \<Rightarrow> None
      | Some dir \<Rightarrow>
          if ntype dir \<noteq> VFS_NODE_DIRECTORY \<or> name_len_valid nm = None then Some (- 1, fs)
          else (case unlink_scan (nodes fs) (children dir) nm of None \<Rightarrow> None
                | Some None \<Rightarrow> Some (- 1, fs)
                | Some (Some (x, n, cs)) \<Rightarrow>
                    if ntype n = VFS_NODE_DIRECTORY \<and> children n \<noteq> [] then Some (- 1, fs)
                    else (case free_node x (fs\<lparr>nodes := (nodes fs)(d \<mapsto> dir\<lparr>children := cs\<rparr>)\<rparr>) of
                            None \<Rightarrow> None | Some fs' \<Rightarrow> Some (0, fs'))))"

definition tmpfs_rename ::
  "bool \<Rightarrow> nat \<Rightarrow> string \<Rightarrow> nat \<Rightarrow> string \<Rightarrow> tmpfs_fs \<Rightarrow> (int \<times> tmpfs_fs) option" where
  "tmpfs_rename kn od old nd new fs =
     (case (nodes fs od, nodes fs nd) of
        (Some dir, Some ndir) \<Rightarrow>
          if ntype dir \<noteq> VFS_NODE_DIRECTORY \<or> ntype ndir \<noteq> VFS_NODE_DIRECTORY then Some (- 1, fs)
          else if name_len_valid old = None \<or> name_len_valid new = None then Some (- 1, fs)
          else (case find_child_len (nodes fs) (children ndir) new of None \<Rightarrow> None
                | Some (Some _) \<Rightarrow> Some (- 1, fs)
                | Some None \<Rightarrow>
                    (case unlink_scan (nodes fs) (children dir) old of None \<Rightarrow> None
                     | Some None \<Rightarrow> Some (- 1, fs)
                     | Some (Some (x, n, cs)) \<Rightarrow>
                         if \<not> kn then Some (- 1, fs)
                         else
                           let st1 = (nodes fs)(od \<mapsto> dir\<lparr>children := cs\<rparr>);
                               st2 = st1(x \<mapsto> the (st1 x)\<lparr>tname := new, tparent := Some nd\<rparr>)
                           in Some (0, fs\<lparr>nodes := st2(nd \<mapsto> the (st2 nd)\<lparr>children := x # children (the (st2 nd))\<rparr>)\<rparr>)))
      | _ \<Rightarrow> None)"

section \<open>Names and lookup as a finite map\<close>

lemma name_scan_eq:
  "k \<le> 255 \<Longrightarrow> name_scan k nm = (if CHR ''/'' \<notin> set nm \<and> k + length nm \<le> 255 then Some (k + length nm) else None)"
  by (induction nm arbitrary: k) (auto simp: TMPFS_NAME_MAX_def)

lemma name_len_valid_eq:
  "name_len_valid nm =
     (if nm \<noteq> [] \<and> length nm \<le> 255 \<and> CHR ''/'' \<notin> set nm \<and> nm \<noteq> ''.'' \<and> nm \<noteq> ''..''
      then Some (length nm) else None)"
proof -
  have dots: "length nm = 1 \<and> nm ! 0 = CHR ''.'' \<longleftrightarrow> nm = ''.''"
    "length nm = 2 \<and> nm ! 0 = CHR ''.'' \<and> nm ! 1 = CHR ''.'' \<longleftrightarrow> nm = ''..''"
    by (cases nm; cases "tl nm"; auto simp: length_Suc_conv numeral_2_eq_2)+
  show ?thesis unfolding name_len_valid_def using dots by (auto simp: name_scan_eq)
qed

definition names :: "(nat \<Rightarrow> tmpfs_node option) \<Rightarrow> nat list \<Rightarrow> (string \<times> nat) list" where
  "names st cs = map (\<lambda>c. (tname (the (st c)), c)) cs"

definition entries :: "tmpfs_fs \<Rightarrow> nat \<Rightarrow> string \<Rightarrow> nat option" where
  "entries fs d = (case nodes fs d of None \<Rightarrow> Map.empty | Some n \<Rightarrow> map_of (names (nodes fs) (children n)))"

lemma names_simps [simp]:
  "names st [] = []" "names st (c # cs) = (tname (the (st c)), c) # names st cs"
  "map snd (names st cs) = cs" "length (names st cs) = length cs"
  by (simp_all add: names_def comp_def)

lemma names_cong:
  "(\<And>c. c \<in> set cs \<Longrightarrow> tname (the (st c)) = tname (the (st' c))) \<Longrightarrow> names st cs = names st' cs"
  by (simp add: names_def)

lemma find_child_len_eq:
  "set cs \<subseteq> dom st \<Longrightarrow> find_child_len st cs nm = Some (map_of (names st cs) nm)"
  by (induction cs) auto

lemma fst_names_remove1: "set (map fst (names st (remove1 x cs))) \<subseteq> set (map fst (names st cs))"
  by (auto simp: names_def dest: notin_set_remove1 [THEN contrapos_nn] set_remove1_subset [THEN subsetD])

lemma distinct_names_remove1:
  "distinct (map fst (names st cs)) \<Longrightarrow> distinct (map fst (names st (remove1 x cs)))"
  by (simp add: names_def comp_def distinct_map distinct_remove1 inj_on_def)

lemma distinct_names: "distinct (map fst (names st cs)) \<Longrightarrow> distinct cs"
  by (simp add: names_def comp_def distinct_map)

lemma map_of_names: "map_of (names st cs) nm = Some x \<Longrightarrow> x \<in> set cs \<and> tname (the (st x)) = nm"
  by (induction cs) (auto split: if_splits)

lemma map_of_names_remove1:
  "distinct (map fst (names st cs)) \<Longrightarrow> x \<in> set cs \<Longrightarrow>
   map_of (names st (remove1 x cs)) = (map_of (names st cs))(tname (the (st x)) := None)"
proof (induction cs)
  case (Cons c cs)
  show ?case
  proof (cases "x = c")
    case True
    then have "map_of (names st cs) (tname (the (st c))) = None"
      using Cons.prems by (simp add: map_of_eq_None_iff)
    then show ?thesis using True by auto
  next
    case False
    then have "tname (the (st x)) \<noteq> tname (the (st c))"
      using Cons.prems False by (auto simp: names_def image_iff)
    then show ?thesis using Cons False by (auto simp: fun_upd_twist)
  qed
qed simp

lemma unlink_scan_eq:
  "set cs \<subseteq> dom st \<Longrightarrow> distinct (map fst (names st cs)) \<Longrightarrow>
   unlink_scan st cs nm =
     Some (case map_of (names st cs) nm of None \<Rightarrow> None
           | Some x \<Rightarrow> Some (x, the (st x), remove1 x cs))"
proof (induction cs)
  case (Cons c cs)
  obtain n where n: "st c = Some n" using Cons.prems by auto
  show ?case
  proof (cases "tname n = nm")
    case True
    then show ?thesis using n by simp
  next
    case False
    moreover have "c \<notin> set cs" using distinct_names [OF Cons.prems(2)] by simp
    ultimately show ?thesis using n Cons map_of_names [of st cs nm]
      by (auto split: option.split)
  qed
qed simp

section \<open>Invariant of a mounted file system\<close>

text \<open>
  Links lead to live nodes, names in a directory are distinct, no node has two parents, files are
  well formed and without children, directories without pages, and the quota counter
  is the memory of all pages.
\<close>

definition total_pages :: "(nat \<Rightarrow> tmpfs_node option) \<Rightarrow> nat" where
  "total_pages st = (\<Sum>x \<in> dom st. npages (pages (the (st x))))"

definition node_ok :: "(nat \<Rightarrow> tmpfs_node option) \<Rightarrow> tmpfs_node \<Rightarrow> bool" where
  "node_ok st n \<longleftrightarrow> set (children n) \<subseteq> dom st \<and> distinct (map fst (names st (children n))) \<and>
     (if ntype n = VFS_NODE_FILE then file_wf n \<and> children n = [] else pages n = [])"

definition one_parent :: "(nat \<Rightarrow> tmpfs_node option) \<Rightarrow> bool" where
  "one_parent st \<longleftrightarrow> (\<forall>d e n k. st d = Some n \<longrightarrow> st e = Some k \<longrightarrow>
     set (children n) \<inter> set (children k) \<noteq> {} \<longrightarrow> d = e)"

definition fs_inv :: "tmpfs_fs \<Rightarrow> bool" where
  "fs_inv fs \<longleftrightarrow> finite (dom (nodes fs)) \<and> (\<forall>x n. nodes fs x = Some n \<longrightarrow> node_ok (nodes fs) n) \<and>
     one_parent (nodes fs) \<and> acct (mnt fs) (total_pages (nodes fs))"

lemma total_new: "finite (dom st) \<Longrightarrow> st x = None \<Longrightarrow> total_pages (st(x \<mapsto> n)) = total_pages st + npages (pages n)"
proof -
  assume a: "finite (dom st)" "st x = None"
  have "total_pages (st(x \<mapsto> n)) = npages (pages n) + (\<Sum>y \<in> dom st. npages (pages (the ((st(x \<mapsto> n)) y))))"
    using a by (simp add: total_pages_def sum.insert domIff)
  also have "(\<Sum>y \<in> dom st. npages (pages (the ((st(x \<mapsto> n)) y)))) = total_pages st"
    unfolding total_pages_def using a by (intro sum.cong) auto
  finally show ?thesis by (simp only: add.commute)
qed

lemma total_del: "finite (dom st) \<Longrightarrow> st x = Some n \<Longrightarrow> total_pages (st(x := None)) + npages (pages n) = total_pages st"
proof -
  assume a: "finite (dom st)" "st x = Some n"
  then have "total_pages (st(x := None, x \<mapsto> n)) = total_pages (st(x := None)) + npages (pages n)"
    by (intro total_new) simp_all
  moreover have "st(x := None, x \<mapsto> n) = st" using a(2) by auto
  ultimately show ?thesis by simp
qed

lemma total_upd:
  assumes "finite (dom st)" and "st x = Some n"
  shows "total_pages (st(x \<mapsto> n')) + npages (pages n) = total_pages st + npages (pages n')"
  using total_new [of "st(x := None)" x n'] total_del [OF assms] assms by simp

lemma free_pages_ok:
  "acct m (T + npages ps) \<Longrightarrow> acct (free_pages ps m) T"
proof (induction ps arbitrary: m)
  case (Cons p ps)
  show ?case
  proof (cases p)
    case None
    then show ?thesis using Cons by (simp add: npages_def)
  next
    case (Some q)
    then have "acct m (Suc (T + npages ps))" using Cons.prems by (simp add: npages_def)
    then show ?thesis using Some Cons.IH unaccount_ok by simp
  qed
qed (simp add: npages_def)

lemma free_leaf:
  assumes "nodes fs x = Some n" and "children n = []"
  shows "free_node x fs = Some (fs\<lparr>nodes := (nodes fs)(x := None), mnt := free_pages (pages n) (mnt fs)\<rparr>)"
proof -
  have e: "free_nodes [] f = Some f" for f by (subst free_nodes.simps) simp
  show ?thesis unfolding free_node_def using assms by (subst free_nodes.simps) (simp add: e)
qed

lemma node_ok_mono:
  assumes "node_ok st n" and "\<And>c. c \<in> set (children n) \<Longrightarrow> st' c \<noteq> None \<and> tname (the (st' c)) = tname (the (st c))"
  shows "node_ok st' n"
proof -
  have "names st' (children n) = names st (children n)" using assms(2) by (intro names_cong) simp
  then show ?thesis using assms by (auto simp: node_ok_def)
qed

lemma entries_eqI:
  assumes "nodes fs d = Some n" and "nodes fs' d = Some n'" and "children n' = children n"
    and "\<And>c. c \<in> set (children n) \<Longrightarrow> tname (the (nodes fs' c)) = tname (the (nodes fs c))"
  shows "entries fs' d = entries fs d"
  using assms names_cong [of "children n" "nodes fs'" "nodes fs"] by (simp add: entries_def)

lemma fs_invD:
  assumes "fs_inv fs" and "nodes fs d = Some n"
  shows "set (children n) \<subseteq> dom (nodes fs)" "distinct (map fst (names (nodes fs) (children n)))"
    "ntype n = VFS_NODE_FILE \<Longrightarrow> file_wf n \<and> children n = []"
    "ntype n = VFS_NODE_DIRECTORY \<Longrightarrow> pages n = []" "finite (dom (nodes fs))"
    "acct (mnt fs) (total_pages (nodes fs))"
  using assms by (auto simp: fs_inv_def node_ok_def)

lemma one_parentD:
  "one_parent st \<Longrightarrow> st d = Some n \<Longrightarrow> st e = Some k \<Longrightarrow> c \<in> set (children n) \<Longrightarrow> c \<in> set (children k) \<Longrightarrow> d = e"
  unfolding one_parent_def by blast

lemma create_success_inv:
  assumes inv: "fs_inv fs" and d: "nodes fs d = Some dir" and ty: "ntype dir = VFS_NODE_DIRECTORY"
    and a: "nodes fs a = None" and none: "map_of (names (nodes fs) (children dir)) (tname n) = None"
    and n: "children n = []" "pages n = []" "fsize n = 0" "page_count n = 0"
    and m: "mused m = mused (mnt fs)" "limit m = limit (mnt fs)" "enforce_limit m = enforce_limit (mnt fs)"
  defines "st \<equiv> (nodes fs)(a \<mapsto> n, d \<mapsto> dir\<lparr>children := a # children dir\<rparr>)"
  shows "fs_inv (fs\<lparr>nodes := st, mnt := m\<rparr>)"
    and "entries (fs\<lparr>nodes := st, mnt := m\<rparr>) = (entries fs)(d := (entries fs d)(tname n \<mapsto> a))"
proof -
  have ad: "a \<noteq> d" using a d by auto
  have fresh: "a \<notin> set (children k)" if "nodes fs x = Some k" for x k
    using fs_invD(1) [OF inv that] a by auto
  have nm: "tname (the (st c)) = tname (the (nodes fs c))" if "c \<noteq> a" for c
    using that d by (simp add: st_def)
  have names: "names st (children k) = names (nodes fs) (children k)" if "nodes fs x = Some k" for x k
    using fresh [OF that] nm by (intro names_cong) metis
  have old: "node_ok st k" if "nodes fs x = Some k" for x k
    using inv that fs_invD(1) [OF inv that] names [OF that] by (auto simp: fs_inv_def node_ok_def st_def)
  have ok: "node_ok st k" if k: "st x = Some k" for x k
  proof -
    consider "x = d" | "x = a" "x \<noteq> d" | "x \<noteq> a" "x \<noteq> d" by blast
    then show ?thesis
    proof cases
      case 1
      then have "k = dir\<lparr>children := a # children dir\<rparr>" using k by (simp add: st_def)
      moreover have "the (st a) = n" using ad by (simp add: st_def)
      moreover have "tname n \<notin> fst ` set (names (nodes fs) (children dir))"
        using none by (simp add: map_of_eq_None_iff)
      moreover have "st a \<noteq> None" using ad by (simp add: st_def)
      ultimately show ?thesis
        using old [OF d] names [OF d] ty by (auto simp: node_ok_def)
    next
      case 2
      then have "k = n" using k ad by (simp add: st_def)
      then show ?thesis using n by (simp add: node_ok_def file_wf_def paged_def fbyte_def page_byte_def)
    next
      case 3
      then show ?thesis using k old by (simp add: st_def)
    qed
  qed
  have par: "one_parent st"
    unfolding one_parent_def
  proof (intro allI impI, rule ccontr)
    fix x y k l
    assume st: "st x = Some k" "st y = Some l" and "set (children k) \<inter> set (children l) \<noteq> {}" and ne: "x \<noteq> y"
    then obtain c where c: "c \<in> set (children k)" "c \<in> set (children l)" by auto
    have view: "c = a \<and> z = d \<or> (\<exists>u0. nodes fs z = Some u0 \<and> c \<in> set (children u0))"
      if "st z = Some u" "c \<in> set (children u)" for z u
      using that d ad n(1) by (auto simp: st_def split: if_splits)
    have "c \<noteq> a" using view [OF st(1) c(1)] view [OF st(2) c(2)] fresh ne by metis
    then show False
      using view [OF st(1) c(1)] view [OF st(2) c(2)] inv ne one_parentD by (metis fs_inv_def)
  qed
  have "total_pages st = total_pages (nodes fs)"
  proof -
    have fin: "finite (dom (nodes fs))" using inv by (simp add: fs_inv_def)
    have "total_pages ((nodes fs)(a \<mapsto> n)) = total_pages (nodes fs)"
      using total_new [OF fin a, of n] n by (simp add: npages_def)
    then show ?thesis
      using total_upd [of "(nodes fs)(a \<mapsto> n)" d dir "dir\<lparr>children := a # children dir\<rparr>"] fin d ad
      by (simp add: st_def)
  qed
  then show "fs_inv (fs\<lparr>nodes := st, mnt := m\<rparr>)"
    using inv ok par m by (auto simp: fs_inv_def st_def acct_def)
  show "entries (fs\<lparr>nodes := st, mnt := m\<rparr>) = (entries fs)(d := (entries fs d)(tname n \<mapsto> a))"
  proof
    fix x
    show "entries (fs\<lparr>nodes := st, mnt := m\<rparr>) x = ((entries fs)(d := (entries fs d)(tname n \<mapsto> a))) x"
      using names [of x] names [OF d] d ad a n(1)
      by (cases "nodes fs x") (auto simp: entries_def st_def)
  qed
qed

lemma tmpfs_create_ok:
  assumes inv: "fs_inv fs" and d: "nodes fs d = Some dir" and fresh: "\<And>a. an = Some a \<Longrightarrow> nodes fs a = None"
  shows "\<exists>r fs'. tmpfs_create an kn mk d nm ty fs = Some (r, fs') \<and> fs_inv fs' \<and>
    (r = - 1 \<and> nodes fs' = nodes fs \<or>
     r = 0 \<and> name_valid nm \<and> entries fs d nm = None \<and> ntype dir = VFS_NODE_DIRECTORY \<and>
     (\<exists>a. an = Some a \<and> entries fs' = (entries fs)(d := (entries fs d)(nm \<mapsto> a))))"
proof (cases "ntype dir \<noteq> VFS_NODE_DIRECTORY \<or> name_len_valid nm = None \<or>
    map_of (names (nodes fs) (children dir)) nm \<noteq> None \<or>
    alloc_node_len an kn nm (length nm) ty (def_mode (mnt fs)) (mnt fs) = None")
  case True
  have len: "\<And>len. name_len_valid nm = Some len \<Longrightarrow> len = length nm"
    by (auto simp: name_len_valid_eq split: if_splits)
  have "tmpfs_create an kn mk d nm ty fs = Some (- 1, fs)"
    using True d len find_child_len_eq [OF fs_invD(1) [OF inv d], of nm]
    by (auto simp: tmpfs_create_def split: option.split)
  then show ?thesis using inv by simp
next
  case False
  then obtain len a n m where v: "name_len_valid nm = Some len" "ntype dir = VFS_NODE_DIRECTORY"
    "map_of (names (nodes fs) (children dir)) nm = None"
    "alloc_node_len an kn nm (length nm) ty (def_mode (mnt fs)) (mnt fs) = Some (a, n, m)"
    by auto
  have len: "len = length nm" using v(1) by (auto simp: name_len_valid_eq split: if_splits)
  have n: "an = Some a" "tname n = nm" "children n = []" "pages n = []" "fsize n = 0" "page_count n = 0"
    "mused m = mused (mnt fs)" "limit m = limit (mnt fs)" "enforce_limit m = enforce_limit (mnt fs)"
    using v(4) by (auto simp: alloc_node_len_def split: if_splits option.splits)
  have a: "nodes fs a = None" using fresh n(1) by blast
  then have ad: "a \<noteq> d" using d by auto
  let ?n = "n\<lparr>tparent := Some d\<rparr>"
  let ?st = "(nodes fs)(a \<mapsto> ?n, d \<mapsto> dir\<lparr>children := a # children dir\<rparr>)"
  show ?thesis
  proof (cases "mk = Some False")
    case True
    let ?f = "fs\<lparr>nodes := (nodes fs)(a \<mapsto> ?n), mnt := m\<rparr>"
    have "free_node a ?f = Some (fs\<lparr>nodes := nodes fs, mnt := m\<rparr>)"
      using a free_leaf [of ?f a ?n] n by (simp add: fun_upd_idem)
    moreover have "(nodes fs)(a \<mapsto> ?n, d \<mapsto> dir) = (nodes fs)(a \<mapsto> ?n)" using d ad by auto
    ultimately have "tmpfs_create an kn mk d nm ty fs = Some (- 1, fs\<lparr>nodes := nodes fs, mnt := m\<rparr>)"
      using d v find_child_len_eq [OF fs_invD(1) [OF inv d], of nm] True
      by (simp add: tmpfs_create_def len)
    moreover have "fs_inv (fs\<lparr>nodes := nodes fs, mnt := m\<rparr>)" using inv n by (simp add: fs_inv_def acct_def)
    ultimately show ?thesis by auto
  next
    case False
    have "tmpfs_create an kn mk d nm ty fs = Some (0, fs\<lparr>nodes := ?st, mnt := m\<rparr>)"
      using d v find_child_len_eq [OF fs_invD(1) [OF inv d], of nm] False
      by (simp add: tmpfs_create_def len Let_def)
    moreover have "fs_inv (fs\<lparr>nodes := ?st, mnt := m\<rparr>)"
      "entries (fs\<lparr>nodes := ?st, mnt := m\<rparr>) = (entries fs)(d := (entries fs d)(nm \<mapsto> a))"
      using create_success_inv [OF inv d v(2) a, of ?n m] v(3) n by simp_all
    moreover have "entries fs d nm = None" using v(3) d by (simp add: entries_def)
    ultimately show ?thesis using n(1) v(1,2) by (auto simp: name_valid_def)
  qed
qed

lemma unlink_success_inv:
  assumes inv: "fs_inv fs" and d: "nodes fs d = Some dir" and x: "nodes fs x = Some n"
    and child: "x \<in> set (children dir)" and leaf: "children n = []"
  defines "fs' \<equiv> fs\<lparr>nodes := (nodes fs)(d \<mapsto> dir\<lparr>children := remove1 x (children dir)\<rparr>, x := None),
     mnt := free_pages (pages n) (mnt fs)\<rparr>"
  shows "fs_inv fs'" and "entries fs' = (entries fs)(d := (entries fs d)(tname n := None))"
proof -
  have xd: "x \<noteq> d" using leaf child x d by auto
  have par: "one_parent (nodes fs)" using inv by (simp add: fs_inv_def)
  have only: "x \<notin> set (children k)" if "nodes fs y = Some k" "y \<noteq> d" for y k
    using one_parentD [OF par that(1) d] that(2) child by blast
  have dist: "distinct (children dir)" using distinct_names [OF fs_invD(2) [OF inv d]] .
  let ?st = "nodes fs'"
  have same: "tname (the (?st c)) = tname (the (nodes fs c))" if "c \<noteq> x" for c
    using that d by (simp add: fs'_def)
  have view: "\<exists>k0. nodes fs y = Some k0 \<and> children k = remove1 x (children k0) \<and> ntype k = ntype k0 \<and>
      pages k = pages k0 \<and> (k = k0 \<or> y = d) \<and> names ?st (children k) = names (nodes fs) (children k) \<and> x \<notin> set (children k)"
    if kk: "?st y = Some k" for y k
  proof -
    have nx: "y \<noteq> x" using kk by (auto simp: fs'_def)
    obtain k0 where k0: "nodes fs y = Some k0" "k = (if y = d then dir\<lparr>children := remove1 x (children dir)\<rparr> else k0)"
      using kk nx d that [of dir] that [of k] by (cases "y = d") (simp_all add: fs'_def)
    have c: "children k = remove1 x (children k0)" using k0 d only [OF k0(1)] by (auto simp: remove1_idem)
    moreover have nin: "x \<notin> set (children k)" using k0 c d dist only [OF k0(1)] by (cases "y = d") auto
    moreover have "names ?st (children k) = names (nodes fs) (children k)"
      using nin same by (intro names_cong) metis
    ultimately show ?thesis using k0 d by auto
  qed
  have ok: "node_ok ?st k" if kk: "?st y = Some k" for y k
  proof -
    obtain k0 where k0: "nodes fs y = Some k0" "children k = remove1 x (children k0)" "ntype k = ntype k0"
      "pages k = pages k0" "k = k0 \<or> y = d" "names ?st (children k) = names (nodes fs) (children k)"
      "x \<notin> set (children k)" using view [OF kk] by blast
    have "set (children k) \<subseteq> dom (nodes fs) - {x}"
      using k0(2,7) fs_invD(1) [OF inv k0(1)] set_remove1_subset by fastforce
    then have sub: "set (children k) \<subseteq> dom ?st" by (auto simp: fs'_def)
    have dn: "distinct (map fst (names ?st (children k)))"
      using k0(2,6) distinct_names_remove1 [OF fs_invD(2) [OF inv k0(1)]] by simp
    have dt: "ntype dir = VFS_NODE_DIRECTORY" using fs_invD(3) [OF inv d] child by (cases "ntype dir") auto
    have "if ntype k = VFS_NODE_FILE then file_wf k \<and> children k = [] else pages k = []"
      using k0 fs_invD(3,4) [OF inv k0(1)] dt d by (cases "ntype k") auto
    then show ?thesis using sub dn by (simp add: node_ok_def)
  qed
  have "one_parent ?st"
    unfolding one_parent_def
  proof (intro allI impI)
    fix y z k l
    assume st: "?st y = Some k" "?st z = Some l" and "set (children k) \<inter> set (children l) \<noteq> {}"
    then obtain c where c: "c \<in> set (children k)" "c \<in> set (children l)" by auto
    obtain k0 l0 where "nodes fs y = Some k0" "nodes fs z = Some l0" "children k = remove1 x (children k0)"
      "children l = remove1 x (children l0)" using view [OF st(1)] view [OF st(2)] by blast
    then show "y = z" using c one_parentD [OF par] by (metis notin_set_remove1)
  qed
  moreover have "acct (mnt fs') (total_pages ?st)"
  proof -
    have fin: "finite (dom (nodes fs))" using fs_invD(5) [OF inv d] .
    let ?s = "(nodes fs)(d \<mapsto> dir\<lparr>children := remove1 x (children dir)\<rparr>)"
    have "total_pages ?s = total_pages (nodes fs)" using total_upd [OF fin d, of "dir\<lparr>children := remove1 x (children dir)\<rparr>"] by simp
    moreover have "total_pages (?s(x := None)) + npages (pages n) = total_pages ?s"
      using total_del [of ?s x n] fin x xd by simp
    ultimately have "acct (mnt fs) (total_pages ?st + npages (pages n))"
      using fs_invD(6) [OF inv d] by (simp add: fs'_def)
    then show ?thesis using free_pages_ok by (simp add: fs'_def)
  qed
  moreover have "finite (dom ?st)" using fs_invD(5) [OF inv d] by (simp add: fs'_def)
  ultimately show "fs_inv fs'" using ok by (simp add: fs_inv_def)
  show "entries fs' = (entries fs)(d := (entries fs d)(tname n := None))"
  proof
    fix y
    show "entries fs' y = ((entries fs)(d := (entries fs d)(tname n := None))) y"
    proof (cases "?st y")
      case None
      then have "entries fs y = Map.empty" "y \<noteq> d"
        using x leaf xd d by (auto simp: fs'_def entries_def split: if_splits option.split)
      then show ?thesis using None by (simp add: entries_def)
    next
      case (Some k)
      then obtain k0 where k0: "nodes fs y = Some k0" "children k = remove1 x (children k0)"
        "names ?st (children k) = names (nodes fs) (children k)" using view by blast
      show ?thesis
      proof (cases "y = d")
        case True
        then show ?thesis
          using Some k0 d x map_of_names_remove1 [OF fs_invD(2) [OF inv d] child] by (simp add: entries_def)
      next
        case False
        then show ?thesis using Some k0 only [OF k0(1)] by (simp add: entries_def remove1_idem)
      qed
    qed
  qed
qed

lemma tmpfs_unlink_ok:
  assumes inv: "fs_inv fs" and d: "nodes fs d = Some dir"
  shows "\<exists>r fs'. tmpfs_unlink d nm fs = Some (r, fs') \<and> fs_inv fs' \<and>
    (r = - 1 \<and> fs' = fs \<or>
     r = 0 \<and> entries fs d nm \<noteq> None \<and> entries fs' = (entries fs)(d := (entries fs d)(nm := None)) \<and>
     nodes fs' (the (entries fs d nm)) = None)"
proof (cases "ntype dir \<noteq> VFS_NODE_DIRECTORY \<or> name_len_valid nm = None \<or>
    map_of (names (nodes fs) (children dir)) nm = None")
  case True
  then have "tmpfs_unlink d nm fs = Some (- 1, fs)"
    using d unlink_scan_eq [OF fs_invD(1,2) [OF inv d], of nm] by (auto simp: tmpfs_unlink_def)
  then show ?thesis using inv by simp
next
  case False
  then obtain x where x: "map_of (names (nodes fs) (children dir)) nm = Some x" by auto
  then have child: "x \<in> set (children dir)" "tname (the (nodes fs x)) = nm" using map_of_names by fast+
  then obtain n where n: "nodes fs x = Some n" using fs_invD(1) [OF inv d] by auto
  show ?thesis
  proof (cases "ntype n = VFS_NODE_DIRECTORY \<and> children n \<noteq> []")
    case True
    then have "tmpfs_unlink d nm fs = Some (- 1, fs)"
      using False d x n unlink_scan_eq [OF fs_invD(1,2) [OF inv d], of nm] by (simp add: tmpfs_unlink_def)
    then show ?thesis using inv by simp
  next
    case nonempty: False
    then have leaf: "children n = []" using fs_invD(3) [OF inv n] by (cases "ntype n") auto
    then have xd: "x \<noteq> d" using child(1) n d by auto
    let ?f = "fs\<lparr>nodes := (nodes fs)(d \<mapsto> dir\<lparr>children := remove1 x (children dir)\<rparr>)\<rparr>"
    have "tmpfs_unlink d nm fs =
        Some (0, ?f\<lparr>nodes := (nodes ?f)(x := None), mnt := free_pages (pages n) (mnt ?f)\<rparr>)"
      using False d x n nonempty unlink_scan_eq [OF fs_invD(1,2) [OF inv d], of nm]
        free_leaf [of ?f x n] leaf xd by (simp add: tmpfs_unlink_def)
    then show ?thesis
      using unlink_success_inv [OF inv d n child(1) leaf] child(2) n x d by (simp add: entries_def)
  qed
qed

text \<open>The store after a rename, node by node.\<close>

definition renamed :: "nat \<Rightarrow> nat \<Rightarrow> string \<Rightarrow> nat \<Rightarrow> nat \<Rightarrow> tmpfs_node \<Rightarrow> tmpfs_node" where
  "renamed od nd new x y n =
     (let cs = (if y = od then remove1 x (children n) else children n)
      in n\<lparr>tname := (if y = x then new else tname n), tparent := (if y = x then Some nd else tparent n),
           children := (if y = nd then x # cs else cs)\<rparr>)"

lemma renamed_simps [simp]:
  "tname (renamed od nd new x y n) = (if y = x then new else tname n)"
  "ntype (renamed od nd new x y n) = ntype n" "pages (renamed od nd new x y n) = pages n"
  "fsize (renamed od nd new x y n) = fsize n" "page_count (renamed od nd new x y n) = page_count n"
  "children (renamed od nd new x y n) =
     (if y = nd then [x] else []) @ (if y = od then remove1 x (children n) else children n)"
  by (simp_all add: renamed_def Let_def)

lemma rename_success:
  assumes inv: "fs_inv fs" and od: "nodes fs od = Some dir" and nd: "nodes fs nd = Some ndir"
    and x: "nodes fs x = Some n" and child: "x \<in> set (children dir)"
    and nt: "ntype ndir = VFS_NODE_DIRECTORY"
    and free: "map_of (names (nodes fs) (children ndir)) new = None"
  defines "fs' \<equiv> fs\<lparr>nodes := (\<lambda>y. map_option (renamed od nd new x y) (nodes fs y))\<rparr>"
  shows "fs_inv fs'"
    and "entries fs' = (let E = (entries fs)(od := (entries fs od)(tname n := None)) in E(nd := (E nd)(new \<mapsto> x)))"
proof -
  have par: "one_parent (nodes fs)" using inv by (simp add: fs_inv_def)
  have only: "x \<notin> set (children k)" if "nodes fs y = Some k" "y \<noteq> od" for y k
    using one_parentD [OF par that(1) od] that(2) child by blast
  have dist: "distinct (children dir)" using distinct_names [OF fs_invD(2) [OF inv od]] .
  define rest where "rest y k = (if y = od then remove1 x (children k) else children k)" for y :: nat and k :: tmpfs_node
  have rest: "x \<notin> set (rest y k)" "rest y k = remove1 x (children k)" if "nodes fs y = Some k" for y k
    using that only [OF that] od dist by (auto simp: rest_def remove1_idem)
  let ?st = "nodes fs'"
  have dom: "dom ?st = dom (nodes fs)" by (auto simp: fs'_def)
  have nm: "tname (the (?st c)) = tname (the (nodes fs c))" if "c \<noteq> x" "c \<in> dom (nodes fs)" for c
    using that by (auto simp: fs'_def)
  have nmx: "tname (the (?st x)) = new" using x by (simp add: fs'_def)
  have names: "names ?st (rest y k) = names (nodes fs) (rest y k)" if k: "nodes fs y = Some k" for y k
  proof (rule names_cong)
    fix c assume "c \<in> set (rest y k)"
    then have "c \<noteq> x" "c \<in> dom (nodes fs)"
      using rest [OF k] fs_invD(1) [OF inv k] set_remove1_subset [of x "children k"] by auto
    then show "tname (the (?st c)) = tname (the (nodes fs c))" by (rule nm)
  qed
  have ch: "children (renamed od nd new x y k) = (if y = nd then x # rest y k else rest y k)" for y k
    by (simp add: rest_def)
  have ok: "node_ok ?st (renamed od nd new x y k)" if k: "nodes fs y = Some k" for y k
  proof -
    have sub: "set (rest y k) \<subseteq> dom ?st"
      using fs_invD(1) [OF inv k] set_remove1_subset [of x "children k"] rest(2) [OF k] dom by auto
    have dn: "distinct (map fst (names ?st (rest y k)))"
      using names [OF k] rest(2) [OF k] distinct_names_remove1 [OF fs_invD(2) [OF inv k]] by simp
    have new: "new \<notin> set (map fst (names ?st (rest nd ndir)))"
      using free names [OF nd] rest(2) [OF nd] fst_names_remove1 [of "nodes fs" x "children ndir"]
      by (auto simp: map_of_eq_None_iff)
    have "if ntype k = VFS_NODE_FILE then file_wf (renamed od nd new x y k) \<and> children (renamed od nd new x y k) = []
        else pages k = []"
      using fs_invD(3,4) [OF inv k] nt nd k unfolding ch rest(2) [OF k]
      by (cases "ntype k") (auto simp: file_wf_def paged_def fbyte_def)
    then show ?thesis
      using sub dn new nd k x nmx dom unfolding node_ok_def ch by auto
  qed
  have "one_parent ?st"
    unfolding one_parent_def
  proof (intro allI impI)
    fix y z k l
    assume st: "?st y = Some k" "?st z = Some l" and "set (children k) \<inter> set (children l) \<noteq> {}"
    then obtain c where c: "c \<in> set (children k)" "c \<in> set (children l)" by auto
    obtain k0 l0 where kl: "nodes fs y = Some k0" "k = renamed od nd new x y k0"
      "nodes fs z = Some l0" "l = renamed od nd new x z l0"
      using st by (auto simp: fs'_def)
    show "y = z"
    proof (cases "c = x")
      case True
      then show ?thesis using c rest(1) [OF kl(1)] rest(1) [OF kl(3)] unfolding kl(2,4) ch
        by (auto split: if_splits)
    next
      case False
      then have "c \<in> set (children k0)" "c \<in> set (children l0)"
        using c rest(2) [OF kl(1)] rest(2) [OF kl(3)] unfolding kl(2,4) ch by (auto split: if_splits)
      then show ?thesis using one_parentD [OF par kl(1,3)] by blast
    qed
  qed
  moreover have "total_pages ?st = total_pages (nodes fs)"
    unfolding total_pages_def dom by (rule sum.cong) (auto simp: fs'_def)
  moreover have "node_ok ?st k" if "?st y = Some k" for y k
    using that ok by (auto simp: fs'_def)
  ultimately show "fs_inv fs'"
    using inv dom by (simp add: fs_inv_def) (simp add: fs'_def)
  show "entries fs' = (let E = (entries fs)(od := (entries fs od)(tname n := None)) in E(nd := (E nd)(new \<mapsto> x)))"
  proof
    fix y
    show "entries fs' y =
        (let E = (entries fs)(od := (entries fs od)(tname n := None)) in E(nd := (E nd)(new \<mapsto> x))) y"
    proof (cases "nodes fs y")
      case None
      then show ?thesis using od nd by (auto simp: entries_def fs'_def Let_def)
    next
      case (Some k)
      have "entries fs' y = map_of (names ?st (children (renamed od nd new x y k)))"
        using Some by (simp add: entries_def fs'_def)
      also have "\<dots> = (if y = nd then (map_of (names (nodes fs) (rest y k)))(new \<mapsto> x)
          else map_of (names (nodes fs) (rest y k)))"
        using names [OF Some] nmx unfolding ch by auto
      also have "map_of (names (nodes fs) (rest y k)) =
          (if y = od then (entries fs od)(tname n := None) else entries fs y)"
        using Some od x map_of_names_remove1 [OF fs_invD(2) [OF inv od] child]
        by (auto simp: rest_def entries_def)
      finally show ?thesis by (auto simp: Let_def)
    qed
  qed
qed

lemma tmpfs_rename_ok:
  assumes inv: "fs_inv fs" and od: "nodes fs od = Some dir" and nd: "nodes fs nd = Some ndir"
  shows "\<exists>r fs'. tmpfs_rename kn od old nd new fs = Some (r, fs') \<and> fs_inv fs' \<and>
    (r = - 1 \<and> fs' = fs \<or>
     r = 0 \<and> (\<exists>x. entries fs od old = Some x \<and> entries fs nd new = None \<and>
       entries fs' = (let E = (entries fs)(od := (entries fs od)(old := None)) in E(nd := (E nd)(new \<mapsto> x)))))"
proof (cases "ntype dir \<noteq> VFS_NODE_DIRECTORY \<or> ntype ndir \<noteq> VFS_NODE_DIRECTORY \<or>
    name_len_valid old = None \<or> name_len_valid new = None \<or>
    map_of (names (nodes fs) (children ndir)) new \<noteq> None \<or>
    map_of (names (nodes fs) (children dir)) old = None \<or> \<not> kn")
  case True
  then have "tmpfs_rename kn od old nd new fs = Some (- 1, fs)"
    using od nd find_child_len_eq [OF fs_invD(1) [OF inv nd], of new]
      unlink_scan_eq [OF fs_invD(1,2) [OF inv od], of old]
    by (auto simp: tmpfs_rename_def split: option.split)
  then show ?thesis using inv by simp
next
  case False
  then obtain x where x: "map_of (names (nodes fs) (children dir)) old = Some x" by auto
  then have child: "x \<in> set (children dir)" "tname (the (nodes fs x)) = old" using map_of_names by fast+
  then obtain n where n: "nodes fs x = Some n" using fs_invD(1) [OF inv od] by auto
  define fs' where "fs' = fs\<lparr>nodes := (\<lambda>y. map_option (renamed od nd new x y) (nodes fs y))\<rparr>"
  let ?s1 = "(nodes fs)(od \<mapsto> dir\<lparr>children := remove1 x (children dir)\<rparr>)"
  let ?s2 = "?s1(x \<mapsto> the (?s1 x)\<lparr>tname := new, tparent := Some nd\<rparr>)"
  have st: "?s2(nd \<mapsto> the (?s2 nd)\<lparr>children := x # children (the (?s2 nd))\<rparr>) = nodes fs'"
  proof
    fix y
    show "(?s2(nd \<mapsto> the (?s2 nd)\<lparr>children := x # children (the (?s2 nd))\<rparr>)) y = nodes fs' y"
      using od nd n by (cases "nodes fs y") (auto simp: fs'_def renamed_def)
  qed
  have "tmpfs_rename kn od old nd new fs = Some (0, fs')"
    using False od nd x n find_child_len_eq [OF fs_invD(1) [OF inv nd], of new]
      unlink_scan_eq [OF fs_invD(1,2) [OF inv od], of old]
    by (simp add: tmpfs_rename_def Let_def st del: fun_upd_apply) (simp add: fs'_def)
  moreover have "fs_inv fs'" "entries fs' = (let E = (entries fs)(od := (entries fs od)(old := None)) in E(nd := (E nd)(new \<mapsto> x)))"
    using rename_success [OF inv od nd n child(1), of new] False child(2) n by (simp_all add: fs'_def)
  ultimately show ?thesis using x od nd False by (auto simp: entries_def)
qed

section \<open>Mount options and mounting\<close>

definition is_digit :: "char \<Rightarrow> bool" where "is_digit c \<longleftrightarrow> 48 \<le> (of_char c :: nat) \<and> (of_char c :: nat) \<le> 57"
definition is_octal :: "char \<Rightarrow> bool" where "is_octal c \<longleftrightarrow> 48 \<le> (of_char c :: nat) \<and> (of_char c :: nat) \<le> 55"

text \<open>The parsers return the value with the unread rest; the all-ones word is the error value.\<close>

fun parse_uint_loop :: "u64 \<Rightarrow> string \<Rightarrow> u64 \<times> string" where
  "parse_uint_loop v [] = (v, [])"
| "parse_uint_loop v (c # cs) =
     (if is_digit c
      then let n = v * 10 + of_nat (of_char c - 48) in
        if n < v then (- 1, c # cs) else parse_uint_loop n cs
      else (v, c # cs))"

definition parse_uint :: "string \<Rightarrow> u64 \<times> string" where
  "parse_uint s = (if s = [] \<or> \<not> is_digit (hd s) then (- 1, s) else parse_uint_loop 0 s)"

fun parse_octal_loop :: "u32 \<Rightarrow> string \<Rightarrow> u32 \<times> string" where
  "parse_octal_loop v [] = (v, [])"
| "parse_octal_loop v (c # cs) =
     (if is_octal c
      then let n = or (push_bit 3 v) (of_nat (of_char c - 48)) in
        if n < v then (- 1, c # cs) else parse_octal_loop n cs
      else (v, c # cs))"

definition parse_octal :: "string \<Rightarrow> u32 \<times> string" where
  "parse_octal s = (if s = [] \<or> \<not> is_octal (hd s) then (- 1, s) else parse_octal_loop 0 s)"

text \<open>A unit suffix: the scaled value and the rest after the suffix, or overflow.\<close>

definition scale_size :: "u64 \<Rightarrow> string \<Rightarrow> (u64 \<times> string) option" where
  "scale_size v e =
     (if e \<noteq> [] \<and> (hd e = CHR ''K'' \<or> hd e = CHR ''k'') then
        if v > (- 1) div 1024 then None else Some (v * 1024, tl e)
      else if e \<noteq> [] \<and> (hd e = CHR ''M'' \<or> hd e = CHR ''m'') then
        if v > (- 1) div 1048576 then None else Some (v * 1048576, tl e)
      else if e \<noteq> [] \<and> (hd e = CHR ''G'' \<or> hd e = CHR ''g'') then
        if v > (- 1) div 1073741824 then None else Some (v * 1073741824, tl e)
      else Some (v, e))"

definition parse_opt :: "string \<Rightarrow> nat \<Rightarrow> tmpfs_mount \<Rightarrow> tmpfs_mount option" where
  "parse_opt p len m =
     (if len > 5 \<and> take 5 p = ''size='' then
        (case parse_uint (drop 5 p) of (v, e) \<Rightarrow>
           if v = - 1 then None
           else case scale_size v e of None \<Rightarrow> None
           | Some (v', e') \<Rightarrow>
               if length p - length e' \<noteq> len \<or> v' = 0 then None else Some (m\<lparr>limit := v'\<rparr>))
      else if len > 5 \<and> take 5 p = ''mode='' then
        (case parse_octal (drop 5 p) of (v, e) \<Rightarrow>
           if v = - 1 \<or> length p - length e \<noteq> len \<or> v > 4095 then None else Some (m\<lparr>def_mode := v\<rparr>))
      else if len \<noteq> 0 \<and> take len p \<noteq> take len ''rw'' \<and> take len p \<noteq> take len ''defaults'' then None
      else Some m)"

function parse_opts_loop :: "string \<Rightarrow> tmpfs_mount \<Rightarrow> tmpfs_mount option" where
  "parse_opts_loop p m =
     (if p = [] then Some m
      else
        let len = length (takeWhile (\<lambda>c. c \<noteq> CHR '','') p) in
        case parse_opt p len m of None \<Rightarrow> None
        | Some m' \<Rightarrow> parse_opts_loop (drop (len + 1) p) m')"
  by auto
termination
  by (relation "measure (\<lambda>(p, m). length p)") auto

declare parse_opts_loop.simps [simp del]

definition TMPFS_DEFAULT_LIMIT :: u64 where "TMPFS_DEFAULT_LIMIT = 16 * 1024 * 1024"

definition parse_opts :: "string \<Rightarrow> tmpfs_mount \<Rightarrow> tmpfs_mount option" where
  "parse_opts flags m =
     (let m' = m\<lparr>limit := TMPFS_DEFAULT_LIMIT, def_mode := 420\<rparr>
      in if flags = [] then Some m' else parse_opts_loop flags m')"

text \<open>\<open>kmnt\<close> is whether the mount record, \<open>an\<close> and \<open>kn\<close> whether the root node and its name are allocated.\<close>

definition mount_common ::
  "bool \<Rightarrow> nat option \<Rightarrow> bool \<Rightarrow> string \<Rightarrow> bool \<Rightarrow> int \<times> (nat \<times> tmpfs_fs) option" where
  "mount_common kmnt an kn flags enforce =
     (if \<not> kmnt then (- 1, None)
      else case parse_opts flags \<lparr>limit = 0, mused = 0, next_ino = 2, enforce_limit = enforce, def_mode = 0\<rparr> of
        None \<Rightarrow> (- 2, None)
      | Some m \<Rightarrow>
          (case alloc_node an kn ''tmpfs'' VFS_NODE_DIRECTORY (def_mode m) m of None \<Rightarrow> (- 1, None)
           | Some (a, root, m') \<Rightarrow>
               (0, Some (a, \<lparr>nodes = [a \<mapsto> root\<lparr>ino := 1\<rparr>], mnt = m'\<rparr>))))"

definition tmpfs_mount_fs :: "bool \<Rightarrow> nat option \<Rightarrow> bool \<Rightarrow> string \<Rightarrow> int \<times> (nat \<times> tmpfs_fs) option" where
  "tmpfs_mount_fs kmnt an kn flags = mount_common kmnt an kn flags True"

definition ramfs_mount :: "bool \<Rightarrow> nat option \<Rightarrow> bool \<Rightarrow> string \<Rightarrow> int \<times> (nat \<times> tmpfs_fs) option" where
  "ramfs_mount kmnt an kn flags = mount_common kmnt an kn flags False"

definition tmpfs_unmount :: "nat \<Rightarrow> tmpfs_fs \<Rightarrow> (int \<times> tmpfs_fs) option" where
  "tmpfs_unmount root fs = (case free_node root fs of None \<Rightarrow> None | Some fs' \<Rightarrow> Some (0, fs'))"

section \<open>Histories of a mount\<close>

definition fs_write ::
  "(nat \<Rightarrow> bool) \<Rightarrow> (nat \<Rightarrow> bool) \<Rightarrow> nat \<Rightarrow> nat \<Rightarrow> u8 list \<Rightarrow> tmpfs_fs \<Rightarrow> (nat \<times> tmpfs_fs) option" where
  "fs_write km kr x off bs fs =
     (case nodes fs x of None \<Rightarrow> None
      | Some n \<Rightarrow> (case tmpfs_write km kr off bs (mnt fs) n of (d, m, n') \<Rightarrow>
          Some (d, fs\<lparr>nodes := (nodes fs)(x \<mapsto> n'), mnt := m\<rparr>)))"

definition fs_truncate :: "(nat \<Rightarrow> bool) \<Rightarrow> nat \<Rightarrow> nat \<Rightarrow> tmpfs_fs \<Rightarrow> (int \<times> tmpfs_fs) option" where
  "fs_truncate kr x sz fs =
     (case nodes fs x of None \<Rightarrow> None
      | Some n \<Rightarrow> (case tmpfs_truncate kr sz (mnt fs) n of (r, m, n') \<Rightarrow>
          Some (r, fs\<lparr>nodes := (nodes fs)(x \<mapsto> n'), mnt := m\<rparr>)))"

definition fs_read :: "nat \<Rightarrow> nat \<Rightarrow> nat \<Rightarrow> tmpfs_fs \<Rightarrow> u8 list option" where
  "fs_read x off sz fs = (case nodes fs x of None \<Rightarrow> None | Some n \<Rightarrow> Some (tmpfs_read n off sz))"

text \<open>
  One call through the VFS: the state before, the addresses of the nodes the call names and the
  state after. A VFS node keeps the address of its file system node and nothing takes it back when the
  entry is unlinked, so that a call may name a node that has been freed; None is a call that touches
  one, unless the allocator has given the address to a new node, which the call then acts on. The allocator hands out an unused address, and the bytes written fit the address
  space together with what is already stored.
\<close>

inductive tmpfs_step :: "tmpfs_fs \<Rightarrow> nat set \<Rightarrow> tmpfs_fs option \<Rightarrow> bool" where
  do_create: "(\<And>a. an = Some a \<Longrightarrow> nodes fs a = None) \<Longrightarrow>
    tmpfs_step fs {d} (map_option snd (tmpfs_create an kn mk d nm ty fs))"
| do_unlink: "tmpfs_step fs {d} (map_option snd (tmpfs_unlink d nm fs))"
| do_rename: "tmpfs_step fs {od, nd} (map_option snd (tmpfs_rename kn od old nd new fs))"
| do_write: "4096 * (total_pages (nodes fs) + length bs) < 2 ^ 64 \<Longrightarrow>
    tmpfs_step fs {x} (map_option snd (fs_write km kr x off bs fs))"
| do_truncate: "tmpfs_step fs {x} (map_option snd (fs_truncate kr x sz fs))"
| do_read: "tmpfs_step fs {x} (map_option (\<lambda>_. fs) (fs_read x off sz fs))"
| do_finddir: "tmpfs_step fs {d} (map_option (\<lambda>_. fs) (tmpfs_finddir mk d nm fs))"

text \<open>The states reached from a mount by calls that touched no freed node.\<close>

inductive tmpfs_reach :: "tmpfs_fs \<Rightarrow> bool" where
  mounted: "mount_common kmnt (Some a) kn flags enf = (r, Some (a, fs)) \<Longrightarrow> tmpfs_reach fs"
| onward: "tmpfs_reach fs \<Longrightarrow> tmpfs_step fs xs (Some fs') \<Longrightarrow> tmpfs_reach fs'"

lemma fs_upd_node:
  assumes inv: "fs_inv fs" and x: "nodes fs x = Some n"
    and same: "tname n' = tname n" "children n' = children n" "ntype n' = ntype n"
    and ok: "ntype n = VFS_NODE_FILE \<Longrightarrow> file_wf n'" "ntype n = VFS_NODE_DIRECTORY \<Longrightarrow> pages n' = []"
    and ac: "\<And>T. total_pages (nodes fs) = T + npages (pages n) \<Longrightarrow> acct m (T + npages (pages n'))"
  shows "fs_inv (fs\<lparr>nodes := (nodes fs)(x \<mapsto> n'), mnt := m\<rparr>)"
proof -
  let ?st = "(nodes fs)(x \<mapsto> n')"
  have fin: "finite (dom (nodes fs))" using fs_invD(5) [OF inv x] .
  have tn: "tname (the (?st c)) = tname (the (nodes fs c))" for c using x same by simp
  have names: "names ?st cs = names (nodes fs) cs" for cs using tn by (intro names_cong) simp
  have node: "node_ok ?st k" if "?st y = Some k" for y k
  proof (cases "y = x")
    case True
    then show ?thesis
      using that fs_invD(1-4) [OF inv x] same ok names by (cases "ntype n") (auto simp: node_ok_def)
  next
    case False
    then have "node_ok (nodes fs) k" using that inv by (simp add: fs_inv_def)
    then show ?thesis using names by (auto simp: node_ok_def)
  qed
  have "one_parent ?st"
    unfolding one_parent_def
  proof (intro allI impI)
    fix y z k l
    assume st: "?st y = Some k" "?st z = Some l" and "set (children k) \<inter> set (children l) \<noteq> {}"
    then obtain c where c: "c \<in> set (children k)" "c \<in> set (children l)" by auto
    have view: "\<exists>u0. nodes fs w = Some u0 \<and> children u0 = children u" if "?st w = Some u" for w u
      using that x same(2) by (auto split: if_splits)
    show "y = z"
      using view [OF st(1)] view [OF st(2)] c inv one_parentD unfolding fs_inv_def by metis
  qed
  moreover have "acct m (total_pages ?st)"
    using ac [of "total_pages ((nodes fs)(x := None))"] total_del [OF fin x]
      total_new [of "(nodes fs)(x := None)" x n'] fin by simp
  ultimately show ?thesis using node fin by (simp add: fs_inv_def)
qed

lemma fs_write_ok:
  assumes inv: "fs_inv fs" and x: "nodes fs x = Some n"
    and room: "4096 * (total_pages (nodes fs) + length bs) < 2 ^ 64"
  shows "\<exists>d fs'. fs_write km kr x off bs fs = Some (d, fs') \<and> fs_inv fs'"
proof (cases "ntype n")
  case VFS_NODE_DIRECTORY
  then have "fs_write km kr x off bs fs = Some (0, fs)"
    using x by (simp add: fs_write_def tmpfs_write_def fun_upd_idem)
  then show ?thesis using inv by simp
next
  case VFS_NODE_FILE
  obtain d m n' where w: "tmpfs_write km kr off bs (mnt fs) n = (d, m, n')" by (metis prod_cases3)
  have wf: "file_wf n" using fs_invD(3) [OF inv x VFS_NODE_FILE] by simp
  have ok: "tname n' = tname n \<and> children n' = children n \<and> file_wf n' \<and> acct m (T + npages (pages n'))"
    if T: "total_pages (nodes fs) = T + npages (pages n)" for T
    using tmpfs_write_ok [OF wf _ _ w, of T] fs_invD(6) [OF inv x] room T by simp
  obtain T0 where T0: "total_pages (nodes fs) = T0 + npages (pages n)"
    using total_del [OF fs_invD(5) [OF inv x] x] by metis
  have "fs_inv (fs\<lparr>nodes := (nodes fs)(x \<mapsto> n'), mnt := m\<rparr>)"
    by (rule fs_upd_node [OF inv x]) (use ok ok [OF T0] VFS_NODE_FILE in \<open>auto simp: file_wf_def\<close>)
  then show ?thesis using x w by (simp add: fs_write_def)
qed

lemma fs_truncate_ok:
  assumes inv: "fs_inv fs" and x: "nodes fs x = Some n"
  shows "\<exists>r fs'. fs_truncate kr x sz fs = Some (r, fs') \<and> fs_inv fs'"
proof (cases "ntype n")
  case VFS_NODE_DIRECTORY
  then have "fs_truncate kr x sz fs = Some (- 1, fs)"
    using x by (simp add: fs_truncate_def tmpfs_truncate_def fun_upd_idem)
  then show ?thesis using inv by simp
next
  case VFS_NODE_FILE
  obtain r m n' where t: "tmpfs_truncate kr sz (mnt fs) n = (r, m, n')" by (metis prod_cases3)
  have wf: "file_wf n" using fs_invD(3) [OF inv x VFS_NODE_FILE] by simp
  have ok: "tname n' = tname n \<and> children n' = children n \<and> file_wf n' \<and> acct m (T + npages (pages n'))"
    if T: "total_pages (nodes fs) = T + npages (pages n)" for T
    using tmpfs_truncate_ok [OF wf _ t, of T] fs_invD(6) [OF inv x] T wf by auto
  obtain T0 where T0: "total_pages (nodes fs) = T0 + npages (pages n)"
    using total_del [OF fs_invD(5) [OF inv x] x] by metis
  have "fs_inv (fs\<lparr>nodes := (nodes fs)(x \<mapsto> n'), mnt := m\<rparr>)"
    by (rule fs_upd_node [OF inv x]) (use ok ok [OF T0] VFS_NODE_FILE in \<open>auto simp: file_wf_def\<close>)
  then show ?thesis using x t by (simp add: fs_truncate_def)
qed

lemma parse_opts_frame:
  assumes "parse_opts flags m = Some m'"
  shows "mused m' = mused m" "enforce_limit m' = enforce_limit m" "next_ino m' = next_ino m"
proof -
  have opt: "mused k' = mused k \<and> enforce_limit k' = enforce_limit k \<and> next_ino k' = next_ino k"
    if "parse_opt p len k = Some k'" for p len k k'
    using that by (auto simp: parse_opt_def split: if_splits prod.splits option.splits)
  have "parse_opts_loop p k = Some k' \<Longrightarrow>
      mused k' = mused k \<and> enforce_limit k' = enforce_limit k \<and> next_ino k' = next_ino k" for p k k'
  proof (induction p k rule: parse_opts_loop.induct)
    case (1 p k)
    show ?case
    proof (cases "p = []")
      case True
      then show ?thesis using 1(2) by (simp add: parse_opts_loop.simps)
    next
      case False
      let ?l = "length (takeWhile (\<lambda>c. c \<noteq> CHR '','') p)"
      obtain k1 where k1: "parse_opt p ?l k = Some k1" "parse_opts_loop (drop (?l + 1) p) k1 = Some k'"
        using 1(2) False by (subst (asm) parse_opts_loop.simps) (auto simp: Let_def split: option.splits)
      then show ?thesis using 1(1) [OF False refl k1] opt [OF k1(1)] by simp
    qed
  qed
  then show "mused m' = mused m" "enforce_limit m' = enforce_limit m" "next_ino m' = next_ino m"
    using assms by (fastforce simp: parse_opts_def Let_def split: if_splits)+
qed

lemma mount_common_inv:
  assumes "mount_common kmnt an kn flags enf = (r, Some (a, fs))"
  shows "fs_inv fs" "enforce_limit (mnt fs) = enf"
proof -
  let ?m0 = "\<lparr>limit = 0, mused = 0, next_ino = 2, enforce_limit = enf, def_mode = 0\<rparr>"
  obtain m where m: "parse_opts flags ?m0 = Some m"
    using assms by (auto simp: mount_common_def split: if_splits option.splits)
  obtain root m' where al: "alloc_node an kn ''tmpfs'' VFS_NODE_DIRECTORY (def_mode m) m = Some (a, root, m')"
    "fs = \<lparr>nodes = [a \<mapsto> root\<lparr>ino := 1\<rparr>], mnt = m'\<rparr>"
    using assms m by (auto simp: mount_common_def split: if_splits option.splits)
  have r: "children root = []" "pages root = []" "ntype root = VFS_NODE_DIRECTORY" "mused m' = 0"
    "enforce_limit m' = enf"
    using al(1) parse_opts_frame [OF m]
    by (auto simp: alloc_node_def alloc_node_len_def split: if_splits option.splits)
  show "enforce_limit (mnt fs) = enf" using al(2) r by simp
  show "fs_inv fs"
    unfolding fs_inv_def al(2) using r
    by (auto simp: node_ok_def one_parent_def acct_def total_pages_def npages_def split: if_splits)
qed

lemma tmpfs_finddir_eq:
  assumes inv: "fs_inv fs" and d: "nodes fs d = Some dir"
  shows "tmpfs_finddir mk d nm fs =
    Some (if mk \<and> ntype dir = VFS_NODE_DIRECTORY \<and> name_valid nm then entries fs d nm else None)"
  using d find_child_len_eq [OF fs_invD(1) [OF inv d], of nm]
  by (auto simp: tmpfs_finddir_def find_child_def name_valid_def entries_def split: option.split)

lemma tmpfs_step_live:
  "tmpfs_step fs xs out \<Longrightarrow> fs_inv fs \<Longrightarrow> xs \<subseteq> dom (nodes fs) \<Longrightarrow> \<exists>fs'. out = Some fs' \<and> fs_inv fs'"
proof (induction rule: tmpfs_step.induct)
  case (do_create an fs d kn mk nm ty)
  then obtain dir where d: "nodes fs d = Some dir" by auto
  show ?case using tmpfs_create_ok [OF do_create(2) d, of an kn mk nm ty] do_create(1) by auto
next
  case (do_unlink fs d nm)
  then show ?case using tmpfs_unlink_ok [of fs d _ nm] by fastforce
next
  case (do_rename fs od nd kn old new)
  then show ?case using tmpfs_rename_ok [of fs od _ nd _ kn old new] by fastforce
next
  case (do_write fs bs x km kr off)
  then show ?case using fs_write_ok [of fs x _ bs km kr off] by fastforce
next
  case (do_truncate fs x kr sz)
  then show ?case using fs_truncate_ok [of fs x _ kr sz] by fastforce
next
  case (do_read fs x off sz)
  then show ?case by (auto simp: fs_read_def)
next
  case (do_finddir fs d mk nm)
  then show ?case using tmpfs_finddir_eq [of fs d _ mk nm] by auto
qed

lemma tmpfs_step_freed: "tmpfs_step fs xs out \<Longrightarrow> \<not> xs \<subseteq> dom (nodes fs) \<Longrightarrow> out = None"
  by (induction rule: tmpfs_step.induct)
    (auto simp: tmpfs_create_def tmpfs_unlink_def tmpfs_rename_def fs_write_def fs_truncate_def fs_read_def
      tmpfs_finddir_def split: option.splits)

lemma tmpfs_reach_fs_inv: "tmpfs_reach fs \<Longrightarrow> fs_inv fs"
proof (induction rule: tmpfs_reach.induct)
  case (mounted kmnt a kn flags enf r fs)
  then show ?case using mount_common_inv(1) by blast
next
  case (onward fs xs fs')
  then have "xs \<subseteq> dom (nodes fs)" using tmpfs_step_freed by blast
  then show ?case using tmpfs_step_live onward by blast
qed

section \<open>Two defects\<close>

text \<open>
  The overflow test compares with the old value only, so a wrapped product above it
  passes: a size of thirty quintillion bytes is accepted as about eleven and a half.
\<close>

lemma parse_uint_wraps: "parse_uint ''30000000000000000000'' = (11553255926290448384, [])"
  by (simp add: parse_uint_def is_digit_def Let_def)

text \<open>A directory can be moved into itself: it is then its own child and no longer below the root.\<close>

definition two_dirs :: tmpfs_fs where
  "two_dirs = \<lparr>nodes = [1 \<mapsto> new_file\<lparr>tname := ''tmpfs'', ntype := VFS_NODE_DIRECTORY, children := [2]\<rparr>,
     2 \<mapsto> new_file\<lparr>tname := ''a'', ntype := VFS_NODE_DIRECTORY\<rparr>], mnt = new_mount\<rparr>"

lemma rename_into_itself:
  "\<exists>fs'. tmpfs_rename True 1 ''a'' 2 ''b'' two_dirs = Some (0, fs') \<and>
     entries fs' 1 = Map.empty \<and> entries fs' 2 ''b'' = Some 2"
  by (simp add: tmpfs_rename_def two_dirs_def new_file_def name_len_valid_eq entries_def names_def)

section \<open>Properties\<close>

definition sample_fs :: tmpfs_fs where
  "sample_fs = \<lparr>nodes = [1 \<mapsto> new_file\<lparr>tname := ''tmpfs'', ntype := VFS_NODE_DIRECTORY\<rparr>], mnt = new_mount\<rparr>"

lemma sample_fs_inv: "fs_inv sample_fs"
  by (auto simp: fs_inv_def sample_fs_def new_file_def new_mount_def node_ok_def one_parent_def acct_def
    total_pages_def npages_def split: if_splits)

text \<open>C30: In every state a mounted file system reaches by calls that touched no freed node, links
  lead to live nodes, the names in a directory are distinct, no node has two parents, files are
  well formed, and the quota counter is the memory of all data pages and within the limit when one
  is enforced. From there a call that names only live nodes completes and keeps all of this, and
  a call through a VFS node whose file system node has been freed touches freed memory.\<close>

theorem tmpfs_reach_inv:
  assumes "tmpfs_reach fs" and "tmpfs_step fs xs out"
  shows "fs_inv fs \<and> unat (mused (mnt fs)) = 4096 * total_pages (nodes fs) \<and>
     (enforce_limit (mnt fs) \<longrightarrow> mused (mnt fs) \<le> limit (mnt fs)) \<and>
     (if xs \<subseteq> dom (nodes fs) then \<exists>fs'. out = Some fs' \<and> fs_inv fs' else out = None)"
  using tmpfs_reach_fs_inv [OF assms(1)] tmpfs_step_live [OF assms(2)] tmpfs_step_freed [OF assms(2)]
  by (auto simp: fs_inv_def acct_def)

lemmas mount_eval = mount_common_def parse_opts_def parse_opts_loop.simps parse_opt_def parse_uint_def
  is_digit_def scale_size_def alloc_node_def alloc_node_len_def name_len_valid_eq TMPFS_NAME_MAX_def Let_def

theorem tmpfs_reach_inv_witness:
  "\<exists>fs fs'. mount_common True (Some 1) True ''size=64k'' True = (0, Some (1, fs)) \<and> limit (mnt fs) = 65536 \<and>
     mused (mnt fs) \<le> limit (mnt fs) \<and>
     tmpfs_create (Some 2) True None 1 ''a'' VFS_NODE_FILE fs = Some (0, fs') \<and> fs_inv fs' \<and>
     fs_read 9 0 1 fs = None"
proof -
  obtain fs where fs: "mount_common True (Some 1) True ''size=64k'' True = (0, Some (1, fs))" "limit (mnt fs) = 65536"
    and n: "dom (nodes fs) = {1}"
    by (simp add: mount_eval)
  obtain fs' where c: "tmpfs_create (Some 2) True None 1 ''a'' VFS_NODE_FILE fs = Some (0, fs')"
    using fs(1) by (auto simp: mount_eval tmpfs_create_def)
  have reach: "tmpfs_reach fs" by (rule tmpfs_reach.mounted [OF fs(1)])
  have "2 \<notin> dom (nodes fs)" unfolding n by simp
  then have "nodes fs 2 = None" by (simp add: domIff)
  then have st: "tmpfs_step fs {1} (map_option snd (tmpfs_create (Some 2) True None 1 ''a'' VFS_NODE_FILE fs))"
    by (intro tmpfs_step.do_create) simp
  note create = tmpfs_reach_inv [OF reach st]
  note stale = tmpfs_reach_inv [OF reach tmpfs_step.do_read [of fs 9 0 1]]
  have "fs_inv fs'" using create n c by simp
  moreover have "fs_read 9 0 1 fs = None" using stale n by simp
  moreover have "mused (mnt fs) \<le> limit (mnt fs)" using create mount_common_inv(2) [OF fs(1)] by simp
  ultimately show ?thesis using fs c by blast
qed

text \<open>C31: Unlinking a file frees its node although a VFS node opened before may still name it: as
  soon as the unlink has succeeded, a read, a write or a truncation through that VFS node touches
  freed memory.\<close>

theorem unlink_frees_open_file:
  assumes "tmpfs_reach fs" and "entries fs d nm = Some x" and "tmpfs_unlink d nm fs = Some (0, fs')"
  shows "fs_read x off sz fs' = None \<and> fs_write km kr x off bs fs' = None \<and> fs_truncate kr x sz fs' = None"
proof -
  have inv: "fs_inv fs" using tmpfs_reach_fs_inv assms(1) .
  obtain dir where "nodes fs d = Some dir" using assms(2) by (auto simp: entries_def split: option.splits)
  then have "nodes fs' x = None" using tmpfs_unlink_ok [OF inv, of d dir nm] assms(2,3) by simp
  then show ?thesis by (simp add: fs_read_def fs_write_def fs_truncate_def)
qed

text \<open>The file is created, unlinked while open and then read.\<close>

theorem unlink_frees_open_file_witness:
  "\<exists>fs f1 f2. mount_common True (Some 1) True ''size=64k'' True = (0, Some (1, fs)) \<and>
     tmpfs_create (Some 2) True None 1 ''a'' VFS_NODE_FILE fs = Some (0, f1) \<and> fs_read 2 0 5 f1 = Some [] \<and>
     tmpfs_unlink 1 ''a'' f1 = Some (0, f2) \<and> fs_read 2 0 5 f2 = None"
proof -
  obtain fs where fs: "mount_common True (Some 1) True ''size=64k'' True = (0, Some (1, fs))"
    and n: "dom (nodes fs) = {1}"
    by (simp add: mount_eval)
  obtain f1 where c: "tmpfs_create (Some 2) True None 1 ''a'' VFS_NODE_FILE fs = Some (0, f1)"
    and f1: "entries f1 1 ''a'' = Some 2" "fs_read 2 0 5 f1 = Some []"
    using fs by (auto simp: mount_eval tmpfs_create_def entries_def names_def fs_read_def tmpfs_read_def)
  have "2 \<notin> dom (nodes fs)" unfolding n by simp
  then have "nodes fs 2 = None" by (simp add: domIff)
  then have st: "tmpfs_step fs {1} (map_option snd (tmpfs_create (Some 2) True None 1 ''a'' VFS_NODE_FILE fs))"
    by (intro tmpfs_step.do_create) simp
  have "tmpfs_reach f1"
    by (rule tmpfs_reach.onward [OF tmpfs_reach.mounted [OF fs]])
      (use st c in simp)
  moreover obtain f2 where u: "tmpfs_unlink 1 ''a'' f1 = Some (0, f2)"
    using fs c by (auto simp: mount_eval tmpfs_create_def tmpfs_unlink_def free_leaf)
  ultimately have "fs_read 2 0 5 f2 = None" using unlink_frees_open_file f1(1) by blast
  then show ?thesis using fs c f1(2) u by blast
qed

text \<open>C32: The directory operations act on the map from names to nodes: lookup reads it, creation adds a
  fresh name, unlink removes one and rename moves one to an unused name; each either
  does exactly that or fails and leaves every directory as it was, and none of them touches a dead
  node.\<close>

theorem tmpfs_dir_refines:
  assumes inv: "fs_inv fs" and d: "nodes fs d = Some dir"
  shows "tmpfs_finddir True d nm fs =
      Some (if ntype dir = VFS_NODE_DIRECTORY \<and> name_valid nm then entries fs d nm else None) \<and>
    (nodes fs a = None \<longrightarrow> (\<exists>r fs'. tmpfs_create (Some a) kn mk d nm ty fs = Some (r, fs') \<and>
      (r = - 1 \<and> nodes fs' = nodes fs \<or>
       r = 0 \<and> entries fs d nm = None \<and> entries fs' = (entries fs)(d := (entries fs d)(nm \<mapsto> a))))) \<and>
    (\<exists>r fs'. tmpfs_unlink d nm fs = Some (r, fs') \<and>
      (r = - 1 \<and> fs' = fs \<or>
       r = 0 \<and> entries fs d nm \<noteq> None \<and> entries fs' = (entries fs)(d := (entries fs d)(nm := None)))) \<and>
    (nodes fs e \<noteq> None \<longrightarrow> (\<exists>r fs'. tmpfs_rename kn d nm e new fs = Some (r, fs') \<and>
      (r = - 1 \<and> fs' = fs \<or>
       r = 0 \<and> (\<exists>x. entries fs d nm = Some x \<and> entries fs e new = None \<and>
         entries fs' = (let E = (entries fs)(d := (entries fs d)(nm := None)) in E(e := (E e)(new \<mapsto> x)))))))"
proof (intro conjI impI)
  show "tmpfs_finddir True d nm fs =
      Some (if ntype dir = VFS_NODE_DIRECTORY \<and> name_valid nm then entries fs d nm else None)"
    using tmpfs_finddir_eq [OF inv d] by simp
qed (use tmpfs_create_ok [OF inv d, of "Some a" kn mk nm ty] tmpfs_unlink_ok [OF inv d, of nm]
      tmpfs_rename_ok [OF inv d, of e _ kn nm new] in \<open>auto simp: Let_def\<close>)

theorem tmpfs_dir_refines_witness:
  "\<exists>fs'. tmpfs_create (Some 2) True None 1 ''a'' VFS_NODE_FILE sample_fs = Some (0, fs') \<and>
     entries fs' 1 ''a'' = Some 2 \<and> tmpfs_finddir True 1 ''a'' sample_fs = Some None"
proof -
  have d: "nodes sample_fs 1 = Some (new_file\<lparr>tname := ''tmpfs'', ntype := VFS_NODE_DIRECTORY\<rparr>)"
    and a: "nodes sample_fs 2 = None" by (simp_all add: sample_fs_def)
  note t = tmpfs_dir_refines [OF sample_fs_inv d, of "''a''" 2 True None VFS_NODE_FILE 1 "''b''"]
  obtain r fs' where c: "tmpfs_create (Some 2) True None 1 ''a'' VFS_NODE_FILE sample_fs = Some (r, fs')"
    "r = - 1 \<or> entries fs' = (entries sample_fs)(1 := (entries sample_fs 1)(''a'' \<mapsto> 2))"
    using mp [OF conjunct1 [OF conjunct2 [OF t]] a] by blast
  have "r = 0"
    using c(1) by (auto simp: tmpfs_create_def sample_fs_def new_file_def name_len_valid_eq alloc_node_len_def
      TMPFS_NAME_MAX_def Let_def)
  moreover have "tmpfs_finddir True 1 ''a'' sample_fs = Some None"
    using conjunct1 [OF t] by (simp add: entries_def sample_fs_def new_file_def)
  ultimately show ?thesis using c by auto
qed

end
