(* ===== verification/Wait_Queue.thy ===== *)
theory Wait_Queue
  imports Prelude
begin

text \<open>
  The kernel wait queues of \<^verbatim>\<open>src/src/impl/x86_64/module/scheduler.cpp\<close>: a counter that every
  wake-up advances and the tasks registered to be woken. Each section under the
  queue's lock is one definition, and the calls of \<^verbatim>\<open>scheduler::wake\<close> a wake-up makes after releasing the
  lock are steps of their own; \<^verbatim>\<open>waiters\<close> holds the first \<^verbatim>\<open>count\<close> entries of the array, the
  others being null. The scheduler's side is the task the caller runs as (\<open>None\<close> when it may not sleep) and,
  in the histories at the end, the set of tasks blocked in the queue.
\<close>

section \<open>The queue\<close>

definition MAX_WAITERS :: nat where "MAX_WAITERS = 64"

record wait_queue =
  waiters :: "nat list"
  woverflow :: bool
  wseq :: u64

definition wait_queue_init :: wait_queue where
  "wait_queue_init = \<lparr>waiters = [], woverflow = False, wseq = 0\<rparr>"

definition wait_queue_seq :: "wait_queue \<Rightarrow> u64" where
  "wait_queue_seq q = wseq q"

text \<open>
  One turn of the loop in \<^verbatim>\<open>kernel_wait_queue_wait_changed\<close>: it returns a status, blocks the
  task with the queue, or, when the array is full, sleeps a tick and tries again.
\<close>

datatype wait_turn = Return int | Block wait_queue | Retry wait_queue

definition wait_changed_turn :: "nat option \<Rightarrow> u64 \<Rightarrow> wait_queue \<Rightarrow> wait_turn" where
  "wait_changed_turn me seq q =
     (if wseq q \<noteq> seq then Return 0
      else case me of None \<Rightarrow> Return (- 2)
      | Some t \<Rightarrow>
          if t \<in> set (waiters q) then Block q
          else if length (waiters q) < MAX_WAITERS then Block (q\<lparr>waiters := waiters q @ [t]\<rparr>)
          else Retry (q\<lparr>woverflow := True\<rparr>))"

text \<open>The tasks to hand to \<^verbatim>\<open>scheduler::wake\<close>, with the emptied queue.\<close>

definition wait_queue_wake_all :: "wait_queue \<Rightarrow> nat list \<times> wait_queue" where
  "wait_queue_wake_all q = (waiters q, q\<lparr>wseq := wseq q + 1, waiters := [], woverflow := False\<rparr>)"

text \<open>
  \<^verbatim>\<open>scheduler::wake\<close> as the queue sees it: \<open>bl t\<close> is the counter value a task waits to change while
  its state is \<^verbatim>\<open>WAITING\<close>; such a task becomes ready, any other is left alone.
\<close>

definition sched_wake :: "nat \<Rightarrow> (nat \<Rightarrow> u64 option) \<Rightarrow> (nat \<Rightarrow> u64 option)" where
  "sched_wake t bl = (if bl t \<noteq> None then bl(t := None) else bl)"

section \<open>Histories\<close>

text \<open>
  Tasks enter the wait with a counter value they read before, wake-ups come at any moment, and
  the scheduler may also resume a blocked task for another reason, which then turns its loop again.
  \<open>pending\<close> are the tasks whose \<^verbatim>\<open>scheduler::wake\<close> is still to come, from all the wake-ups that have
  left the lock; they are called in any order, between steps of other tasks.
\<close>

record wait_state =
  wq_q :: wait_queue
  blocked :: "nat \<Rightarrow> u64 option"
  pending :: "nat list"

inductive wait_step :: "wait_state \<Rightarrow> wait_state \<Rightarrow> bool" where
  block: "blocked s t = None \<Longrightarrow> wait_changed_turn (Some t) seq (wq_q s) = Block q' \<Longrightarrow>
     wait_step s (s\<lparr>wq_q := q', blocked := (blocked s)(t \<mapsto> seq)\<rparr>)"
| retry: "blocked s t = None \<Longrightarrow> wait_changed_turn (Some t) seq (wq_q s) = Retry q' \<Longrightarrow> wait_step s (s\<lparr>wq_q := q'\<rparr>)"
| wake_section: "wait_queue_wake_all (wq_q s) = (ts, q') \<Longrightarrow> wait_step s (s\<lparr>wq_q := q', pending := pending s @ ts\<rparr>)"
| wake_call: "t \<in> set (pending s) \<Longrightarrow>
     wait_step s (s\<lparr>blocked := sched_wake t (blocked s), pending := remove1 t (pending s)\<rparr>)"
| resume: "blocked s t \<noteq> None \<Longrightarrow> wait_step s (s\<lparr>blocked := (blocked s)(t := None)\<rparr>)"

definition wait_start :: wait_state where
  "wait_start = \<lparr>wq_q = wait_queue_init, blocked = (\<lambda>t. None), pending = []\<rparr>"

inductive wait_reach :: "wait_state \<Rightarrow> bool" where
  start: "wait_reach wait_start"
| onward: "wait_reach s \<Longrightarrow> wait_step s s' \<Longrightarrow> wait_reach s'"

definition wait_inv :: "wait_state \<Rightarrow> bool" where
  "wait_inv s \<longleftrightarrow> distinct (waiters (wq_q s)) \<and> length (waiters (wq_q s)) \<le> MAX_WAITERS \<and>
     (\<forall>t seq. blocked s t = Some seq \<longrightarrow> t \<in> set (waiters (wq_q s)) \<and> wseq (wq_q s) = seq \<or> t \<in> set (pending s))"

lemma wait_invI:
  assumes "distinct (waiters (wq_q s))" and "length (waiters (wq_q s)) \<le> MAX_WAITERS"
    and "\<And>t seq. blocked s t = Some seq \<Longrightarrow> t \<notin> set (pending s) \<Longrightarrow> t \<in> set (waiters (wq_q s)) \<and> wseq (wq_q s) = seq"
  shows "wait_inv s"
  using assms unfolding wait_inv_def by blast

lemma wait_invD:
  assumes "wait_inv s"
  shows "distinct (waiters (wq_q s))" "length (waiters (wq_q s)) \<le> MAX_WAITERS"
    "blocked s t = Some seq \<Longrightarrow> t \<notin> set (pending s) \<Longrightarrow> t \<in> set (waiters (wq_q s)) \<and> wseq (wq_q s) = seq"
  using assms unfolding wait_inv_def by blast+

lemma wait_step_inv: "wait_step s s' \<Longrightarrow> wait_inv s \<Longrightarrow> wait_inv s'"
proof (induction rule: wait_step.induct)
  case (block s t seq q')
  note i = wait_invD [OF block.prems]
  show ?case
    by (rule wait_invI) (use block.hyps i in \<open>auto simp: wait_changed_turn_def split: if_splits\<close>)
next
  case (retry s t seq q')
  note i = wait_invD [OF retry.prems]
  show ?case
    by (rule wait_invI) (use retry.hyps i in \<open>auto simp: wait_changed_turn_def split: if_splits\<close>)
next
  case (wake_section s ts q')
  note i = wait_invD [OF wake_section.prems]
  show ?case
    by (rule wait_invI) (use wake_section.hyps i in \<open>auto simp: wait_queue_wake_all_def\<close>)
next
  case (wake_call t s)
  note i = wait_invD [OF wake_call.prems]
  have keep: "u \<notin> set (pending s)" if "sched_wake t (blocked s) u = Some seq" "u \<notin> set (remove1 t (pending s))" for u seq
    using that by (cases "u = t") (auto simp: sched_wake_def split: if_splits)
  have old: "blocked s u = Some seq" if "sched_wake t (blocked s) u = Some seq" for u seq
    using that by (auto simp: sched_wake_def split: if_splits)
  show ?case
    by (rule wait_invI) (use i keep old in \<open>simp_all, blast\<close>)
next
  case (resume s t)
  note i = wait_invD [OF resume.prems]
  show ?case by (rule wait_invI) (use i in \<open>auto split: if_splits\<close>)
qed

lemma wait_reach_inv: "wait_reach s \<Longrightarrow> wait_inv s"
proof (induction rule: wait_reach.induct)
  case start
  then show ?case by (simp add: wait_inv_def wait_start_def wait_queue_init_def)
next
  case (onward s s')
  then show ?case using wait_step_inv by blast
qed

lemma fold_sched_wake: "fold sched_wake ts bl t = (if t \<in> set ts then None else bl t)"
  by (induction ts arbitrary: bl) (auto simp: sched_wake_def)

text \<open>
  C33: no wake-up is lost, whatever the order in which wake-ups, their calls of the scheduler, blocking
  tasks and other resumptions interleave. In every reachable state a blocked task is registered in
  the queue with the counter unchanged since it looked, or its \<^verbatim>\<open>scheduler::wake\<close> is under way. So
  after the next wake-up, once its calls and those under way are made, no task blocked before is
  still blocked, and a registered one then finds the counter changed and returns. The array is never
  overrun and holds no task twice.
\<close>

theorem wait_queue_no_lost_wakeup:
  assumes "wait_reach s" and "wait_queue_wake_all (wq_q s) = (ts, q')"
  shows "distinct ts \<and> length ts \<le> MAX_WAITERS \<and> waiters q' = [] \<and>
    (\<forall>t seq. blocked s t = Some seq \<longrightarrow>
       (t \<in> set ts \<and> wait_changed_turn (Some t) seq q' = Return 0 \<or> t \<in> set (pending s)) \<and>
       fold sched_wake (pending s @ ts) (blocked s) t = None)"
proof -
  have e: "ts = waiters (wq_q s)" "wseq q' = wseq (wq_q s) + 1" "waiters q' = []"
    using assms(2) by (auto simp: wait_queue_wake_all_def)
  have inv: "distinct (waiters (wq_q s))" "length (waiters (wq_q s)) \<le> MAX_WAITERS"
    "\<And>t seq. blocked s t = Some seq \<Longrightarrow> t \<in> set (waiters (wq_q s)) \<and> wseq (wq_q s) = seq \<or> t \<in> set (pending s)"
    using wait_reach_inv [OF assms(1)] unfolding wait_inv_def by blast+
  have "(t \<in> set ts \<and> wait_changed_turn (Some t) seq q' = Return 0 \<or> t \<in> set (pending s)) \<and>
      fold sched_wake (pending s @ ts) (blocked s) t = None" if "blocked s t = Some seq" for t seq
  proof -
    have "t \<in> set ts \<and> wait_changed_turn (Some t) seq q' = Return 0 \<or> t \<in> set (pending s)"
      using inv(3) [OF that] e by (auto simp: wait_changed_turn_def)
    then show ?thesis unfolding fold_sched_wake by auto
  qed
  then show ?thesis using inv(1,2) e by blast
qed

text \<open>Task 7 has been taken off the queue by a wake-up that has not reached it, and task 8 has blocked since.\<close>

theorem wait_queue_no_lost_wakeup_witness:
  "\<exists>s ts q'. wait_reach s \<and> wait_queue_wake_all (wq_q s) = (ts, q') \<and> blocked s 7 = Some 0 \<and> pending s = [7] \<and>
     blocked s 8 = Some 1 \<and> ts = [8] \<and> wait_changed_turn (Some 8) 1 q' = Return 0 \<and>
     fold sched_wake (pending s @ ts) (blocked s) 7 = None"
proof -
  let ?q1 = "wait_queue_init\<lparr>waiters := [7]\<rparr>" and ?q2 = "wait_queue_init\<lparr>wseq := 1\<rparr>" and ?q3 = "wait_queue_init\<lparr>wseq := 1, waiters := [8]\<rparr>"
  let ?s1 = "wait_start\<lparr>wq_q := ?q1, blocked := (blocked wait_start)(7 \<mapsto> 0)\<rparr>"
  let ?s2 = "?s1\<lparr>wq_q := ?q2, pending := pending ?s1 @ [7]\<rparr>"
  let ?s3 = "?s2\<lparr>wq_q := ?q3, blocked := (blocked ?s2)(8 \<mapsto> 1)\<rparr>"
  have "wait_step wait_start ?s1"
    by (rule wait_step.block) (simp_all add: wait_start_def wait_changed_turn_def wait_queue_init_def MAX_WAITERS_def)
  then have "wait_reach ?s1" by (rule wait_reach.onward [OF wait_reach.start])
  moreover have "wait_step ?s1 ?s2"
    by (rule wait_step.wake_section) (simp add: wait_queue_wake_all_def wait_queue_init_def)
  ultimately have "wait_reach ?s2" by (rule wait_reach.onward)
  moreover have "wait_step ?s2 ?s3"
    by (rule wait_step.block) (simp_all add: wait_start_def wait_changed_turn_def wait_queue_init_def MAX_WAITERS_def)
  ultimately have r: "wait_reach ?s3" by (rule wait_reach.onward)
  obtain ts q' where w: "wait_queue_wake_all (wq_q ?s3) = (ts, q')" by fastforce
  have ts: "ts = [8]" using w by (simp add: wait_queue_wake_all_def)
  have p: "blocked ?s3 7 = Some 0" "blocked ?s3 8 = Some 1" "pending ?s3 = [7]" by (simp_all add: wait_start_def)
  note t = wait_queue_no_lost_wakeup [OF r w]
  have "wait_changed_turn (Some 8) 1 q' = Return 0" "fold sched_wake (pending ?s3 @ ts) (blocked ?s3) 7 = None"
    using conjunct2 [OF conjunct2 [OF conjunct2 [OF t]], rule_format, OF p(2)]
      conjunct2 [OF conjunct2 [OF conjunct2 [OF t]], rule_format, OF p(1)] unfolding p(3) by simp_all
  then show ?thesis using r w ts p by blast
qed

end
