(* ===== verification/Keyboard.thy ===== *)
theory Keyboard
  imports Wait_Queue Queues
begin

text \<open>
  The keyboard core, \<^verbatim>\<open>src/src/module/kbd_core/src/kbd_core.c\<close>: the ring of input events and
  its readers, the translation of scan codes, key state, modifiers and auto-repeat, and
  the registration of devices.

  A section under a device's lock is one definition on the device and the shared state it
  pushes to. Devices live in a store from addresses; the clock, the allocator and the
  device file system answer through arguments. Waking a wait queue advances it; the tasks to
  resume belong to the scheduler.
\<close>

unbundle bit_operations_syntax

section \<open>Events and rings\<close>

record input_event =
  sequence :: u64
  etype :: u32
  edevice :: u32
  ecode :: u32
  evalue :: u32
  emodifiers :: u32
  etext :: u32
  ereserved :: u32

abbreviation no_event :: input_event where
  "no_event \<equiv> \<lparr>sequence = 0, etype = 0, edevice = 0, ecode = 0, evalue = 0, emodifiers = 0, etext = 0, ereserved = 0\<rparr>"

definition INPUT_EVENT_KEY :: u32 where "INPUT_EVENT_KEY = 1"
definition INPUT_EVENT_DEVICE :: u32 where "INPUT_EVENT_DEVICE = 2"
definition INPUT_EVENT_SYNC :: u32 where "INPUT_EVENT_SYNC = 3"
definition INPUT_SYNC_DROPPED :: u32 where "INPUT_SYNC_DROPPED = 1"
definition INPUT_KEY_RELEASED :: u32 where "INPUT_KEY_RELEASED = 0"
definition INPUT_KEY_PRESSED :: u32 where "INPUT_KEY_PRESSED = 1"
definition INPUT_KEY_REPEATED :: u32 where "INPUT_KEY_REPEATED = 2"
definition INPUT_MOD_SHIFT :: u32 where "INPUT_MOD_SHIFT = 1"
definition INPUT_MOD_CTRL :: u32 where "INPUT_MOD_CTRL = 2"
definition INPUT_MOD_ALT :: u32 where "INPUT_MOD_ALT = 4"
definition INPUT_MOD_CAPS :: u32 where "INPUT_MOD_CAPS = 8"
definition INPUT_KEY_EXTENDED :: u32 where "INPUT_KEY_EXTENDED = 0x10000"
definition INPUT_KEY_MAX_CODE :: u32 where "INPUT_KEY_MAX_CODE = 0x1FFFF"
definition INPUT_STREAM_AGGREGATE :: u32 where "INPUT_STREAM_AGGREGATE = 0xFFFFFFFF"
definition INPUT_DEVICE_KEYBOARD :: u32 where "INPUT_DEVICE_KEYBOARD = 1"
definition INPUT_DEVICE_ADDED :: u32 where "INPUT_DEVICE_ADDED = 1"
definition INPUT_DEVICE_REMOVED :: u32 where "INPUT_DEVICE_REMOVED = 2"

definition KBD_EVENT_BUFFER_SIZE :: u64 where "KBD_EVENT_BUFFER_SIZE = 512"
definition KBD_REPEAT_DELAY_TICKS :: u64 where "KBD_REPEAT_DELAY_TICKS = 500"
definition KBD_REPEAT_PERIOD_TICKS :: u64 where "KBD_REPEAT_PERIOD_TICKS = 33"

lemmas input_consts =
  INPUT_EVENT_KEY_def INPUT_EVENT_DEVICE_def INPUT_EVENT_SYNC_def INPUT_SYNC_DROPPED_def
  INPUT_KEY_RELEASED_def INPUT_KEY_PRESSED_def INPUT_KEY_REPEATED_def INPUT_MOD_SHIFT_def
  INPUT_MOD_CTRL_def INPUT_MOD_ALT_def INPUT_MOD_CAPS_def INPUT_KEY_EXTENDED_def INPUT_KEY_MAX_CODE_def
  INPUT_STREAM_AGGREGATE_def INPUT_DEVICE_KEYBOARD_def INPUT_DEVICE_ADDED_def INPUT_DEVICE_REMOVED_def

record kbd_event_ring =
  rdata :: "input_event list"
  rfirst :: u64
  rnext :: u64

record kbd_reader =
  rd_next :: u64
  rd_index :: u32
  aggregate :: bool

definition ring_push :: "input_event \<Rightarrow> kbd_event_ring \<Rightarrow> kbd_event_ring" where
  "ring_push ev r =
     (let r' = r\<lparr>rdata := (rdata r)[unat (rnext r mod KBD_EVENT_BUFFER_SIZE) := ev\<lparr>sequence := rnext r\<rparr>],
                 rnext := rnext r + 1\<rparr>
      in if rnext r' - rfirst r' > KBD_EVENT_BUFFER_SIZE
         then r'\<lparr>rfirst := rnext r' - KBD_EVENT_BUFFER_SIZE\<rparr> else r')"

definition dropped_event :: "kbd_reader \<Rightarrow> kbd_event_ring \<Rightarrow> input_event" where
  "dropped_event rd r =
     (let dropped = rfirst r - rd_next rd in
      no_event\<lparr>sequence := rfirst r, etype := INPUT_EVENT_SYNC,
        edevice := (if aggregate rd then INPUT_STREAM_AGGREGATE else rd_index rd),
        ecode := INPUT_SYNC_DROPPED,
        evalue := (if dropped > 0xFFFFFFFF then 0xFFFFFFFF else ucast dropped)\<rparr>)"

definition ring_pop_one :: "kbd_reader \<Rightarrow> kbd_event_ring \<Rightarrow> (input_event \<times> kbd_reader) option" where
  "ring_pop_one rd r =
     (if rd_next rd < rfirst r then Some (dropped_event rd r, rd\<lparr>rd_next := rfirst r\<rparr>)
      else if rd_next rd \<ge> rnext r then None
      else Some (rdata r ! unat (rd_next rd mod KBD_EVENT_BUFFER_SIZE), rd\<lparr>rd_next := rd_next rd + 1\<rparr>))"

text \<open>The copying loop of \<^verbatim>\<open>reader_read\<close> for up to \<open>k\<close> events.\<close>

fun read_batch :: "nat \<Rightarrow> kbd_reader \<Rightarrow> kbd_event_ring \<Rightarrow> input_event list \<times> kbd_reader" where
  "read_batch 0 rd r = ([], rd)"
| "read_batch (Suc k) rd r =
     (case ring_pop_one rd r of None \<Rightarrow> ([], rd)
      | Some (ev, rd') \<Rightarrow> (case read_batch k rd' r of (evs, rd'') \<Rightarrow> (ev # evs, rd'')))"

section \<open>Devices\<close>

record kbd_device =
  kname :: string
  kindex :: u32
  kmodifiers :: u32
  e0 :: bool
  online :: bool
  repeat_code :: u32
  repeat_text :: u32
  repeat_next_tick :: u64
  repeat_active :: bool
  down :: "u32 list"
  kwait :: wait_queue
  kevents :: kbd_event_ring

text \<open>The aggregate stream all devices push to.\<close>

record kbd_global =
  kbd_global_wait :: wait_queue
  kbd_all_events :: kbd_event_ring

record kbd_core =
  kbd_count :: u32
  kglobal :: kbd_global
  kbd_devices :: "nat option list"
  devs :: "nat \<Rightarrow> kbd_device option"

definition key_slot :: "u32 \<Rightarrow> nat" where
  "key_slot code =
     (let base = code AND 0x7F in
      if code AND INPUT_KEY_EXTENDED \<noteq> 0 then unat (128 + base) else unat base)"

definition key_is_down :: "u32 \<Rightarrow> kbd_device \<Rightarrow> bool" where
  "key_is_down code kbd =
     (let slot = key_slot code in (down kbd ! (slot div 32)) AND push_bit (slot mod 32) 1 \<noteq> 0)"

definition key_set_down :: "u32 \<Rightarrow> bool \<Rightarrow> kbd_device \<Rightarrow> kbd_device" where
  "key_set_down code dn kbd =
     (let slot = key_slot code;
          bit = push_bit (slot mod 32) 1;
          w = down kbd ! (slot div 32)
      in kbd\<lparr>down := (down kbd)[slot div 32 := (if dn then w OR bit else w AND NOT bit)]\<rparr>)"

definition keymap :: "(nat \<times> char \<times> char) list" where
  "keymap =
    [(0x02, CHR 0x31, CHR 0x21), (0x03, CHR 0x32, CHR 0x40), (0x04, CHR 0x33, CHR 0x23),
     (0x05, CHR 0x34, CHR 0x24), (0x06, CHR 0x35, CHR 0x25), (0x07, CHR 0x36, CHR 0x5E),
     (0x08, CHR 0x37, CHR 0x26), (0x09, CHR 0x38, CHR 0x2A), (0x0A, CHR 0x39, CHR 0x28),
     (0x0B, CHR 0x30, CHR 0x29), (0x0C, CHR 0x2D, CHR 0x5F), (0x0D, CHR 0x3D, CHR 0x2B),
     (0x10, CHR 0x71, CHR 0x51), (0x11, CHR 0x77, CHR 0x57), (0x12, CHR 0x65, CHR 0x45),
     (0x13, CHR 0x72, CHR 0x52), (0x14, CHR 0x74, CHR 0x54), (0x15, CHR 0x79, CHR 0x59),
     (0x16, CHR 0x75, CHR 0x55), (0x17, CHR 0x69, CHR 0x49), (0x18, CHR 0x6F, CHR 0x4F),
     (0x19, CHR 0x70, CHR 0x50), (0x1A, CHR 0x5B, CHR 0x7B), (0x1B, CHR 0x5D, CHR 0x7D),
     (0x1E, CHR 0x61, CHR 0x41), (0x1F, CHR 0x73, CHR 0x53), (0x20, CHR 0x64, CHR 0x44),
     (0x21, CHR 0x66, CHR 0x46), (0x22, CHR 0x67, CHR 0x47), (0x23, CHR 0x68, CHR 0x48),
     (0x24, CHR 0x6A, CHR 0x4A), (0x25, CHR 0x6B, CHR 0x4B), (0x26, CHR 0x6C, CHR 0x4C),
     (0x27, CHR 0x3B, CHR 0x3A), (0x28, CHR 0x27, CHR 0x22), (0x29, CHR 0x60, CHR 0x7E),
     (0x2B, CHR 0x5C, CHR 0x7C), (0x2C, CHR 0x7A, CHR 0x5A), (0x2D, CHR 0x78, CHR 0x58),
     (0x2E, CHR 0x63, CHR 0x43), (0x2F, CHR 0x76, CHR 0x56), (0x30, CHR 0x62, CHR 0x42),
     (0x31, CHR 0x6E, CHR 0x4E), (0x32, CHR 0x6D, CHR 0x4D), (0x33, CHR 0x2C, CHR 0x3C),
     (0x34, CHR 0x2E, CHR 0x3E), (0x35, CHR 0x2F, CHR 0x3F), (0x39, CHR 0x20, CHR 0x20),
     (0x1C, CHR 0x0A, CHR 0x0A), (0x0E, CHR 0x08, CHR 0x08), (0x0F, CHR 0x09, CHR 0x09)]"

definition keymap_at :: "nat \<Rightarrow> char \<times> char" where
  "keymap_at code = (case map_of keymap code of None \<Rightarrow> (CHR 0x00, CHR 0x00) | Some p \<Rightarrow> p)"

definition translated_char :: "u32 \<Rightarrow> u32 \<Rightarrow> char" where
  "translated_char code0 modifiers =
     (let code = code0 AND NOT INPUT_KEY_EXTENDED in
      if code \<ge> 128 then CHR 0x00
      else case keymap_at (unat code) of (normal, shifted) \<Rightarrow>
        if normal = CHR 0x00 then CHR 0x00
        else
          let shift = (modifiers AND INPUT_MOD_SHIFT \<noteq> 0);
              c = (if shift then shifted else normal)
          in if modifiers AND INPUT_MOD_CAPS \<noteq> 0 \<and> (97 :: nat) \<le> of_char normal \<and> (of_char normal :: nat) \<le> 122
             then if shift then normal else shifted
             else c)"

definition update_modifier :: "u32 \<Rightarrow> bool \<Rightarrow> kbd_device \<Rightarrow> kbd_device" where
  "update_modifier code pressed kbd =
     (let bit0 = (if code = 0x2A \<or> code = 0x36 then INPUT_MOD_SHIFT else 0);
          bit1 = (if code = 0x1D \<or> code = INPUT_KEY_EXTENDED OR 0x1D then INPUT_MOD_CTRL else bit0);
          bit = (if code = 0x38 \<or> code = INPUT_KEY_EXTENDED OR 0x38 then INPUT_MOD_ALT else bit1);
          m1 = (if bit \<noteq> 0 then if pressed then kmodifiers kbd OR bit else kmodifiers kbd AND NOT bit
                else kmodifiers kbd);
          m2 = (if code = 0x3A \<and> pressed then m1 XOR INPUT_MOD_CAPS else m1)
      in kbd\<lparr>kmodifiers := m2\<rparr>)"

section \<open>Producing events\<close>

definition push_global_event :: "input_event \<Rightarrow> kbd_global \<Rightarrow> kbd_global" where
  "push_global_event ev g =
     g\<lparr>kbd_all_events := ring_push ev (kbd_all_events g),
       kbd_global_wait := snd (wait_queue_wake_all (kbd_global_wait g))\<rparr>"

definition wake_device :: "kbd_device \<Rightarrow> kbd_device" where
  "wake_device kbd = kbd\<lparr>kwait := snd (wait_queue_wake_all (kwait kbd))\<rparr>"

definition push_device_event :: "input_event \<Rightarrow> kbd_device \<Rightarrow> kbd_device" where
  "push_device_event ev kbd = wake_device (kbd\<lparr>kevents := ring_push ev (kevents kbd)\<rparr>)"

definition kbd_push_key_event ::
  "u32 \<Rightarrow> u32 \<Rightarrow> u32 \<Rightarrow> kbd_device \<times> kbd_global \<Rightarrow> kbd_device \<times> kbd_global" where
  "kbd_push_key_event code val text s =
     (case s of (kbd, g) \<Rightarrow>
        let ev = no_event\<lparr>etype := INPUT_EVENT_KEY, edevice := kindex kbd, ecode := code, evalue := val,
                   emodifiers := kmodifiers kbd, etext := text\<rparr>
        in (kbd\<lparr>kevents := ring_push ev (kevents kbd)\<rparr>, push_global_event ev g))"

definition clear_repeat :: "kbd_device \<Rightarrow> kbd_device" where
  "clear_repeat kbd = kbd\<lparr>repeat_active := False, repeat_code := 0, repeat_text := 0, repeat_next_tick := 0\<rparr>"

text \<open>\<open>now\<close> is \<^verbatim>\<open>kernel_monotonic_ticks\<close>.\<close>

definition kbd_handle_key ::
  "u64 \<Rightarrow> u32 \<Rightarrow> bool \<Rightarrow> u32 \<Rightarrow> kbd_device \<times> kbd_global \<Rightarrow> kbd_device \<times> kbd_global" where
  "kbd_handle_key now code pressed text s =
     (case s of (kbd, g) \<Rightarrow>
        if code AND NOT INPUT_KEY_MAX_CODE \<noteq> 0 then s
        else if \<not> online kbd then s
        else if pressed = key_is_down code kbd then s
        else
          let val = (if pressed then INPUT_KEY_PRESSED else INPUT_KEY_RELEASED);
              out_text = (if pressed then if text \<noteq> 0 then text
                            else of_nat (of_char (translated_char code (kmodifiers kbd))) else 0);
              k1 = key_set_down code pressed (update_modifier code pressed kbd);
              k2 = (if pressed \<and> out_text \<noteq> 0
                    then k1\<lparr>repeat_code := code, repeat_text := out_text,
                            repeat_next_tick := now + KBD_REPEAT_DELAY_TICKS, repeat_active := True\<rparr>
                    else if \<not> pressed \<and> repeat_active k1 \<and> repeat_code k1 = code then clear_repeat k1
                    else k1)
          in case kbd_push_key_event code val (if pressed then out_text else 0) (k2, g) of
               (k3, g') \<Rightarrow> (wake_device k3, g'))"

definition kbd_handle_scancode ::
  "u64 \<Rightarrow> u8 \<Rightarrow> kbd_device \<times> kbd_global \<Rightarrow> kbd_device \<times> kbd_global" where
  "kbd_handle_scancode now scancode s =
     (case s of (kbd, g) \<Rightarrow>
        if \<not> online kbd then s
        else if scancode = 0xE0 then (kbd\<lparr>e0 := True\<rparr>, g)
        else if scancode = 0xE1 then (kbd\<lparr>e0 := False\<rparr>, g)
        else
          let ext = e0 kbd;
              pressed = (scancode AND 0x80 = 0);
              code = ucast (scancode AND 0x7F)
          in kbd_handle_key now (if ext then code OR INPUT_KEY_EXTENDED else code) pressed 0 (kbd\<lparr>e0 := False\<rparr>, g))"

definition kbd_generate_one_repeat :: "u64 \<Rightarrow> kbd_device \<times> kbd_global \<Rightarrow> kbd_device \<times> kbd_global" where
  "kbd_generate_one_repeat now s =
     (case s of (kbd, g) \<Rightarrow>
        if \<not> online kbd \<or> \<not> repeat_active kbd \<or> repeat_next_tick kbd > now then s
        else
          (case (if key_is_down (repeat_code kbd) kbd
                 then (case kbd_push_key_event (repeat_code kbd) INPUT_KEY_REPEATED (repeat_text kbd) (kbd, g) of
                         (k, g') \<Rightarrow> (k\<lparr>repeat_next_tick := now + KBD_REPEAT_PERIOD_TICKS\<rparr>, g'))
                 else (clear_repeat kbd, g)) of
             (k, g') \<Rightarrow> (wake_device k, g')))"

definition emit_device_event :: "u32 \<Rightarrow> kbd_device \<times> kbd_global \<Rightarrow> kbd_device \<times> kbd_global" where
  "emit_device_event val s =
     (case s of (kbd, g) \<Rightarrow>
        let ev = no_event\<lparr>etype := INPUT_EVENT_DEVICE, edevice := kindex kbd, ecode := INPUT_DEVICE_KEYBOARD,
                   evalue := val, emodifiers := kmodifiers kbd\<rparr>
        in (push_device_event ev kbd, push_global_event ev g))"

definition kbd_get_modifiers :: "kbd_device \<Rightarrow> u32" where
  "kbd_get_modifiers kbd = kmodifiers kbd"

section \<open>The set of devices\<close>

definition empty_ring :: kbd_event_ring where
  "empty_ring = \<lparr>rdata = replicate 512 no_event, rfirst = 0, rnext = 0\<rparr>"

definition kbd_init :: kbd_core where
  "kbd_init = \<lparr>kbd_count = 0, kglobal = \<lparr>kbd_global_wait = wait_queue_init, kbd_all_events = empty_ring\<rparr>,
     kbd_devices = replicate 64 None, devs = Map.empty\<rparr>"

definition new_device :: "string \<Rightarrow> u32 \<Rightarrow> kbd_device" where
  "new_device nm i = \<lparr>kname = nm, kindex = i, kmodifiers = 0, e0 = False, online = True, repeat_code = 0,
     repeat_text = 0, repeat_next_tick = 0, repeat_active = False, down = replicate 8 0,
     kwait = wait_queue_init, kevents = empty_ring\<rparr>"

text \<open>
  \<open>an\<close> is the address \<^verbatim>\<open>kmalloc\<close> returns, \<open>reg\<close> whether the device file could be registered; the name is
  cut to the array.
\<close>

definition kbd_register :: "nat option \<Rightarrow> bool \<Rightarrow> string option \<Rightarrow> kbd_core \<Rightarrow> nat option \<times> kbd_core" where
  "kbd_register an reg nm c =
     (case an of None \<Rightarrow> (None, c)
      | Some a \<Rightarrow>
          let i = kbd_count c; c1 = c\<lparr>kbd_count := i + 1\<rparr> in
          if i \<ge> 64 then (None, c1)
          else if \<not> reg then (None, c1)
          else (case emit_device_event INPUT_DEVICE_ADDED
                       (new_device (take 31 (case nm of None \<Rightarrow> ''keyboard'' | Some s \<Rightarrow> s)) i, kglobal c1) of
                  (kbd, g) \<Rightarrow>
                    (Some a, c1\<lparr>kbd_devices := (kbd_devices c1)[unat i := Some a],
                                devs := (devs c1)(a \<mapsto> kbd), kglobal := g\<rparr>)))"

definition kbd_unregister :: "nat \<Rightarrow> kbd_core \<Rightarrow> kbd_core option" where
  "kbd_unregister a c =
     (case devs c a of None \<Rightarrow> None
      | Some kbd \<Rightarrow>
          if \<not> online kbd then Some c
          else (case emit_device_event INPUT_DEVICE_REMOVED (kbd\<lparr>online := False\<rparr>, kglobal c) of
                  (k, g) \<Rightarrow>
                    Some (c\<lparr>kbd_devices := (if kindex kbd < 64 then (kbd_devices c)[unat (kindex kbd) := None]
                                            else kbd_devices c),
                            devs := (devs c)(a \<mapsto> wake_device k), kglobal := g\<rparr>)))"

text \<open>The devices in table order, as copied out under the global lock.\<close>

definition local_devices :: "kbd_core \<Rightarrow> nat list" where
  "local_devices c = List.map_filter id (kbd_devices c)"

definition repeat_at :: "u64 \<Rightarrow> nat \<Rightarrow> kbd_core \<Rightarrow> kbd_core option" where
  "repeat_at now a c =
     (case devs c a of None \<Rightarrow> None
      | Some kbd \<Rightarrow> (case kbd_generate_one_repeat now (kbd, kglobal c) of
          (k, g) \<Rightarrow> Some (c\<lparr>devs := (devs c)(a \<mapsto> k), kglobal := g\<rparr>)))"

fun repeat_each :: "u64 \<Rightarrow> nat list \<Rightarrow> kbd_core \<Rightarrow> kbd_core option" where
  "repeat_each now [] c = Some c"
| "repeat_each now (a # as) c = Option.bind (repeat_at now a c) (repeat_each now as)"

definition kbd_generate_due_repeats :: "u64 \<Rightarrow> nat option \<Rightarrow> kbd_core \<Rightarrow> kbd_core option" where
  "kbd_generate_due_repeats now only c =
     (case only of Some a \<Rightarrow> repeat_at now a c | None \<Rightarrow> repeat_each now (local_devices c) c)"

definition kbd_one_repeat_active :: "nat \<Rightarrow> kbd_core \<Rightarrow> bool" where
  "kbd_one_repeat_active a c = (case devs c a of None \<Rightarrow> False | Some kbd \<Rightarrow> online kbd \<and> repeat_active kbd)"

definition kbd_repeat_active :: "nat option \<Rightarrow> kbd_core \<Rightarrow> bool" where
  "kbd_repeat_active only c =
     (case only of Some a \<Rightarrow> kbd_one_repeat_active a c
      | None \<Rightarrow> list_ex (\<lambda>a. kbd_one_repeat_active a c) (local_devices c))"

section \<open>Readers\<close>

text \<open>Opening a device's stream, or the aggregate one; \<open>km\<close> is whether the reader could be allocated.\<close>

definition event_open :: "bool \<Rightarrow> nat option \<Rightarrow> kbd_core \<Rightarrow> kbd_reader option option" where
  "event_open km priv c =
     (if \<not> km then Some None
      else case priv of
        Some a \<Rightarrow>
          (case devs c a of None \<Rightarrow> None
           | Some kbd \<Rightarrow>
               if \<not> online kbd then Some None
               else Some (Some \<lparr>rd_next = rnext (kevents kbd), rd_index = kindex kbd, aggregate = False\<rparr>))
      | None \<Rightarrow>
          Some (Some \<lparr>rd_next = rnext (kbd_all_events (kglobal c)), rd_index = 0, aggregate = True\<rparr>))"

definition INPUT_EVENT_BYTES :: u64 where "INPUT_EVENT_BYTES = 40"

text \<open>
  One turn of the loop in \<^verbatim>\<open>reader_read\<close> on the stream \<open>only\<close>: events to return, no more events, or how the
  reader sleeps before the next turn; \<open>None\<close> is a device that is not there.
\<close>

datatype read_turn = Events "input_event list" | No_Events | Sleep_Tick | Wait_Change u64

definition reader_read_turn ::
  "u64 \<Rightarrow> u64 \<Rightarrow> nat option \<Rightarrow> kbd_reader \<Rightarrow> kbd_core \<Rightarrow> (read_turn \<times> kbd_reader \<times> kbd_core) option" where
  "reader_read_turn now sz only rd c0 =
     (if sz < INPUT_EVENT_BYTES \<or> sz mod INPUT_EVENT_BYTES \<noteq> 0 then Some (No_Events, rd, c0)
      else Option.bind (kbd_generate_due_repeats now only c0) (\<lambda>c.
        let str = (case only of None \<Rightarrow> Some (kbd_all_events (kglobal c), kbd_global_wait (kglobal c), True)
                   | Some a \<Rightarrow> (case devs c a of None \<Rightarrow> None
                               | Some kbd \<Rightarrow> Some (kevents kbd, kwait kbd, online kbd)))
        in case str of None \<Rightarrow> None
        | Some (ring, wq, onl) \<Rightarrow>
            (case read_batch (unat (sz div INPUT_EVENT_BYTES)) rd ring of (evs, rd') \<Rightarrow>
               Some (if evs \<noteq> [] then Events evs
                     else if \<not> onl then No_Events
                     else if kbd_repeat_active only c then Sleep_Tick
                     else Wait_Change (wait_queue_seq wq), rd', c))))"

section \<open>Rings and the log of events\<close>

text \<open>A ring holds the last 512 entries of the log of everything pushed to it, numbered from zero.\<close>

definition stamped :: "input_event list \<Rightarrow> nat \<Rightarrow> input_event" where
  "stamped log i = (log ! i)\<lparr>sequence := of_nat i\<rparr>"

definition ring_rep :: "kbd_event_ring \<Rightarrow> input_event list \<Rightarrow> bool" where
  "ring_rep r log \<longleftrightarrow> length (rdata r) = 512 \<and> length log < 2 ^ 64 \<and> rnext r = of_nat (length log) \<and>
     rfirst r = of_nat (length log - 512) \<and>
     (\<forall>i. length log - 512 \<le> i \<and> i < length log \<longrightarrow> rdata r ! (i mod 512) = stamped log i)"

lemma ring_rep_empty: "ring_rep empty_ring []"
  by (simp add: ring_rep_def empty_ring_def)

lemma ring_slot: "n < 2 ^ 64 \<Longrightarrow> unat ((of_nat n :: u64) mod KBD_EVENT_BUFFER_SIZE) = n mod 512"
  by (simp add: KBD_EVENT_BUFFER_SIZE_def unat_mod unat_of_nat take_bit_nat_eq_self_iff)

lemma mod_512_ne: "(i :: nat) < n \<Longrightarrow> n < i + 512 \<Longrightarrow> i mod 512 \<noteq> n mod 512"
proof
  assume a: "i < n" "n < i + 512" and e: "i mod 512 = n mod 512"
  then have "512 dvd n - i" by (metis less_imp_le_nat mod_eq_dvd_iff_nat)
  then show False using a by (auto dest: dvd_imp_le)
qed

lemma ring_push_rep:
  assumes rep: "ring_rep r log" and room: "length log + 1 < 2 ^ 64"
  shows "ring_rep (ring_push ev r) (log @ [ev])"
proof -
  let ?n = "length log"
  define r' where "r' = ring_push ev r"
  have nx: "rnext r = of_nat ?n" and fi: "rfirst r = of_nat (?n - 512)" and ln: "length (rdata r) = 512"
    and dt: "\<And>i. ?n - 512 \<le> i \<Longrightarrow> i < ?n \<Longrightarrow> rdata r ! (i mod 512) = stamped log i"
    using rep by (simp_all add: ring_rep_def)
  have slot: "unat (rnext r mod KBD_EVENT_BUFFER_SIZE) = ?n mod 512" using ring_slot [of ?n] room nx by simp
  have data: "rdata r' = (rdata r)[?n mod 512 := ev\<lparr>sequence := of_nat ?n\<rparr>]" and next': "rnext r' = of_nat (?n + 1)"
    using slot nx by (simp_all add: r'_def ring_push_def Let_def add.commute)
  have diff: "of_nat (?n + 1) - of_nat (?n - 512) = (of_nat (?n + 1 - (?n - 512)) :: u64)" by (subst of_nat_diff) simp_all
  have first': "rfirst r' = of_nat (?n + 1 - 512)"
  proof (cases "?n \<ge> 512")
    case True
    then have "?n + 1 - (?n - 512) = 513" by simp
    then have d: "rnext r + 1 - rfirst r = 513" using diff nx fi by (simp add: add.commute)
    have "rfirst r' = rnext r + 1 - 512"
      by (simp add: r'_def ring_push_def Let_def KBD_EVENT_BUFFER_SIZE_def d)
    also have "\<dots> = of_nat (?n + 1) - 512" using nx by simp
    also have "\<dots> = of_nat (?n + 1 - 512)" using True by (subst of_nat_diff) simp_all
    finally show ?thesis .
  next
    case False
    then have "rfirst r = 0" using fi by simp
    moreover have "\<not> (of_nat (?n + 1) :: u64) > 512"
      using False by (simp add: word_less_nat_alt unat_of_nat take_bit_nat_eq_self_iff del: of_nat_add of_nat_Suc)
    ultimately have "rfirst r' = 0"
      using nx by (simp add: r'_def ring_push_def Let_def KBD_EVENT_BUFFER_SIZE_def add.commute)
    then show ?thesis using False by simp
  qed
  have "rdata r' ! (i mod 512) = stamped (log @ [ev]) i" if "?n + 1 - 512 \<le> i" "i < ?n + 1" for i
  proof (cases "i = ?n")
    case True
    then show ?thesis using data ln by (simp add: stamped_def)
  next
    case False
    then have "i mod 512 \<noteq> ?n mod 512" using that mod_512_ne [of i ?n] by linarith
    then show ?thesis using data dt [of i] that False by (simp add: stamped_def nth_append)
  qed
  then show ?thesis
    using next' first' data ln room unfolding ring_rep_def r'_def [symmetric] by simp
qed

lemma ring_pop_rep:
  assumes rep: "ring_rep r log" and rd: "rd_next rd = of_nat k" "k \<le> length log"
  shows "ring_pop_one rd r =
    (if k < length log - 512 then Some (dropped_event rd r, rd\<lparr>rd_next := of_nat (length log - 512)\<rparr>)
     else if k = length log then None
     else Some (stamped log k, rd\<lparr>rd_next := of_nat (Suc k)\<rparr>))"
proof -
  have b: "length log < 2 ^ 64" and nx: "rnext r = of_nat (length log)" and fi: "rfirst r = of_nat (length log - 512)"
    using rep by (simp_all add: ring_rep_def)
  have un: "unat (of_nat j :: u64) = j" if "j \<le> length log" for j
    using that b by (simp add: unat_of_nat take_bit_nat_eq_self_iff)
  have lt: "rd_next rd < rfirst r \<longleftrightarrow> k < length log - 512"
    using rd fi un [of k] un [of "length log - 512"] by (simp add: word_less_nat_alt)
  have ge: "rd_next rd \<ge> rnext r \<longleftrightarrow> k = length log"
    using rd nx un [of k] un [of "length log"] by (auto simp: word_le_nat_alt)
  have "rdata r ! unat (rd_next rd mod KBD_EVENT_BUFFER_SIZE) = stamped log k" if "length log - 512 \<le> k" "k < length log"
    using rep that ring_slot [of k] b rd(1) by (simp add: ring_rep_def)
  then show ?thesis
    using lt ge fi rd by (auto simp: ring_pop_one_def add.commute)
qed

text \<open>What a reader at position \<open>k\<close> of the log gets from up to \<open>m\<close> reads.\<close>

definition batch :: "kbd_reader \<Rightarrow> kbd_event_ring \<Rightarrow> input_event list \<Rightarrow> nat \<Rightarrow> nat \<Rightarrow> input_event list" where
  "batch rd r log k m =
     (let f = length log - 512 in
      if k < f then if m = 0 then [] else dropped_event rd r # map (stamped log) [f..<min (f + (m - 1)) (length log)]
      else map (stamped log) [k..<min (k + m) (length log)])"

lemma read_batch_current:
  "ring_rep r log \<Longrightarrow> rd_next rd = of_nat k \<Longrightarrow> k \<le> length log \<Longrightarrow> length log - 512 \<le> k \<Longrightarrow>
   read_batch m rd r = (map (stamped log) [k..<min (k + m) (length log)],
     rd\<lparr>rd_next := of_nat (min (k + m) (length log))\<rparr>)"
proof (induction m arbitrary: rd k)
  case 0
  then show ?case by (simp add: min_def)
next
  case (Suc m)
  note pop = ring_pop_rep [OF Suc.prems(1-3)]
  show ?case
  proof (cases "k = length log")
    case True
    then show ?thesis using pop Suc.prems by simp
  next
    case False
    then have "ring_pop_one rd r = Some (stamped log k, rd\<lparr>rd_next := of_nat (Suc k)\<rparr>)"
      using pop Suc.prems by simp
    moreover have "read_batch m (rd\<lparr>rd_next := of_nat (Suc k)\<rparr>) r =
        (map (stamped log) [Suc k..<min (Suc k + m) (length log)],
         rd\<lparr>rd_next := of_nat (Suc k)\<rparr>\<lparr>rd_next := of_nat (min (Suc k + m) (length log))\<rparr>)"
      using Suc.prems False by (intro Suc.IH) simp_all
    moreover have "[k..<min (k + Suc m) (length log)] = k # [Suc k..<min (Suc k + m) (length log)]"
      using False Suc.prems(3) by (subst upt_conv_Cons) simp_all
    ultimately show ?thesis by simp
  qed
qed

lemma read_batch_rep:
  assumes rep: "ring_rep r log" and rd: "rd_next rd = of_nat k" "k \<le> length log"
  shows "fst (read_batch m rd r) = batch rd r log k m"
proof (cases "k < length log - 512 \<and> m \<noteq> 0")
  case True
  then obtain m' where m: "m = Suc m'" by (cases m) auto
  have "ring_pop_one rd r = Some (dropped_event rd r, rd\<lparr>rd_next := of_nat (length log - 512)\<rparr>)"
    using ring_pop_rep [OF assms] True by simp
  moreover have "fst (read_batch m' (rd\<lparr>rd_next := of_nat (length log - 512)\<rparr>) r) =
      map (stamped log) [length log - 512..<min (length log - 512 + m') (length log)]"
    using read_batch_current [OF rep, of "rd\<lparr>rd_next := of_nat (length log - 512)\<rparr>" "length log - 512" m'] by simp
  ultimately show ?thesis using True m by (simp add: batch_def Let_def split_beta)
next
  case False
  then show ?thesis
    using read_batch_current [OF rep rd] by (cases "m = 0") (auto simp: batch_def Let_def)
qed

section \<open>The protocol of key events\<close>

definition down_bit :: "kbd_device \<Rightarrow> nat \<Rightarrow> bool" where
  "down_bit kbd s \<longleftrightarrow> bit (down kbd ! (s div 32)) (s mod 32)"

lemma and_7F_lt: "(code AND 0x7F :: u32) < 128"
  by (rule order.strict_trans1 [OF word_and_le1]) simp

lemma key_slot_lt: "key_slot code < 256"
proof -
  have a: "unat (code AND 0x7F) < 128" using and_7F_lt [of code] by (simp add: word_less_nat_alt)
  then have "unat (128 + (code AND 0x7F)) < 256" by (subst unat_add_lem [THEN iffD1]) simp_all
  then show ?thesis using a by (simp add: key_slot_def Let_def)
qed

lemma test_bit_32: "n < 32 \<Longrightarrow> (w AND push_bit n 1 \<noteq> 0) = bit (w :: u32) n"
proof -
  assume n: "n < 32"
  have "bit (w AND push_bit n 1) i = (i = n \<and> bit w n)" for i
    using n by (auto simp: bit_and_iff bit_exp_iff)
  then show ?thesis by (metis bit_0_eq bit_eqI bot_apply bot_bool_def)
qed

lemma key_is_down_bit: "key_is_down code kbd = down_bit kbd (key_slot code)"
  unfolding key_is_down_def Let_def down_bit_def by (rule test_bit_32) simp

lemma down_bit_set:
  assumes "length (down kbd) = 8" and "s < 256"
  shows "down_bit (key_set_down code dn kbd) s = (if s = key_slot code then dn else down_bit kbd s)"
proof -
  let ?k = "key_slot code"
  have k: "?k div 32 < 8" using key_slot_lt [of code] by (simp add: div_less_iff_less_mult)
  have lt: "s mod 32 < 32" "?k mod 32 < 32" by simp_all
  have eq: "s = ?k \<longleftrightarrow> s div 32 = ?k div 32 \<and> s mod 32 = ?k mod 32" by (metis div_mult_mod_eq)
  show ?thesis
    using k lt eq assms
    by (auto simp: down_bit_def key_set_down_def Let_def nth_list_update bit_or_iff bit_and_iff bit_not_iff
      bit_exp_iff)
qed

definition slot_values :: "nat \<Rightarrow> input_event list \<Rightarrow> u32 list" where
  "slot_values s log = map evalue (filter (\<lambda>e. etype e = INPUT_EVENT_KEY \<and> key_slot (ecode e) = s) log)"

text \<open>Running one key's events: presses and releases alternate, repeats come only while it is down.\<close>

fun key_run :: "bool \<Rightarrow> u32 list \<Rightarrow> bool option" where
  "key_run b [] = Some b"
| "key_run b (v # vs) =
     (if v = INPUT_KEY_PRESSED \<and> \<not> b then key_run True vs
      else if v = INPUT_KEY_RELEASED \<and> b then key_run False vs
      else if v = INPUT_KEY_REPEATED \<and> b then key_run True vs
      else None)"

lemma key_run_append: "key_run b (xs @ ys) = Option.bind (key_run b xs) (\<lambda>c. key_run c ys)"
  by (induction b xs rule: key_run.induct) auto

definition dev_inv :: "kbd_device \<Rightarrow> input_event list \<Rightarrow> bool" where
  "dev_inv kbd log \<longleftrightarrow> ring_rep (kevents kbd) log \<and> length (down kbd) = 8 \<and>
     (\<forall>s < 256. key_run False (slot_values s log) = Some (down_bit kbd s))"

lemma dev_inv_cong:
  "dev_inv kbd log \<Longrightarrow> kevents k = kevents kbd \<Longrightarrow> down k = down kbd \<Longrightarrow> dev_inv k log"
  by (simp add: dev_inv_def down_bit_def)

lemma dev_inv_key:
  assumes inv: "dev_inv kbd log" and room: "length log + 1 < 2 ^ 64"
    and ev: "etype ev = INPUT_EVENT_KEY"
    and run: "key_run (down_bit kbd (key_slot (ecode ev))) [evalue ev] = Some b"
    and k: "kevents k = ring_push ev (kevents kbd)" "length (down k) = 8"
      "\<And>s. s < 256 \<Longrightarrow> down_bit k s = (if s = key_slot (ecode ev) then b else down_bit kbd s)"
  shows "dev_inv k (log @ [ev])"
proof -
  have "key_run False (slot_values s (log @ [ev])) = Some (down_bit k s)" if "s < 256" for s
    using inv that ev run k(3) [OF that]
    by (simp add: dev_inv_def slot_values_def key_run_append)
  then show ?thesis using inv k ring_push_rep [OF _ room] by (simp add: dev_inv_def)
qed

lemma dev_inv_other:
  assumes inv: "dev_inv kbd log" and room: "length log + 1 < 2 ^ 64" and ev: "etype ev \<noteq> INPUT_EVENT_KEY"
    and k: "kevents k = ring_push ev (kevents kbd)" "down k = down kbd"
  shows "dev_inv k (log @ [ev])"
  using inv k ring_push_rep [OF _ room] ev by (simp add: dev_inv_def slot_values_def down_bit_def)

lemma update_modifier_simps [simp]:
  "down (update_modifier c p k) = down k" "kevents (update_modifier c p k) = kevents k"
  "kindex (update_modifier c p k) = kindex k" "online (update_modifier c p k) = online k"
  by (simp_all add: update_modifier_def Let_def)

lemma wake_device_simps [simp]:
  "down (wake_device k) = down k" "kevents (wake_device k) = kevents k" "online (wake_device k) = online k"
  "kindex (wake_device k) = kindex k"
  by (simp_all add: wake_device_def)

lemma clear_repeat_simps [simp]:
  "down (clear_repeat k) = down k" "kevents (clear_repeat k) = kevents k" "online (clear_repeat k) = online k"
  "kindex (clear_repeat k) = kindex k"
  by (simp_all add: clear_repeat_def)

lemma key_set_down_simps [simp]:
  "kevents (key_set_down c d k) = kevents k" "length (down (key_set_down c d k)) = length (down k)"
  "kindex (key_set_down c d k) = kindex k" "online (key_set_down c d k) = online k"
  by (simp_all add: key_set_down_def Let_def)

lemma push_key_event_fst:
  obtains ev where "etype ev = INPUT_EVENT_KEY" "ecode ev = code" "evalue ev = val"
    "fst (kbd_push_key_event code val text (kbd, g)) = kbd\<lparr>kevents := ring_push ev (kevents kbd)\<rparr>"
  by (rule that [of "no_event\<lparr>etype := INPUT_EVENT_KEY, edevice := kindex kbd, ecode := code, evalue := val,
      emodifiers := kmodifiers kbd, etext := text\<rparr>"]) (simp_all add: kbd_push_key_event_def Let_def)

lemma handle_key_inv:
  assumes inv: "dev_inv kbd log" and room: "length log + 1 < 2 ^ 64"
  shows "\<exists>log'. dev_inv (fst (kbd_handle_key now code pressed text (kbd, g))) log' \<and> length log' \<le> length log + 1"
proof (cases "code AND NOT INPUT_KEY_MAX_CODE \<noteq> 0 \<or> \<not> online kbd \<or> pressed = key_is_down code kbd")
  case True
  then have "fst (kbd_handle_key now code pressed text (kbd, g)) = kbd" by (auto simp: kbd_handle_key_def)
  then show ?thesis using inv by auto
next
  case False
  define k where "k = fst (kbd_handle_key now code pressed text (kbd, g))"
  define k1 where "k1 = key_set_down code pressed (update_modifier code pressed kbd)"
  define tx where "tx = (if pressed then if text \<noteq> 0 then text
      else of_nat (of_char (translated_char code (kmodifiers kbd))) else 0)"
  define k2 where "k2 = (if pressed \<and> tx \<noteq> 0
      then k1\<lparr>repeat_code := code, repeat_text := tx,
              repeat_next_tick := now + KBD_REPEAT_DELAY_TICKS, repeat_active := True\<rparr>
      else if \<not> pressed \<and> repeat_active k1 \<and> repeat_code k1 = code then clear_repeat k1
      else k1)"
  let ?val = "if pressed then INPUT_KEY_PRESSED else INPUT_KEY_RELEASED"
  have k2: "kevents k2 = kevents kbd" "down k2 = down k1" by (simp_all add: k2_def k1_def)
  have "kbd_handle_key now code pressed text (kbd, g) =
      (case kbd_push_key_event code ?val (if pressed then tx else 0) (k2, g) of (k3, g') \<Rightarrow> (wake_device k3, g'))"
    using False unfolding kbd_handle_key_def k2_def k1_def tx_def Let_def by (simp only: prod.case if_False de_Morgan_disj)
  then have k: "k = wake_device (fst (kbd_push_key_event code ?val (if pressed then tx else 0) (k2, g)))"
    by (simp add: k_def split_beta)
  obtain ev where e: "etype ev = INPUT_EVENT_KEY" "ecode ev = code" "evalue ev = ?val"
    "fst (kbd_push_key_event code ?val (if pressed then tx else 0) (k2, g)) = k2\<lparr>kevents := ring_push ev (kevents k2)\<rparr>"
    by (rule push_key_event_fst)
  then have ev: "etype ev = INPUT_EVENT_KEY" "ecode ev = code" "evalue ev = ?val"
    "kevents k = ring_push ev (kevents kbd)" "down k = down k1"
    using k2 unfolding k by simp_all
  have len: "length (down kbd) = 8" using inv by (simp add: dev_inv_def)
  have bits: "down_bit k s = (if s = key_slot code then pressed else down_bit kbd s)" if "s < 256" for s
    using down_bit_set [of "update_modifier code pressed kbd" s code pressed] len that ev(5)
    by (simp add: k1_def down_bit_def)
  have "dev_inv k (log @ [ev])"
    by (rule dev_inv_key [OF inv room ev(1), where b = pressed])
      (use False ev len bits in \<open>simp_all add: key_is_down_bit k1_def input_consts\<close>)
  then show ?thesis unfolding k_def [symmetric] by (intro exI [of _ "log @ [ev]"]) simp
qed

lemma handle_scancode_inv:
  assumes inv: "dev_inv kbd log" and room: "length log + 1 < 2 ^ 64"
  shows "\<exists>log'. dev_inv (fst (kbd_handle_scancode now sc (kbd, g))) log' \<and> length log' \<le> length log + 1"
proof -
  have same: "dev_inv (kbd\<lparr>e0 := b\<rparr>) log" for b using inv by (rule dev_inv_cong) simp_all
  show ?thesis
    using handle_key_inv [OF same room] inv same
    by (auto simp: kbd_handle_scancode_def Let_def intro: exI [of _ log])
qed

lemma repeat_inv:
  assumes inv: "dev_inv kbd log" and room: "length log + 1 < 2 ^ 64"
  shows "\<exists>log'. dev_inv (fst (kbd_generate_one_repeat now (kbd, g))) log' \<and> length log' \<le> length log + 1"
proof (cases "\<not> online kbd \<or> \<not> repeat_active kbd \<or> repeat_next_tick kbd > now")
  case True
  then show ?thesis using inv by (auto simp: kbd_generate_one_repeat_def intro: exI [of _ log])
next
  case False
  define k where "k = fst (kbd_generate_one_repeat now (kbd, g))"
  show ?thesis
  proof (cases "key_is_down (repeat_code kbd) kbd")
    case True
    obtain ev where ev: "etype ev = INPUT_EVENT_KEY" "ecode ev = repeat_code kbd" "evalue ev = INPUT_KEY_REPEATED"
      "fst (kbd_push_key_event (repeat_code kbd) INPUT_KEY_REPEATED (repeat_text kbd) (kbd, g)) =
        kbd\<lparr>kevents := ring_push ev (kevents kbd)\<rparr>"
      by (rule push_key_event_fst)
    have k: "kevents k = ring_push ev (kevents kbd)" "down k = down kbd"
      using False True ev(4) by (simp_all add: k_def kbd_generate_one_repeat_def split_beta)
    have "dev_inv k (log @ [ev])"
      by (rule dev_inv_key [OF inv room ev(1), where b = True])
        (use True ev k inv in \<open>auto simp: key_is_down_bit down_bit_def dev_inv_def input_consts\<close>)
    then show ?thesis unfolding k_def [symmetric] by (intro exI [of _ "log @ [ev]"]) simp
  next
    case up: False
    have "dev_inv k log"
      using inv by (rule dev_inv_cong) (use False up in \<open>simp_all add: k_def kbd_generate_one_repeat_def\<close>)
    then show ?thesis unfolding k_def [symmetric] by (intro exI [of _ log]) simp
  qed
qed

lemma emit_inv:
  assumes inv: "dev_inv kbd log" and room: "length log + 1 < 2 ^ 64"
  shows "\<exists>log'. dev_inv (fst (emit_device_event v (kbd, g))) log' \<and> length log' \<le> length log + 1"
proof -
  define ev where "ev = no_event\<lparr>etype := INPUT_EVENT_DEVICE, edevice := kindex kbd, ecode := INPUT_DEVICE_KEYBOARD,
      evalue := v, emodifiers := kmodifiers kbd\<rparr>"
  have "dev_inv (fst (emit_device_event v (kbd, g))) (log @ [ev])"
    by (rule dev_inv_other [OF inv room, of ev])
      (simp_all add: emit_device_event_def push_device_event_def ev_def input_consts Let_def)
  then show ?thesis by (intro exI [of _ "log @ [ev]"]) simp
qed

text \<open>What can happen to a registered device.\<close>

datatype kbd_op = Key u64 u32 bool u32 | Scan u64 u8 | Tick u64 | Unplug

fun kbd_apply :: "kbd_op \<Rightarrow> kbd_device \<times> kbd_global \<Rightarrow> kbd_device \<times> kbd_global" where
  "kbd_apply (Key now code p t) s = kbd_handle_key now code p t s"
| "kbd_apply (Scan now sc) s = kbd_handle_scancode now sc s"
| "kbd_apply (Tick now) s = kbd_generate_one_repeat now s"
| "kbd_apply Unplug s =
     (if online (fst s)
      then (case emit_device_event INPUT_DEVICE_REMOVED ((fst s)\<lparr>online := False\<rparr>, snd s) of
              (k, g) \<Rightarrow> (wake_device k, g))
      else s)"

lemma apply_inv:
  assumes inv: "dev_inv (fst s) log" and room: "length log + 1 < 2 ^ 64"
  shows "\<exists>log'. dev_inv (fst (kbd_apply x s)) log' \<and> length log' \<le> length log + 1"
proof -
  obtain kbd g where s: "s = (kbd, g)" by fastforce
  have k: "dev_inv kbd log" "dev_inv (kbd\<lparr>online := False\<rparr>) log"
    using inv s dev_inv_cong [of kbd log "kbd\<lparr>online := False\<rparr>"] by simp_all
  show ?thesis
  proof (cases x)
    case Unplug
    obtain log' where l: "dev_inv (fst (emit_device_event INPUT_DEVICE_REMOVED (kbd\<lparr>online := False\<rparr>, g))) log'"
      "length log' \<le> length log + 1" using emit_inv [OF k(2) room] by blast
    have "dev_inv (wake_device (fst (emit_device_event INPUT_DEVICE_REMOVED (kbd\<lparr>online := False\<rparr>, g)))) log'"
      using l(1) by (rule dev_inv_cong) simp_all
    then show ?thesis using Unplug s l(2) k(1) by (auto simp: split_beta)
  qed (use handle_key_inv [OF k(1) room] handle_scancode_inv [OF k(1) room] repeat_inv [OF k(1) room] s in simp_all)
qed

lemma run_inv:
  "dev_inv (fst s) log \<Longrightarrow> length log + length ops < 2 ^ 64 \<Longrightarrow>
   \<exists>log'. dev_inv (fst (fold kbd_apply ops s)) log' \<and> length log' \<le> length log + length ops"
proof (induction ops arbitrary: s log)
  case (Cons x ops)
  obtain log1 where l: "dev_inv (fst (kbd_apply x s)) log1" "length log1 \<le> length log + 1"
    using apply_inv [OF Cons.prems(1)] Cons.prems(2) by auto
  then show ?case using Cons.IH [OF l(1)] Cons.prems(2) by fastforce
qed auto

lemma new_device_inv: "dev_inv (new_device nm i) []"
  by (auto simp: dev_inv_def new_device_def ring_rep_empty slot_values_def down_bit_def)

section \<open>The ring as a queue\<close>

text \<open>A reader that has not fallen behind, with its ring, is a queue of the unread events.\<close>

definition ring_R :: "kbd_reader \<times> kbd_event_ring \<Rightarrow> input_event list \<Rightarrow> bool" where
  "ring_R s q \<longleftrightarrow> (case s of (rd, r) \<Rightarrow> \<exists>log k. ring_rep r log \<and> rd_next rd = of_nat k \<and> k \<le> length log \<and>
     length log - 512 \<le> k \<and> q = map (stamped log) [k..<length log])"

definition ring_ok :: "input_event \<Rightarrow> kbd_reader \<times> kbd_event_ring \<Rightarrow> bool" where
  "ring_ok ev s \<longleftrightarrow> (case s of (rd, r) \<Rightarrow>
     sequence ev = rnext r \<and> rnext r - rd_next rd < KBD_EVENT_BUFFER_SIZE \<and> rnext r \<noteq> - 1)"

definition ring_put :: "input_event \<Rightarrow> kbd_reader \<times> kbd_event_ring \<Rightarrow> kbd_reader \<times> kbd_event_ring" where
  "ring_put ev s = (case s of (rd, r) \<Rightarrow> (rd, ring_push ev r))"

definition ring_get :: "kbd_reader \<times> kbd_event_ring \<Rightarrow> input_event \<times> kbd_reader \<times> kbd_event_ring" where
  "ring_get s = (case s of (rd, r) \<Rightarrow>
     (case ring_pop_one rd r of None \<Rightarrow> (no_event, rd, r) | Some (ev, rd') \<Rightarrow> (ev, rd', r)))"

interpretation ring_fifo: fifo ring_R ring_ok ring_put ring_get
proof
  fix s q and a :: input_event
  assume R: "ring_R s q" and ok: "ring_ok a s"
  obtain rd r where s: "s = (rd, r)" by fastforce
  obtain log k where l: "ring_rep r log" "rd_next rd = of_nat k" "k \<le> length log" "length log - 512 \<le> k"
    "q = map (stamped log) [k..<length log]" using R s by (auto simp: ring_R_def)
  have nx: "rnext r = of_nat (length log)" and b: "length log < 2 ^ 64" using l(1) by (simp_all add: ring_rep_def)
  have room: "length log + 1 < 2 ^ 64"
  proof (rule ccontr)
    assume "\<not> length log + 1 < 2 ^ 64"
    then have "length log = 2 ^ 64 - 1" using b by simp
    then have "rnext r = - 1" using nx by simp
    then show False using ok s by (simp add: ring_ok_def)
  qed
  have "rnext r - rd_next rd = of_nat (length log - k)" using nx l(2,3) by simp
  then have "length log - k < 512"
    using ok s b by (simp add: ring_ok_def KBD_EVENT_BUFFER_SIZE_def word_less_nat_alt unat_of_nat take_bit_nat_eq_self_iff)
  moreover have "stamped (log @ [a]) (length log) = a"
    using ok s nx by (simp add: stamped_def ring_ok_def)
  moreover have "map (stamped (log @ [a])) [k..<length log] = map (stamped log) [k..<length log]"
    by (simp add: stamped_def nth_append)
  ultimately show "ring_R (ring_put a s) (q @ [a])"
    using ring_push_rep [OF l(1) room, of a] l(2,3,5) s
    by (auto simp: ring_R_def ring_put_def intro!: exI [of _ "log @ [a]"] exI [of _ k])
next
  fix s q and a :: input_event
  assume R: "ring_R s (a # q)"
  obtain rd r where s: "s = (rd, r)" by fastforce
  obtain log k where l: "ring_rep r log" "rd_next rd = of_nat k" "k \<le> length log" "length log - 512 \<le> k"
    "a # q = map (stamped log) [k..<length log]" using R s by (auto simp: ring_R_def)
  have lt: "k < length log" using l(3,5) by (cases "k = length log") auto
  then have q: "a = stamped log k" "q = map (stamped log) [Suc k..<length log]"
    using l(5) by (simp_all add: upt_conv_Cons)
  have "ring_pop_one rd r = Some (a, rd\<lparr>rd_next := of_nat (Suc k)\<rparr>)"
    using ring_pop_rep [OF l(1-3)] lt l(4) q(1) by simp
  then show "fst (ring_get s) = a \<and> ring_R (snd (ring_get s)) q"
    using s l lt q(2) by (auto simp: ring_get_def ring_R_def intro!: exI [of _ log] exI [of _ "Suc k"])
qed

section \<open>Properties\<close>

lemma ring_push_all:
  "ring_rep r log \<Longrightarrow> length log + length evs < 2 ^ 64 \<Longrightarrow> ring_rep (fold ring_push evs r) (log @ evs)"
proof (induction evs arbitrary: r log)
  case (Cons e evs)
  then show ?case using Cons.IH [of "ring_push e r" "log @ [e]"] ring_push_rep [of r log e] by simp
qed simp

lemma dropped_value:
  assumes "ring_rep r log" and "rd_next rd = of_nat k" and "k < length log - 512" and "length log - 512 - k < 2 ^ 32"
  shows "evalue (dropped_event rd r) = of_nat (length log - 512 - k)"
    and "etype (dropped_event rd r) = INPUT_EVENT_SYNC"
proof -
  have "rfirst r - rd_next rd = of_nat (length log - 512 - k)"
    using assms by (simp add: ring_rep_def)
  moreover have "\<not> (of_nat (length log - 512 - k) :: u64) > 0xFFFFFFFF"
    using assms(4) by (simp add: word_less_nat_alt unat_of_nat take_bit_nat_eq_self_iff del: of_nat_diff)
  moreover have "ucast (of_nat (length log - 512 - k) :: u64) = (of_nat (length log - 512 - k) :: u32)"
    using assms(4) by (simp add: unsigned_of_nat take_bit_nat_eq_self del: of_nat_diff)
  ultimately show "evalue (dropped_event rd r) = of_nat (length log - 512 - k)"
    by (simp add: dropped_event_def Let_def del: of_nat_diff)
  show "etype (dropped_event rd r) = INPUT_EVENT_SYNC" by (simp add: dropped_event_def Let_def)
qed

text \<open>C34: A reader that asks after events were pushed gets all of them, in order and numbered without
  gaps, as long as at most 512 arrived; otherwise it first gets one marker that counts exactly the
  events it lost and then the last 512.\<close>

theorem reader_sees_events:
  assumes rep: "ring_rep r log" and rd: "rd_next rd = of_nat (length log)"
    and room: "length log + length evs < 2 ^ 64" and few: "length evs < 2 ^ 32" and m: "length evs < m"
  shows "let all = log @ evs; n = length all; out = fst (read_batch m rd (fold ring_push evs r)) in
    if length evs \<le> 512 then out = map (stamped all) [length log..<n]
    else etype (hd out) = INPUT_EVENT_SYNC \<and> evalue (hd out) = of_nat (length evs - 512) \<and>
      tl out = map (stamped all) [n - 512..<n]"
proof -
  let ?r = "fold ring_push evs r" and ?all = "log @ evs"
  have rep': "ring_rep ?r ?all" using ring_push_all [OF rep room] .
  have out: "fst (read_batch m rd ?r) = batch rd ?r ?all (length log) m"
    by (rule read_batch_rep [OF rep' rd]) simp
  show ?thesis
  proof (cases "length evs \<le> 512")
    case True
    then show ?thesis using out m by (simp add: batch_def Let_def min_def)
  next
    case False
    then have lt: "length log < length ?all - 512" by simp
    have e: "length ?all - 512 - length log = length evs - 512" by simp
    have "length ?all - 512 + (m - 1) \<ge> length ?all" using m False by simp
    then have "batch rd ?r ?all (length log) m =
        dropped_event rd ?r # map (stamped ?all) [length ?all - 512..<length ?all]"
      using lt m by (simp add: batch_def Let_def min_def)
    then show ?thesis
      using out False dropped_value [OF rep' rd lt] few e by (simp add: Let_def del: of_nat_diff)
  qed
qed

theorem reader_sees_events_witness:
  "fst (read_batch 2 \<lparr>rd_next = 0, rd_index = 0, aggregate = False\<rparr> (ring_push no_event empty_ring)) = [no_event]"
  using reader_sees_events [OF ring_rep_empty, of "\<lparr>rd_next = 0, rd_index = 0, aggregate = False\<rparr>" "[no_event]" 2]
  by (simp add: stamped_def)

text \<open>C35: Whatever scan codes, key reports, clock ticks and unplugging a device goes through, its
  events follow the protocol key by key: presses and releases alternate starting with a press,
  repeats occur only between a press and its release, and the bitmap of held keys agrees with the last
  event; the ring always holds the latest 512 events of that history. The history starts at the
  fresh record; the announcement \<^verbatim>\<open>kbd_register\<close> adds first is not a key event and touches no bit of
  the bitmap.\<close>

theorem kbd_key_protocol:
  assumes "length ops < 2 ^ 64"
  shows "\<exists>log. length log \<le> length ops \<and>
    (let kbd = fst (fold kbd_apply ops (new_device nm i, g)) in
      ring_rep (kevents kbd) log \<and>
      (\<forall>code. key_run False (slot_values (key_slot code) log) = Some (key_is_down code kbd)))"
proof -
  obtain log where "dev_inv (fst (fold kbd_apply ops (new_device nm i, g))) log" "length log \<le> length ops"
    using run_inv [of "(new_device nm i, g)" "[]" ops] new_device_inv assms by auto
  then show ?thesis
    using key_slot_lt by (auto simp: dev_inv_def key_is_down_bit Let_def intro!: exI [of _ log])
qed

theorem kbd_key_protocol_witness:
  "\<exists>log. length log \<le> 2 \<and>
     key_run False (slot_values (key_slot 0x1E) log) =
       Some (key_is_down 0x1E (fst (fold kbd_apply [Scan 0 0x1E, Scan 5 0x9E] (new_device ''k'' 0, kglobal kbd_init))))"
proof -
  obtain log where "length log \<le> length [Scan 0 0x1E, Scan 5 0x9E]"
    "\<forall>code. key_run False (slot_values (key_slot code) log) =
      Some (key_is_down code (fst (fold kbd_apply [Scan 0 0x1E, Scan 5 0x9E] (new_device ''k'' 0, kglobal kbd_init))))"
    using kbd_key_protocol [of "[Scan 0 0x1E, Scan 5 0x9E]" "''k''" 0 "kglobal kbd_init"] unfolding Let_def by auto
  then show ?thesis by (intro exI [of _ log] conjI) (simp, blast)
qed

section \<open>Defects\<close>

text \<open>Indices of unregistered devices are never used again: after 64 registrations all others fail.\<close>

lemma kbd_index_not_reused:
  "kbd_unregister a c = Some c' \<Longrightarrow> kbd_count c \<ge> 64 \<Longrightarrow> fst (kbd_register an reg nm c') = None"
  by (auto simp: kbd_unregister_def kbd_register_def Let_def split: option.splits if_splits prod.splits)

text \<open>Releasing one of two held shift keys clears the modifier although the other is still down.\<close>

lemma shift_lost:
  "kmodifiers (update_modifier 0x2A False (update_modifier 0x36 True (update_modifier 0x2A True kbd)))
     AND INPUT_MOD_SHIFT = 0"
  by (simp add: update_modifier_def Let_def input_consts and.assoc)

end
