(* ===== verification/Keyboard_Drivers.thy ===== *)
theory Keyboard_Drivers
  imports Keyboard
begin

text \<open>
  The two keyboard drivers on top of the keyboard core: \<^verbatim>\<open>src/src/module/usb_hid_kbd/src/usb_hid_kbd.c\<close>
  for USB keyboards in boot protocol and \<^verbatim>\<open>src/src/module/ps2_kbd/src/ps2_kbd.c\<close>. The answers of
  the allocator, of the USB core and of the interrupt layer, and the bytes the hardware delivers are
  arguments. The main result is that after every report the keys the core takes for held are
  exactly the keys of the last report.
\<close>

unbundle bit_operations_syntax

section \<open>USB reports\<close>

definition HID_BOOT_REPORT_LEN :: nat where "HID_BOOT_REPORT_LEN = 8"

record hid_kbd =
  hkbd :: "nat option"
  last_report :: "u8 list"

definition report_has_key :: "u8 list \<Rightarrow> u8 \<Rightarrow> bool" where
  "report_has_key rep key \<longleftrightarrow> (\<exists>i \<in> set [2..<HID_BOOT_REPORT_LEN]. rep ! i = key)"

definition usage_table :: "(u8 \<times> u32) list" where
  "usage_table =
    [(0x04, 0x1e), (0x05, 0x30), (0x06, 0x2e), (0x07, 0x20), (0x08, 0x12), (0x09, 0x21), (0x0a, 0x22),
     (0x0b, 0x23), (0x0c, 0x17), (0x0d, 0x24), (0x0e, 0x25), (0x0f, 0x26), (0x10, 0x32), (0x11, 0x31),
     (0x12, 0x18), (0x13, 0x19), (0x14, 0x10), (0x15, 0x13), (0x16, 0x1f), (0x17, 0x14), (0x18, 0x16),
     (0x19, 0x2f), (0x1a, 0x11), (0x1b, 0x2d), (0x1c, 0x15), (0x1d, 0x2c), (0x1e, 0x02), (0x1f, 0x03),
     (0x20, 0x04), (0x21, 0x05), (0x22, 0x06), (0x23, 0x07), (0x24, 0x08), (0x25, 0x09), (0x26, 0x0a),
     (0x27, 0x0b), (0x28, 0x1c), (0x29, 0x01), (0x2a, 0x0e), (0x2b, 0x0f), (0x2c, 0x39), (0x2d, 0x0c),
     (0x2e, 0x0d), (0x2f, 0x1a), (0x30, 0x1b), (0x31, 0x2b), (0x33, 0x27), (0x34, 0x28), (0x35, 0x29),
     (0x36, 0x33), (0x37, 0x34), (0x38, 0x35)]"

definition usage_to_set1 :: "u8 \<Rightarrow> u32" where
  "usage_to_set1 usage = (case map_of usage_table usage of Some code \<Rightarrow> code | None \<Rightarrow> 0x10000 OR ucast usage)"

definition mod_to_set1 :: "nat \<Rightarrow> u32" where
  "mod_to_set1 b =
     (if b = 0 then 0x1d else if b = 1 then 0x2a else if b = 2 then 0x38
      else if b = 4 then INPUT_KEY_EXTENDED OR 0x1d else if b = 5 then 0x36
      else if b = 6 then INPUT_KEY_EXTENDED OR 0x38
      else 0x10000 OR (0x80 + of_nat b))"

text \<open>
  The three loops of \<^verbatim>\<open>hid_keyboard_callback\<close>: modifiers, released keys, pressed keys. \<open>now\<close> are the
  readings of the clock by the successive calls.
\<close>

definition hid_modifiers :: "(nat \<Rightarrow> u64) \<Rightarrow> u8 list \<Rightarrow> u8 list \<Rightarrow> kbd_device \<times> kbd_global \<Rightarrow> kbd_device \<times> kbd_global" where
  "hid_modifiers now lst rep =
     fold (\<lambda>b s.
       let mask = (push_bit b 1 :: u8); new = rep ! 0 AND mask; old = lst ! 0 AND mask
       in if new \<noteq> old then kbd_handle_key (now b) (mod_to_set1 b) (new \<noteq> 0) 0 s else s) [0..<8]"

definition hid_released :: "(nat \<Rightarrow> u64) \<Rightarrow> u8 list \<Rightarrow> u8 list \<Rightarrow> kbd_device \<times> kbd_global \<Rightarrow> kbd_device \<times> kbd_global" where
  "hid_released now lst rep =
     fold (\<lambda>i s. let old = lst ! i in
       if old \<noteq> 0 \<and> \<not> report_has_key rep old then kbd_handle_key (now (8 + i)) (usage_to_set1 old) False 0 s
       else s) [2..<HID_BOOT_REPORT_LEN]"

definition hid_pressed :: "(nat \<Rightarrow> u64) \<Rightarrow> u8 list \<Rightarrow> u8 list \<Rightarrow> kbd_device \<times> kbd_global \<Rightarrow> kbd_device \<times> kbd_global" where
  "hid_pressed now lst rep =
     fold (\<lambda>i s. let key = rep ! i in
       if key \<noteq> 0 \<and> \<not> report_has_key lst key then kbd_handle_key (now (16 + i)) (usage_to_set1 key) True 0 s
       else s) [2..<HID_BOOT_REPORT_LEN]"

text \<open>The report, filled up with zeros when the transfer is short or has no data.\<close>

definition hid_report :: "u8 list option \<Rightarrow> u8 list" where
  "hid_report dat =
     (let rep = (case dat of None \<Rightarrow> [] | Some xs \<Rightarrow> xs) in
      if length rep < HID_BOOT_REPORT_LEN then rep @ replicate (HID_BOOT_REPORT_LEN - length rep) 0
      else take HID_BOOT_REPORT_LEN rep)"

definition rolled_over :: "u8 list \<Rightarrow> bool" where
  "rolled_over rep \<longleftrightarrow> rep ! 2 = 1 \<and> rep ! 3 = 1 \<and> rep ! 4 = 1 \<and> rep ! 5 = 1 \<and> rep ! 6 = 1 \<and> rep ! 7 = 1"

text \<open>\<open>None\<close> is the use of a device that does not exist.\<close>

definition on_device :: "nat \<Rightarrow> (kbd_device \<times> kbd_global \<Rightarrow> kbd_device \<times> kbd_global) \<Rightarrow> kbd_core \<Rightarrow> kbd_core option" where
  "on_device a f c =
     (case devs c a of None \<Rightarrow> None
      | Some kbd \<Rightarrow> (case f (kbd, kglobal c) of (k, g) \<Rightarrow> Some (c\<lparr>devs := (devs c)(a \<mapsto> k), kglobal := g\<rparr>)))"

definition hid_keyboard_callback ::
  "(nat \<Rightarrow> u64) \<Rightarrow> u8 list option \<Rightarrow> int \<Rightarrow> hid_kbd \<Rightarrow> kbd_core \<Rightarrow> (hid_kbd \<times> kbd_core) option" where
  "hid_keyboard_callback now dat status h c =
     (case hkbd h of None \<Rightarrow> Some (h, c)
      | Some a \<Rightarrow>
          if status \<noteq> 0 then Some (h, c)
          else
            let rep = hid_report dat in
            if rolled_over rep then Some (h, c)
            else map_option (\<lambda>c'. (h\<lparr>last_report := rep\<rparr>, c'))
              (on_device a (\<lambda>s. hid_pressed now (last_report h) rep
                 (hid_released now (last_report h) rep (hid_modifiers now (last_report h) rep s))) c))"

section \<open>Binding a USB keyboard\<close>

record usb_endpoint_descriptor =
  bEndpointAddress :: u8
  bmAttributes :: u8
  wMaxPacketSize :: u16
  bInterval :: u8

record usb_interface =
  bInterfaceClass :: u8
  bInterfaceSubClass :: u8
  bInterfaceProtocol :: u8
  endpoints :: "usb_endpoint_descriptor list"

record usb_interrupt_pipe =
  endpoint :: u8
  max_packet :: u16
  interval :: u8
  buffer_len :: u16

definition find_intr_in :: "usb_interface \<Rightarrow> usb_endpoint_descriptor option" where
  "find_intr_in intf = find (\<lambda>ep. bEndpointAddress ep AND 0x80 \<noteq> 0 \<and> bmAttributes ep AND 3 = 3) (endpoints intf)"

definition hid_match :: "usb_interface option \<Rightarrow> bool" where
  "hid_match intf =
     (case intf of None \<Rightarrow> False
      | Some i \<Rightarrow> bInterfaceClass i = 3 \<and> bInterfaceSubClass i = 1 \<and> bInterfaceProtocol i = 1 \<and> find_intr_in i \<noteq> None)"

definition intr_pipe :: "usb_endpoint_descriptor \<Rightarrow> usb_interrupt_pipe" where
  "intr_pipe ep =
     (let m0 = wMaxPacketSize ep AND 0x7FF;
          m1 = (if m0 > 8 then 8 else m0);
          m2 = (if m1 = 0 then 8 else m1)
      in \<lparr>endpoint = bEndpointAddress ep, max_packet = m2,
          interval = (if bInterval ep \<noteq> 0 then bInterval ep else 8), buffer_len = 8\<rparr>)"

text \<open>
  \<open>ak\<close> and \<open>ab\<close>: the driver's record and buffer could be allocated; \<open>an\<close>, \<open>reg\<close> as for
  \<open>kbd_register\<close>; \<open>nm\<close>: the name printed from the device and interface numbers; \<open>pr\<close>: what
  \<^verbatim>\<open>usb_register_interrupt_pipe\<close> returns. The result is the return value with the driver's record and
  pipe, if bound; \<open>None\<close> is an access to a device that does not exist.
\<close>

definition hid_bind ::
  "bool \<Rightarrow> bool \<Rightarrow> nat option \<Rightarrow> bool \<Rightarrow> string \<Rightarrow> int \<Rightarrow> usb_interface \<Rightarrow> kbd_core \<Rightarrow>
   (int \<times> (hid_kbd \<times> usb_interrupt_pipe) option \<times> kbd_core) option" where
  "hid_bind ak ab an reg nm pr intf c =
     (case find_intr_in intf of None \<Rightarrow> Some (-1, None, c)
      | Some ep \<Rightarrow>
          if \<not> ak \<or> \<not> ab then Some (-1, None, c)
          else (case kbd_register an reg (Some nm) c of
                  (None, c1) \<Rightarrow> Some (-1, None, c1)
                | (Some a, c1) \<Rightarrow>
                    if pr \<noteq> 0 then map_option (\<lambda>c2. (-1, None, c2)) (kbd_unregister a c1)
                    else Some (0, Some (\<lparr>hkbd = Some a, last_report = replicate HID_BOOT_REPORT_LEN 0\<rparr>, intr_pipe ep), c1)))"

definition hid_unbind :: "hid_kbd \<Rightarrow> kbd_core \<Rightarrow> kbd_core option" where
  "hid_unbind h c = (case hkbd h of None \<Rightarrow> Some c | Some a \<Rightarrow> kbd_unregister a c)"

section \<open>PS/2\<close>

definition ps2_irq :: "u64 \<Rightarrow> u8 \<Rightarrow> nat \<Rightarrow> kbd_core \<Rightarrow> kbd_core option" where
  "ps2_irq now sc a c = on_device a (kbd_handle_scancode now sc) c"

text \<open>\<open>rq\<close> is what \<^verbatim>\<open>request_irq\<close> returns.\<close>

definition ps2_init :: "nat option \<Rightarrow> bool \<Rightarrow> int \<Rightarrow> kbd_core \<Rightarrow> (int \<times> nat option \<times> kbd_core) option" where
  "ps2_init an reg rq c =
     (case kbd_register an reg (Some ''ps2-keyboard'') c of
        (None, c1) \<Rightarrow> Some (-1, None, c1)
      | (Some a, c1) \<Rightarrow> if rq \<noteq> 0 then map_option (\<lambda>c2. (-1, None, c2)) (kbd_unregister a c1) else Some (0, Some a, c1))"

definition ps2_exit :: "nat \<Rightarrow> kbd_core \<Rightarrow> kbd_core option" where
  "ps2_exit a c = kbd_unregister a c"

section \<open>Codes\<close>

lemma handle_key_frame:
  assumes "online kbd" and "code AND NOT INPUT_KEY_MAX_CODE = 0" and "length (down kbd) = 8"
  shows "down (fst (kbd_handle_key now code p t (kbd, g))) =
      (if p = key_is_down code kbd then down kbd else down (key_set_down code p (update_modifier code p kbd)))"
    and "online (fst (kbd_handle_key now code p t (kbd, g)))"
    and "length (down (fst (kbd_handle_key now code p t (kbd, g)))) = 8"
  using assms by (simp_all add: kbd_handle_key_def kbd_push_key_event_def Let_def split_beta)

lemma handle_key_down:
  assumes "online kbd" and "code AND NOT INPUT_KEY_MAX_CODE = 0" and "length (down kbd) = 8" and "s < 256"
  shows "down_bit (fst (kbd_handle_key now code p t (kbd, g))) s = (if s = key_slot code then p else down_bit kbd s)"
  using handle_key_frame(1) [OF assms(1-3), of now p t g] down_bit_set [of "update_modifier code p kbd" s code p] assms(3,4)
  by (auto simp: down_bit_def key_is_down_bit)

text \<open>
  The usages of the keys proper, 4 to 7F, and the eight modifiers all have their own slot in the
  core's bitmap.
\<close>

definition key_usage :: "u8 \<Rightarrow> bool" where
  "key_usage u \<longleftrightarrow> 4 \<le> u \<and> u < 0x80"

abbreviation usage_slot :: "u8 \<Rightarrow> nat" where "usage_slot u \<equiv> key_slot (usage_to_set1 u)"
abbreviation mod_slot :: "nat \<Rightarrow> nat" where "mod_slot b \<equiv> key_slot (mod_to_set1 b)"

lemma usage_table_slots:
  "list_all (\<lambda>(u, c). key_slot c = unat c \<and> unat c \<noteq> 29 \<and> unat c \<noteq> 42 \<and> unat c \<noteq> 54 \<and> unat c \<noteq> 56 \<and> unat c < 128 \<and>
     c AND NOT INPUT_KEY_MAX_CODE = 0) usage_table"
  by (simp add: usage_table_def key_slot_def INPUT_KEY_EXTENDED_def INPUT_KEY_MAX_CODE_def)

lemma usage_table_inj: "distinct (map snd usage_table)"
  by (simp add: usage_table_def)

lemma mod_slots: "map mod_slot [0..<8] = [29, 42, 56, 131, 157, 54, 184, 135]"
  by (simp add: upt_rec mod_to_set1_def key_slot_def INPUT_KEY_EXTENDED_def)

lemma mod_slot_inj: "a < 8 \<Longrightarrow> b < 8 \<Longrightarrow> mod_slot a = mod_slot b \<Longrightarrow> a = b"
proof -
  have "distinct (map mod_slot [0..<8])" unfolding mod_slots by simp
  then show "a < 8 \<Longrightarrow> b < 8 \<Longrightarrow> mod_slot a = mod_slot b \<Longrightarrow> a = b" by (auto simp: distinct_map inj_on_def)
qed

lemma mod_valid: "b < 8 \<Longrightarrow> mod_to_set1 b AND NOT INPUT_KEY_MAX_CODE = 0"
proof -
  have "list_all (\<lambda>b. mod_to_set1 b AND NOT INPUT_KEY_MAX_CODE = 0) [0..<8]"
    by (simp add: upt_rec mod_to_set1_def INPUT_KEY_EXTENDED_def INPUT_KEY_MAX_CODE_def)
  then show "b < 8 \<Longrightarrow> mod_to_set1 b AND NOT INPUT_KEY_MAX_CODE = 0" by (simp add: list_all_iff)
qed

lemma usage_mapped:
  assumes "map_of usage_table u = Some c"
  shows "usage_to_set1 u = c" and "usage_slot u = unat c" and "unat c < 128"
    and "unat c \<notin> {29, 42, 54, 56}" and "c AND NOT INPUT_KEY_MAX_CODE = 0"
  using map_of_SomeD [OF assms] usage_table_slots assms by (auto simp: list_all_iff usage_to_set1_def)

lemma usage_unmapped:
  assumes "map_of usage_table u = None" and "u < 0x80"
  shows "usage_to_set1 u = 0x10000 OR ucast u" and "usage_slot u = 128 + unat u"
proof -
  let ?w = "ucast u :: u32"
  have lt: "unat u < 2 ^ 7" using assms(2) by (simp add: word_less_nat_alt)
  have uw: "unat ?w = unat u" using lt by (simp add: unsigned_ucast_eq take_bit_nat_eq_self)
  show c: "usage_to_set1 u = 0x10000 OR ?w" using assms(1) by (simp add: usage_to_set1_def)
  have t: "take_bit 7 ?w = ?w" using lt uw by (simp add: word_unat_eq_iff unsigned_take_bit_eq take_bit_nat_eq_self)
  have m: "(0x10000 OR ?w) AND 0x7F = ?w"
  proof -
    have "(0x10000 OR ?w) AND 0x7F = take_bit 7 (0x10000 OR ?w)" by (simp add: take_bit_eq_mask mask_eq_exp_minus_1)
    also have "\<dots> = take_bit 7 ?w" by (simp add: take_bit_or)
    finally show ?thesis using t by simp
  qed
  have b: "bit (0x10000 OR ?w) 16" by (simp add: bit_or_iff bit_numeral_rec numeral_eq_Suc)
  have "(0x10000 OR ?w) AND 0x10000 \<noteq> 0" using test_bit_32 [of 16 "0x10000 OR ?w"] b by simp
  moreover have "unat (128 + ?w) = 128 + unat u" using lt uw by (subst unat_add_lem [THEN iffD1]) simp_all
  ultimately show "usage_slot u = 128 + unat u"
    unfolding key_slot_def Let_def c INPUT_KEY_EXTENDED_def m by simp
qed

lemma usage_valid: "usage_to_set1 u AND NOT INPUT_KEY_MAX_CODE = 0"
proof (cases "map_of usage_table u")
  case None
  let ?w = "ucast u :: u32"
  have "unat u < 2 ^ 8" using unsigned_less [of u] by simp
  then have "take_bit 8 ?w = ?w"
    by (simp add: word_unat_eq_iff unsigned_take_bit_eq unsigned_ucast_eq take_bit_nat_eq_self)
  then have "?w AND 0xFF = ?w" by (simp add: take_bit_eq_mask mask_eq_exp_minus_1)
  then have "?w AND NOT 0x1FFFF = ?w AND (0xFF AND NOT 0x1FFFF)" by (metis and.assoc)
  then have "?w AND NOT 0x1FFFF = 0" by simp
  then show ?thesis using None by (simp add: usage_to_set1_def INPUT_KEY_MAX_CODE_def bit.conj_disj_distrib2)
qed (use usage_mapped(1,5) in auto)

lemma usage_slot_inj:
  assumes "key_usage u" and "key_usage v" and eq: "usage_slot u = usage_slot v"
  shows "u = v"
proof (cases "map_of usage_table u")
  case None
  show ?thesis
  proof (cases "map_of usage_table v")
    case None
    then show ?thesis
      using \<open>map_of usage_table u = None\<close> usage_unmapped(2) [of u] usage_unmapped(2) [of v] assms
      by (simp add: key_usage_def word_unat_eq_iff)
  next
    case (Some c)
    then show ?thesis using usage_unmapped(2) [OF None] usage_mapped(2,3) [OF Some] assms by (simp add: key_usage_def)
  qed
next
  case (Some c)
  show ?thesis
  proof (cases "map_of usage_table v")
    case None
    then show ?thesis using usage_unmapped(2) [OF None] usage_mapped(2,3) [OF Some] assms by (simp add: key_usage_def)
  next
    case s: (Some d)
    then have "c = d" using usage_mapped(2) [OF Some] usage_mapped(2) [OF s] eq by (simp add: word_unat_eq_iff)
    moreover have "inj_on snd (set usage_table)" using usage_table_inj by (simp add: distinct_map)
    ultimately show ?thesis
      using map_of_SomeD [OF Some] map_of_SomeD [OF s] inj_onD [of snd "set usage_table" "(u, c)" "(v, d)"] by simp
  qed
qed

lemma usage_mod_slot: "key_usage u \<Longrightarrow> b < 8 \<Longrightarrow> usage_slot u \<noteq> mod_slot b"
proof
  assume u: "key_usage u" and b: "b < 8" and eq: "usage_slot u = mod_slot b"
  have "mod_slot b \<in> set (map mod_slot [0..<8])" using b by simp
  then have m: "usage_slot u \<in> {29, 42, 56, 131, 157, 54, 184, 135}" unfolding mod_slots eq by auto
  show False
  proof (cases "map_of usage_table u")
    case (Some c)
    then show False using usage_mapped(2-4) [OF Some] m by auto
  next
    case None
    then have "128 + unat u \<in> {29, 42, 56, 131, 157, 54, 184, 135}"
      using usage_unmapped(2) [OF None] u m by (simp add: key_usage_def)
    then have "unat u \<in> {3, 29, 56, 7}" by auto
    moreover have "u = of_nat (unat u)" by simp
    ultimately have "u \<in> {3, 29, 56, 7}" by (metis insert_iff empty_iff of_nat_numeral)
    then show False using None u by (auto simp: usage_table_def key_usage_def)
  qed
qed

text \<open>
  Usages whose slots differ from each other and from those of the modifiers. The keys proper are
  such a set. All usages are not: from 80 on the seven bits of a slot no longer tell usages apart,
  and four of them fall on modifiers.
\<close>

definition own_codes :: "u8 set \<Rightarrow> bool" where
  "own_codes U \<longleftrightarrow> 0 \<notin> U \<and> inj_on usage_slot U \<and> (\<forall>u \<in> U. \<forall>b < 8. usage_slot u \<noteq> mod_slot b)"

lemma own_codesD:
  assumes "own_codes U"
  shows "0 \<notin> U" and "u \<in> U \<Longrightarrow> v \<in> U \<Longrightarrow> usage_slot u = usage_slot v \<Longrightarrow> u = v"
    and "u \<in> U \<Longrightarrow> b < 8 \<Longrightarrow> usage_slot u \<noteq> mod_slot b"
  using assms by (auto simp: own_codes_def inj_on_def)

lemma boot_keys_own_codes: "own_codes {u. key_usage u}"
  using usage_slot_inj usage_mod_slot by (auto simp: own_codes_def inj_on_def) (auto simp: key_usage_def)

lemma shared_codes: "own_codes U \<Longrightarrow> 0x83 \<notin> U \<and> 0x87 \<notin> U"
proof -
  assume own: "own_codes U"
  have "usage_slot 0x83 = mod_slot 3" "usage_slot 0x87 = mod_slot 7"
    by (simp_all add: usage_to_set1_def usage_table_def mod_to_set1_def)
  then show ?thesis using own_codesD(3) [OF own, of "0x83" 3] own_codesD(3) [OF own, of "0x87" 7] by auto
qed

section \<open>Following the reports\<close>

text \<open>A loop of key reports in which all reports for one slot agree.\<close>

lemma fold_keys:
  assumes "online (fst s)" and "length (down (fst s)) = 8"
    and "\<And>x. x \<in> set xs \<Longrightarrow> P x \<Longrightarrow> code x AND NOT INPUT_KEY_MAX_CODE = 0"
    and s': "s' = fold (\<lambda>x s. if P x then kbd_handle_key (now x) (code x) (pr x) 0 s else s) xs s"
  shows "online (fst s') \<and> length (down (fst s')) = 8 \<and>
    (\<forall>n < 256. \<forall>v. (\<forall>x \<in> set xs. P x \<longrightarrow> key_slot (code x) = n \<longrightarrow> pr x = v) \<longrightarrow>
      down_bit (fst s') n = (if \<exists>x \<in> set xs. P x \<and> key_slot (code x) = n then v else down_bit (fst s) n))"
  using assms(1-3) unfolding s'
proof (induction xs arbitrary: s)
  case (Cons x xs)
  obtain kbd g where s: "s = (kbd, g)" by fastforce
  let ?s1 = "if P x then kbd_handle_key (now x) (code x) (pr x) 0 s else s"
  let ?F = "fold (\<lambda>x s. if P x then kbd_handle_key (now x) (code x) (pr x) 0 s else s) xs ?s1"
  have v: "P x \<Longrightarrow> code x AND NOT INPUT_KEY_MAX_CODE = 0" using Cons.prems(3) by simp
  have on: "online kbd" "length (down kbd) = 8" using Cons.prems(1,2) s by simp_all
  have one: "online (fst ?s1)" "length (down (fst ?s1)) = 8"
    using handle_key_frame [OF on(1) v on(2)] on s by auto
  have bit: "down_bit (fst ?s1) n = (if P x \<and> key_slot (code x) = n then pr x else down_bit kbd n)" if "n < 256" for n
    using handle_key_down [OF on(1) v on(2) that] s by auto
  have ih: "online (fst ?F) \<and> length (down (fst ?F)) = 8 \<and>
    (\<forall>n < 256. \<forall>v. (\<forall>x \<in> set xs. P x \<longrightarrow> key_slot (code x) = n \<longrightarrow> pr x = v) \<longrightarrow>
      down_bit (fst ?F) n = (if \<exists>x \<in> set xs. P x \<and> key_slot (code x) = n then v else down_bit (fst ?s1) n))"
    by (rule Cons.IH [OF one]) (simp add: Cons.prems(3))
  have F: "fold (\<lambda>x s. if P x then kbd_handle_key (now x) (code x) (pr x) 0 s else s) (x # xs) s = ?F" by simp
  show ?case
    unfolding F
  proof (intro conjI allI impI)
    show "online (fst ?F)" "length (down (fst ?F)) = 8" using ih by blast+
    fix n v assume n: "n < 256" and all: "\<forall>y \<in> set (x # xs). P y \<longrightarrow> key_slot (code y) = n \<longrightarrow> pr y = v"
    then have "down_bit (fst ?F) n = (if \<exists>y \<in> set xs. P y \<and> key_slot (code y) = n then v else down_bit (fst ?s1) n)"
      using ih by simp
    then show "down_bit (fst ?F) n = (if \<exists>y \<in> set (x # xs). P y \<and> key_slot (code y) = n then v else down_bit (fst s) n)"
      unfolding bit [OF n] using all s by auto
  qed
qed simp

definition held :: "u8 list \<Rightarrow> nat \<Rightarrow> bool" where
  "held rep n \<longleftrightarrow> (\<exists>b < 8. bit (rep ! 0) b \<and> mod_slot b = n) \<or> (\<exists>u. u \<noteq> 0 \<and> report_has_key rep u \<and> usage_slot u = n)"

text \<open>The keys of a report, empty places apart, are among the given usages.\<close>

definition report_ok :: "u8 set \<Rightarrow> u8 list \<Rightarrow> bool" where
  "report_ok U rep \<longleftrightarrow> length rep = 8 \<and> (\<forall>u. report_has_key rep u \<longrightarrow> u = 0 \<or> u \<in> U)"

definition follows :: "u8 list \<Rightarrow> kbd_device \<Rightarrow> bool" where
  "follows rep kbd \<longleftrightarrow> online kbd \<and> length (down kbd) = 8 \<and> (\<forall>n < 256. down_bit kbd n = held rep n)"

lemma byte_mask: "b < 8 \<Longrightarrow> (w AND push_bit b 1 \<noteq> 0) = bit (w :: u8) b"
proof -
  assume b: "b < 8"
  have "bit (w AND push_bit b 1) i = (i = b \<and> bit w b)" for i
    using b by (auto simp: bit_and_iff bit_exp_iff)
  then show ?thesis by (metis bit_0_eq bit_eqI bot_apply bot_bool_def)
qed

lemma mask_eq: "b < 8 \<Longrightarrow> (x AND push_bit b 1 = y AND push_bit b 1) = (bit (x :: u8) b = bit y b)"
proof -
  assume b: "b < 8"
  have e: "bit (w AND push_bit b 1) i = (i = b \<and> bit w b)" for i and w :: u8
    using b by (auto simp: bit_and_iff bit_exp_iff)
  show ?thesis
  proof
    assume "x AND push_bit b 1 = y AND push_bit b 1"
    then show "bit x b = bit y b" using e [of x b] e [of y b] by simp
  next
    assume "bit x b = bit y b"
    then show "x AND push_bit b 1 = y AND push_bit b 1" using e by (intro bit_eqI) simp
  qed
qed

lemma report_codes_follow:
  assumes f: "follows lst kbd" and ok: "report_ok U lst" "report_ok U rep" and own: "own_codes U"
  shows "follows rep (fst (hid_pressed now lst rep (hid_released now lst rep (hid_modifiers now lst rep (kbd, g)))))"
proof -
  define s1 where "s1 = hid_modifiers now lst rep (kbd, g)"
  define s2 where "s2 = hid_released now lst rep s1"
  define s3 where "s3 = hid_pressed now lst rep s2"
  have k0: "online (fst (kbd, g))" "length (down (fst (kbd, g))) = 8" and d0: "\<And>n. n < 256 \<Longrightarrow> down_bit kbd n = held lst n"
    using f by (simp_all add: follows_def)
  have valid: "u \<in> U" if "report_has_key r u" "u \<noteq> 0" "r = lst \<or> r = rep" for r u
    using ok that by (auto simp: report_ok_def)
  have at: "report_has_key r (r ! i)" if "i \<in> set [2..<HID_BOOT_REPORT_LEN]" for r i
    using that by (auto simp: report_has_key_def)
  have uv: "usage_to_set1 (r ! i) AND NOT INPUT_KEY_MAX_CODE = 0"
    if "i \<in> set [2..<HID_BOOT_REPORT_LEN]" "r ! i \<noteq> 0" "r = lst \<or> r = rep" for r i
    by (rule usage_valid)
  let ?P1 = "\<lambda>b. rep ! 0 AND push_bit b 1 \<noteq> lst ! 0 AND push_bit b 1"
  let ?P2 = "\<lambda>i. lst ! i \<noteq> 0 \<and> \<not> report_has_key rep (lst ! i)"
  let ?P3 = "\<lambda>i. rep ! i \<noteq> 0 \<and> \<not> report_has_key lst (rep ! i)"
  have e1: "s1 = fold (\<lambda>b s. if ?P1 b then kbd_handle_key (now b) (mod_to_set1 b) (rep ! 0 AND push_bit b 1 \<noteq> 0) 0 s else s) [0..<8] (kbd, g)"
    unfolding s1_def hid_modifiers_def Let_def by (rule refl)
  have e2: "s2 = fold (\<lambda>i s. if ?P2 i then kbd_handle_key (now (8 + i)) (usage_to_set1 (lst ! i)) False 0 s else s) [2..<HID_BOOT_REPORT_LEN] s1"
    by (simp add: s2_def hid_released_def Let_def)
  have e3: "s3 = fold (\<lambda>i s. if ?P3 i then kbd_handle_key (now (16 + i)) (usage_to_set1 (rep ! i)) True 0 s else s) [2..<HID_BOOT_REPORT_LEN] s2"
    by (simp add: s3_def hid_pressed_def Let_def)
  have f1: "online (fst s1) \<and> length (down (fst s1)) = 8 \<and>
    (\<forall>n < 256. \<forall>v. (\<forall>b \<in> set [0..<8]. ?P1 b \<longrightarrow> mod_slot b = n \<longrightarrow> (rep ! 0 AND push_bit b 1 \<noteq> 0) = v) \<longrightarrow>
      down_bit (fst s1) n = (if \<exists>b \<in> set [0..<8]. ?P1 b \<and> mod_slot b = n then v else down_bit (fst (kbd, g)) n))"
    by (rule fold_keys [OF k0 _ e1]) (simp add: mod_valid)
  have f2: "online (fst s2) \<and> length (down (fst s2)) = 8 \<and>
    (\<forall>n < 256. \<forall>v. (\<forall>i \<in> set [2..<HID_BOOT_REPORT_LEN]. ?P2 i \<longrightarrow> usage_slot (lst ! i) = n \<longrightarrow> False = v) \<longrightarrow>
      down_bit (fst s2) n = (if \<exists>i \<in> set [2..<HID_BOOT_REPORT_LEN]. ?P2 i \<and> usage_slot (lst ! i) = n then v else down_bit (fst s1) n))"
    by (rule fold_keys [OF _ _ _ e2]) (use f1 uv in simp_all)
  have f3: "online (fst s3) \<and> length (down (fst s3)) = 8 \<and>
    (\<forall>n < 256. \<forall>v. (\<forall>i \<in> set [2..<HID_BOOT_REPORT_LEN]. ?P3 i \<longrightarrow> usage_slot (rep ! i) = n \<longrightarrow> True = v) \<longrightarrow>
      down_bit (fst s3) n = (if \<exists>i \<in> set [2..<HID_BOOT_REPORT_LEN]. ?P3 i \<and> usage_slot (rep ! i) = n then v else down_bit (fst s2) n))"
    by (rule fold_keys [OF _ _ _ e3]) (use f2 uv in simp_all)
  define md where "md r n \<longleftrightarrow> (\<exists>b < 8. bit (r ! 0) b \<and> mod_slot b = n)" for r :: "u8 list" and n
  define ky where "ky r n \<longleftrightarrow> (\<exists>u. u \<noteq> 0 \<and> report_has_key r u \<and> usage_slot u = n)" for r n
  have hd: "held r n = (md r n \<or> ky r n)" for r n by (simp add: held_def md_def ky_def)
  have nk: "\<not> ky r (mod_slot b)" if "b < 8" "r = lst \<or> r = rep" for r b
    using that valid own_codesD(3) [OF own] by (auto simp: ky_def)
  have mb: "md r (mod_slot b) = bit (r ! 0) b" if "b < 8" for r b
    using that mod_slot_inj by (auto simp: md_def)
  have d1: "down_bit (fst s1) n = (md rep n \<or> ky lst n)" if n: "n < 256" for n
  proof (cases "\<exists>b < 8. mod_slot b = n")
    case True
    then obtain b where b: "b < 8" "mod_slot b = n" by blast
    then have u: "c = b" if "c < 8" "mod_slot c = n" for c using mod_slot_inj that by auto
    have "down_bit (fst s1) n = (if \<exists>c \<in> set [0..<8]. ?P1 c \<and> mod_slot c = n then rep ! 0 AND push_bit b 1 \<noteq> 0 else down_bit (fst (kbd, g)) n)"
    proof -
      have "\<forall>c \<in> set [0..<8]. ?P1 c \<longrightarrow> mod_slot c = n \<longrightarrow> (rep ! 0 AND push_bit c 1 \<noteq> 0) = (rep ! 0 AND push_bit b 1 \<noteq> 0)"
        using u by (metis atLeastLessThan_iff set_upt)
      then show ?thesis using conjunct2 [OF conjunct2 [OF f1]] n by blast
    qed
    moreover have "(\<exists>c \<in> set [0..<8]. Q c \<and> mod_slot c = n) = Q b" for Q
    proof
      assume "\<exists>c \<in> set [0..<8]. Q c \<and> mod_slot c = n"
      then obtain c where "c < 8" "mod_slot c = n" "Q c" by auto
      then show "Q b" using u by simp
    qed (use b in auto)
    moreover have "?P1 b = (bit (rep ! 0) b \<noteq> bit (lst ! 0) b)" using mask_eq [OF b(1), of "rep ! 0" "lst ! 0"] by simp
    moreover have "(rep ! 0 AND push_bit b 1 \<noteq> 0) = bit (rep ! 0) b" by (rule byte_mask [OF b(1)])
    moreover have "down_bit kbd n = bit (lst ! 0) b"
      using d0 [OF n] hd [of lst n] nk [OF b(1), of lst] mb [OF b(1), of lst] b(2) by simp
    moreover have "(md rep n \<or> ky lst n) = bit (rep ! 0) b"
      using nk [OF b(1), of lst] mb [OF b(1), of rep] b(2) by simp
    ultimately show ?thesis by auto
  next
    case False
    then have "down_bit (fst s1) n = down_bit kbd n" using f1 n by auto
    then show ?thesis using d0 [OF n] hd False by (auto simp: md_def)
  qed
  have d2: "down_bit (fst s2) n = (md rep n \<or> (\<exists>u. u \<noteq> 0 \<and> report_has_key lst u \<and> report_has_key rep u \<and> usage_slot u = n))"
    if n: "n < 256" for n
  proof -
    have e: "(\<exists>i \<in> set [2..<HID_BOOT_REPORT_LEN]. ?P2 i \<and> usage_slot (lst ! i) = n) =
        (\<exists>u. u \<noteq> 0 \<and> report_has_key lst u \<and> \<not> report_has_key rep u \<and> usage_slot u = n)"
      unfolding report_has_key_def [of lst] by auto
    have "down_bit (fst s2) n = (if \<exists>i \<in> set [2..<HID_BOOT_REPORT_LEN]. ?P2 i \<and> usage_slot (lst ! i) = n then False else down_bit (fst s1) n)"
      using f2 n by blast
    then have a: "down_bit (fst s2) n = (\<not> (\<exists>u. u \<noteq> 0 \<and> report_has_key lst u \<and> \<not> report_has_key rep u \<and> usage_slot u = n) \<and> (md rep n \<or> ky lst n))"
      unfolding e d1 [OF n] by auto
    show ?thesis
    proof (cases "md rep n")
      case True
      then obtain b where "b < 8" "mod_slot b = n" by (auto simp: md_def)
      then have "\<not> ky lst n" using nk by auto
      then show ?thesis using a True by (auto simp: ky_def)
    next
      case False
      have "u = v" if "u \<noteq> 0" "v \<noteq> 0" "report_has_key lst u" "report_has_key lst v" "usage_slot u = n" "usage_slot v = n" for u v
        using that valid by (intro own_codesD(2) [OF own]) auto
      then have one: "R u = R v" if "u \<noteq> 0" "v \<noteq> 0" "report_has_key lst u" "report_has_key lst v" "usage_slot u = n" "usage_slot v = n"
        for u v and R :: "u8 \<Rightarrow> bool" using that by blast
      show ?thesis
      proof (cases "ky lst n")
        case True
        then obtain u where u: "u \<noteq> 0" "report_has_key lst u" "usage_slot u = n" by (auto simp: ky_def)
        then show ?thesis using a True False one [OF u(1) _ u(2) _ u(3), of _ "report_has_key rep"] by auto
      next
        case False
        then show ?thesis using a \<open>\<not> md rep n\<close> by (auto simp: ky_def)
      qed
    qed
  qed
  have d3: "down_bit (fst s3) n = held rep n" if n: "n < 256" for n
  proof -
    have e: "(\<exists>i \<in> set [2..<HID_BOOT_REPORT_LEN]. ?P3 i \<and> usage_slot (rep ! i) = n) =
        (\<exists>u. u \<noteq> 0 \<and> report_has_key rep u \<and> \<not> report_has_key lst u \<and> usage_slot u = n)"
      unfolding report_has_key_def [of rep] by auto
    have "down_bit (fst s3) n = (if \<exists>i \<in> set [2..<HID_BOOT_REPORT_LEN]. ?P3 i \<and> usage_slot (rep ! i) = n then True else down_bit (fst s2) n)"
      using f3 n by blast
    then show ?thesis unfolding e d2 [OF n] hd ky_def by auto
  qed
  show ?thesis
    unfolding s1_def [symmetric] unfolding s2_def [symmetric] unfolding s3_def [symmetric] follows_def
    using d3 conjunct1 [OF f3] conjunct1 [OF conjunct2 [OF f3]] by simp
qed

lemma length_hid_report: "length (hid_report dat) = 8"
  by (simp add: hid_report_def HID_BOOT_REPORT_LEN_def Let_def)

type_synonym transfer = "(nat \<Rightarrow> u64) \<times> u8 list option \<times> int"

text \<open>A history of transfers, and the reports among them that the driver takes.\<close>

fun hid_run :: "transfer list \<Rightarrow> hid_kbd \<times> kbd_core \<Rightarrow> (hid_kbd \<times> kbd_core) option" where
  "hid_run [] s = Some s"
| "hid_run ((now, dat, status) # ts) (h, c) =
     Option.bind (hid_keyboard_callback now dat status h c) (hid_run ts)"

definition taken :: "transfer list \<Rightarrow> u8 list list" where
  "taken ts = map (\<lambda>(now, dat, status). hid_report dat)
     (filter (\<lambda>(now, dat, status). status = 0 \<and> \<not> rolled_over (hid_report dat)) ts)"

lemma callback_follows:
  assumes h: "hkbd h = Some a" "report_ok U (last_report h)" and k: "devs c a = Some kbd" "follows (last_report h) kbd"
    and d: "status = 0 \<Longrightarrow> \<not> rolled_over (hid_report dat) \<Longrightarrow> report_ok U (hid_report dat)" and own: "own_codes U"
  shows "\<exists>h' c' kbd'. hid_keyboard_callback now dat status h c = Some (h', c') \<and> hkbd h' = Some a \<and>
    last_report h' = (if status = 0 \<and> \<not> rolled_over (hid_report dat) then hid_report dat else last_report h) \<and>
    devs c' a = Some kbd' \<and> follows (last_report h') kbd'"
proof (cases "status = 0 \<and> \<not> rolled_over (hid_report dat)")
  case False
  then show ?thesis using h k by (auto simp: hid_keyboard_callback_def Let_def)
next
  case True
  let ?rep = "hid_report dat" and ?l = "last_report h"
  let ?s = "hid_pressed now ?l ?rep (hid_released now ?l ?rep (hid_modifiers now ?l ?rep (kbd, kglobal c)))"
  have "follows ?rep (fst ?s)" by (rule report_codes_follow [OF k(2) h(2) d own]) (use True in auto)
  then show ?thesis using True h k by (simp add: hid_keyboard_callback_def on_device_def Let_def split_beta)
qed

lemma run_follows:
  assumes "hkbd h = Some a" and "report_ok U (last_report h)" and "devs c a = Some kbd" and "follows (last_report h) kbd"
    and "\<forall>r \<in> set (taken ts). report_ok U r" and "own_codes U"
  shows "\<exists>h' c' kbd'. hid_run ts (h, c) = Some (h', c') \<and> last_report h' = last (last_report h # taken ts) \<and>
    devs c' a = Some kbd' \<and> follows (last_report h') kbd'"
  using assms
proof (induction ts arbitrary: h c kbd)
  case (Cons t ts)
  obtain now dat status where t: "t = (now, dat, status)" by (metis prod_cases3)
  have d: "status = 0 \<Longrightarrow> \<not> rolled_over (hid_report dat) \<Longrightarrow> report_ok U (hid_report dat)"
    using Cons.prems(5) by (simp add: taken_def t)
  obtain h1 c1 k1 where one: "hid_keyboard_callback now dat status h c = Some (h1, c1)" "hkbd h1 = Some a"
    "last_report h1 = (if status = 0 \<and> \<not> rolled_over (hid_report dat) then hid_report dat else last_report h)"
    "devs c1 a = Some k1" "follows (last_report h1) k1"
    using callback_follows [OF Cons.prems(1-4) d Cons.prems(6)] by blast
  have ok: "report_ok U (last_report h1)" using one(3) d Cons.prems(2) by simp
  have rest: "\<forall>r \<in> set (taken ts). report_ok U r" using Cons.prems(5) by (auto simp: taken_def)
  have "taken (t # ts) = (if status = 0 \<and> \<not> rolled_over (hid_report dat) then hid_report dat # taken ts else taken ts)"
    by (simp add: taken_def t)
  then have "last (last_report h # taken (t # ts)) = last (last_report h1 # taken ts)" using one(3) by simp
  moreover have "hid_run (t # ts) (h, c) = hid_run ts (h1, c1)" using one(1) by (simp add: t)
  ultimately show ?case using Cons.IH [OF one(2) ok one(4,5) rest Cons.prems(6)] by simp
qed (auto simp: taken_def)

lemma held_usage:
  assumes "report_ok U r" and own: "own_codes U" and "u \<in> U"
  shows "held r (usage_slot u) = report_has_key r u"
proof -
  have "v = u" if "report_has_key r v" "v \<noteq> 0" "usage_slot v = usage_slot u" for v
    using assms that by (intro own_codesD(2) [OF own]) (auto simp: report_ok_def)
  moreover have "mod_slot b \<noteq> usage_slot u" if "b < 8" for b using own_codesD(3) [OF own assms(3) that] by simp
  moreover have "u \<noteq> 0" using own_codesD(1) [OF own] assms(3) by auto
  ultimately show ?thesis unfolding held_def by blast
qed

lemma held_mod:
  assumes "report_ok U r" and own: "own_codes U" and "b < 8"
  shows "held r (mod_slot b) = bit (r ! 0) b"
proof -
  have "usage_slot u \<noteq> mod_slot b" if "report_has_key r u" "u \<noteq> 0" for u
    using own_codesD(3) [OF own _ assms(3)] assms(1) that by (auto simp: report_ok_def)
  moreover have "c = b" if "c < 8" "mod_slot c = mod_slot b" for c using mod_slot_inj that assms(3) by blast
  ultimately show ?thesis using assms(3) unfolding held_def by blast
qed

lemma no_keys: "report_has_key (replicate 8 0) u = (u = 0)" "report_ok U (replicate 8 0)"
proof -
  have "report_has_key (replicate 8 0) u = (u = 0)" for u
    by (auto simp: report_has_key_def HID_BOOT_REPORT_LEN_def intro!: bexI [of _ 2])
  then show "report_has_key (replicate 8 0) u = (u = 0)" "report_ok U (replicate 8 0)" by (simp_all add: report_ok_def)
qed

lemma new_device_follows: "follows (replicate 8 0) (fst (emit_device_event v (new_device nm i, g)))"
proof -
  have "\<not> held (replicate 8 0) n" for n by (simp add: held_def no_keys)
  then show ?thesis
    by (simp add: follows_def emit_device_event_def push_device_event_def new_device_def Let_def down_bit_def)
qed

lemma register_follows:
  assumes "kbd_register an reg nm c = (Some a, c1)"
  shows "an = Some a" and "\<exists>kbd. devs c1 a = Some kbd \<and> follows (replicate 8 0) kbd"
proof -
  let ?k = "new_device (take 31 (case nm of None \<Rightarrow> ''keyboard'' | Some s \<Rightarrow> s)) (kbd_count c)"
  show "an = Some a" "\<exists>kbd. devs c1 a = Some kbd \<and> follows (replicate 8 0) kbd"
    using assms new_device_follows [of INPUT_DEVICE_ADDED _ "kbd_count c" "kglobal c"]
    by (auto simp: kbd_register_def Let_def split_beta split: option.splits if_splits)
qed

section \<open>Properties\<close>

text \<open>The length given to the host controller never exceeds the driver's buffer and is not 0.\<close>

lemma pipe_fits: "0 < max_packet (intr_pipe ep) \<and> max_packet (intr_pipe ep) \<le> buffer_len (intr_pipe ep)"
  by (auto simp: intr_pipe_def Let_def word_gt_0 not_less)

text \<open>
  Caps Lock, usage 39, is missing from the table: the core sees the extended space key, which types
  a space and does not change the lock.
\<close>

lemma caps_lock_types_space:
  "translated_char (usage_to_set1 0x39) 0 = CHR '' ''"
  "kmodifiers (update_modifier (usage_to_set1 0x39) p kbd) = kmodifiers kbd"
  by (simp_all add: usage_to_set1_def usage_table_def translated_char_def keymap_at_def keymap_def update_modifier_def
      Let_def input_consts)

text \<open>
  Usage 87 and the right GUI modifier are sent as the same code: when both are held and the key is
  released, the core takes the modifier for released although the report still has it.
\<close>

lemma usage_87_releases_modifier:
  fixes lst rep :: "u8 list"
  defines "lst \<equiv> [0x80, 0, 0x87, 0, 0, 0, 0, 0]" and "rep \<equiv> [0x80, 0, 0, 0, 0, 0, 0, 0]"
  assumes "online kbd" and "length (down kbd) = 8"
  shows "\<not> key_is_down (mod_to_set1 7)
    (fst (hid_pressed now lst rep (hid_released now lst rep (hid_modifiers now lst rep (kbd, g)))))"
proof -
  have "hid_modifiers now lst rep (kbd, g) = (kbd, g)"
    by (simp add: hid_modifiers_def lst_def rep_def Let_def upt_rec)
  moreover have "hid_released now lst rep (kbd, g) = kbd_handle_key (now 10) (usage_to_set1 0x87) False 0 (kbd, g)"
    by (simp add: hid_released_def lst_def rep_def Let_def upt_rec HID_BOOT_REPORT_LEN_def report_has_key_def)
  moreover have "hid_pressed now lst rep s = s" for s
    by (simp add: hid_pressed_def lst_def rep_def Let_def upt_rec HID_BOOT_REPORT_LEN_def)
  moreover have "usage_to_set1 0x87 = mod_to_set1 7"
    by (simp add: usage_to_set1_def usage_table_def mod_to_set1_def)
  ultimately show ?thesis
    using handle_key_down [OF assms(3) mod_valid assms(4) key_slot_lt, of 7 "now 10" False 0 g "mod_to_set1 7"]
    by (simp add: key_is_down_bit)
qed

text \<open>
  C40: After a USB keyboard has been bound, and whatever transfers arrive, failed, short and overflowed
  ones included, the keyboard core takes for held exactly the keys and modifiers of the last report
  the driver took, provided the reports use only usages that the driver sends as codes of their own, apart
  from each other and from the modifiers. Usages 4 to 7F are such a set; 83 and 87, which share a code with
  a modifier, are in none.
\<close>

theorem usb_keyboard_tracks:
  assumes "hid_bind ak ab an rg nm pr intf c = Some (0, Some (h, pipe), c1)"
    and "own_codes U" and "\<forall>r \<in> set (taken ts). report_ok U r"
  shows "\<exists>a h' c' kbd. an = Some a \<and> hid_run ts (h, c1) = Some (h', c') \<and> devs c' a = Some kbd \<and>
    (let r = last (replicate 8 0 # taken ts) in
      (\<forall>u \<in> U. key_is_down (usage_to_set1 u) kbd = report_has_key r u) \<and>
      (\<forall>b < 8. key_is_down (mod_to_set1 b) kbd = bit (r ! 0) b)) \<and>
    own_codes {u. key_usage u} \<and> 0x83 \<notin> U \<and> 0x87 \<notin> U"
proof -
  obtain a where r: "kbd_register an rg (Some nm) c = (Some a, c1)" and h: "h = \<lparr>hkbd = Some a, last_report = replicate 8 0\<rparr>"
    using assms(1) by (auto simp: hid_bind_def HID_BOOT_REPORT_LEN_def split: option.splits if_splits prod.splits)
  obtain kbd where k: "devs c1 a = Some kbd" "follows (replicate 8 0) kbd" using register_follows [OF r] by blast
  obtain h' c' kbd' where f: "hid_run ts (h, c1) = Some (h', c')" "last_report h' = last (replicate 8 0 # taken ts)"
    "devs c' a = Some kbd'" "follows (last_report h') kbd'"
    using run_follows [of h a U c1 kbd ts] h k assms(2,3) no_keys(2) by auto
  let ?r = "last (replicate 8 0 # taken ts)"
  have ok: "report_ok U ?r" using assms(3) no_keys(2) by auto
  have "\<forall>u \<in> U. key_is_down (usage_to_set1 u) kbd' = report_has_key ?r u"
    using f(2,4) held_usage [OF ok assms(2)] key_slot_lt by (simp add: key_is_down_bit follows_def)
  moreover have "\<forall>b < 8. key_is_down (mod_to_set1 b) kbd' = bit (?r ! 0) b"
    using f(2,4) held_mod [OF ok assms(2)] key_slot_lt by (simp add: key_is_down_bit follows_def)
  ultimately show ?thesis
    using f(1,3) register_follows(1) [OF r] boot_keys_own_codes shared_codes [OF assms(2)] unfolding Let_def by blast
qed

definition demo_intf :: usb_interface where
  "demo_intf = \<lparr>bInterfaceClass = 3, bInterfaceSubClass = 1, bInterfaceProtocol = 1,
     endpoints = [\<lparr>bEndpointAddress = 0x81, bmAttributes = 3, wMaxPacketSize = 8, bInterval = 10\<rparr>]\<rparr>"

definition demo_transfers :: "transfer list" where
  "demo_transfers = [((\<lambda>_. 0), Some [2, 0, 4, 0, 0, 0, 0, 0], 0), ((\<lambda>_. 5), None, -1)]"

lemma demo_taken: "taken demo_transfers = [[2, 0, 4, 0, 0, 0, 0, 0]]" "report_ok {u. key_usage u} [2, 0, 4, 0, 0, 0, 0, 0]"
proof -
  show "taken demo_transfers = [[2, 0, 4, 0, 0, 0, 0, 0]]"
    by (simp add: taken_def demo_transfers_def hid_report_def HID_BOOT_REPORT_LEN_def rolled_over_def)
  show "report_ok {u. key_usage u} [2, 0, 4, 0, 0, 0, 0, 0]"
    by (auto simp: report_ok_def report_has_key_def HID_BOOT_REPORT_LEN_def key_usage_def upt_rec)
qed

theorem usb_keyboard_tracks_witness:
  "\<exists>h pipe c1 h' c' kbd. hid_bind True True (Some 7) True ''k'' 0 demo_intf kbd_init = Some (0, Some (h, pipe), c1) \<and>
     hid_run demo_transfers (h, c1) = Some (h', c') \<and> devs c' 7 = Some kbd \<and>
     key_is_down (usage_to_set1 4) kbd \<and> \<not> key_is_down (usage_to_set1 5) kbd \<and> key_is_down (mod_to_set1 1) kbd"
proof -
  have "\<exists>h pipe c1. hid_bind True True (Some 7) True ''k'' 0 demo_intf kbd_init = Some (0, Some (h, pipe), c1)"
    by (simp add: hid_bind_def demo_intf_def find_intr_in_def kbd_register_def kbd_init_def Let_def split_beta)
  then obtain h pipe c1 where b: "hid_bind True True (Some 7) True ''k'' 0 demo_intf kbd_init = Some (0, Some (h, pipe), c1)"
    by blast
  have keys: "report_has_key [2, 0, 4, 0, 0, 0, 0, 0] 4" "\<not> report_has_key [2, 0, 4, 0, 0, 0, 0, 0] 5"
    "key_usage 4" "key_usage 5" "bit (2 :: u8) 1"
    by (simp_all add: report_has_key_def HID_BOOT_REPORT_LEN_def key_usage_def upt_rec bit_numeral_rec)
  show ?thesis
    using usb_keyboard_tracks [OF b boot_keys_own_codes, of demo_transfers] demo_taken keys b by (fastforce simp: Let_def)
qed

end
