(* ===== verification/Rounding.thy ===== *)
theory Rounding
  imports Prelude
begin

text \<open>
  Rounding to powers of two and the reads of filled memory, shared by the allocators.
\<close>

unbundle bit_operations_syntax

lemma and_not_mask: "(w :: u64) AND NOT (2 ^ k - 1) = push_bit k (drop_bit k w)"
proof -
  have "(2 ^ k - 1 :: u64) = mask k" by (simp add: mask_eq_exp_minus_1)
  then show ?thesis
    by (auto simp: bit_eq_iff bit_and_iff bit_not_iff bit_mask_iff bit_push_bit_iff bit_drop_bit_eq)
qed

lemma unat_round: "k < 64 \<Longrightarrow> unat ((w :: u64) AND NOT (2 ^ k - 1)) = unat w div 2 ^ k * 2 ^ k"
proof -
  assume k: "k < 64"
  have "unat (drop_bit k w) = unat w div 2 ^ k"
    using unat_lt64 [of w] by (subst unsigned_drop_bit_eq) (simp add: drop_bit_eq_div take_bit_eq_mod)
  then have "unat (push_bit k (drop_bit k w)) = take_bit 64 (push_bit k (unat w div 2 ^ k))"
    by (subst unsigned_push_bit_eq) simp
  moreover have "push_bit k (unat w div 2 ^ k) \<le> unat w" by (simp add: push_bit_eq_mult)
  then have "push_bit k (unat w div 2 ^ k) < 2 ^ 64" using unat_lt64 [of w] by simp
  ultimately show ?thesis by (simp add: and_not_mask take_bit_nat_eq_self push_bit_eq_mult)
qed

lemma round_up_bounds:
  fixes v a :: nat
  assumes "0 < a"
  shows "v \<le> (v + (a - 1)) div a * a" and "(v + (a - 1)) div a * a < v + a"
    and "(v + (a - 1)) div a * a mod a = 0"
proof -
  have e: "(v + (a - 1)) div a * a + (v + (a - 1)) mod a = v + (a - 1)" by simp
  moreover have "(v + (a - 1)) mod a < a" using assms by simp
  ultimately show "v \<le> (v + (a - 1)) div a * a" "(v + (a - 1)) div a * a < v + a" using assms by linarith+
qed simp

lemma unat_plus64: "unat x + unat y < 2 ^ 64 \<Longrightarrow> unat (x + y :: u64) = unat x + unat y"
  by (subst unat_add_lem [THEN iffD1]) simp_all

text \<open>The test for a power of two the allocators use.\<close>

lemma power_of_two:
  assumes "(w :: u64) AND (w - 1) = 0" and "w \<noteq> 0"
  obtains k where "k < 64" "w = 2 ^ k"
proof -
  have top: "bit v k" if "2 ^ k \<le> unat v" "unat v < 2 ^ (k + 1)" for v :: u64 and k
  proof -
    have "unat v div 2 ^ k = 1" using that by (intro div_nat_eqI) simp_all
    then have "bit (unat v) k" by (simp add: bit_iff_odd)
    then show ?thesis by (simp add: bit_unsigned_iff)
  qed
  obtain k where k: "2 ^ k \<le> unat w" "unat w < 2 ^ (k + 1)"
    using ex_power_ivl1 [of 2 "unat w"] assms(2) by (auto simp: Suc_le_eq unat_gt_0)
  have "(2 :: nat) ^ k < 2 ^ 64" using k(1) unat_lt64 [of w] by simp
  then have k64: "k < 64" by (rule power_less_imp_less_exp [rotated]) simp
  have "unat w = 2 ^ k"
  proof (rule ccontr)
    assume "unat w \<noteq> 2 ^ k"
    moreover have "unat (w - 1) = unat w - 1" using assms(2) by (simp add: unat_minus_one)
    ultimately have "bit (w - 1) k" using k by (intro top) simp_all
    then have "bit (w AND (w - 1)) k" using top [OF k] by (simp add: bit_and_iff)
    then show False using assms(1) by simp
  qed
  then have "of_nat (unat w) = (of_nat (2 ^ k) :: u64)" by (rule arg_cong)
  then have "w = 2 ^ k" by simp
  then show ?thesis using that k64 by blast
qed

text \<open>What a read sees after a fill.\<close>

lemma load_bytes_fill_same: "n \<le> 2 ^ 64 \<Longrightarrow> load_bytes (fill m d c n) d n = replicate n c"
  by (auto simp: load_bytes_def fill_def intro!: nth_equalityI)

lemma load_bytes_fill_other:
  assumes "n \<le> unat (a - d)" and "unat (a - d) + k \<le> 2 ^ 64"
  shows "load_bytes (fill m d c n) a k = load_bytes m a k"
  unfolding load_bytes_def
proof (rule map_cong [OF refl])
  fix i assume "i \<in> set [0..<k]"
  then have i: "i < k" by simp
  have eq: "a + of_nat i - d = (a - d) + of_nat i" by simp
  have "unat (a + of_nat i - d) = unat (a - d) + i"
    unfolding eq by (rule unat_add64) (use i assms(2) in simp)
  then show "fill m d c n (a + of_nat i) = m (a + of_nat i)"
    using assms(1) by (simp add: fill_def)
qed

end
