(* ===== verification/Libc_Malloc.thy ===== *)
theory Libc_Malloc
  imports Linked Rounding Libc_Strings
begin

text \<open>
  Dynamic memory of the C library, \<^verbatim>\<open>src/src/libc/src/malloc.c\<close>: a doubly linked list of
  blocks, each a 64-byte header followed by its payload, carved out of memory mappings.

  Headers are a store from addresses to records, payload bytes live in the memory of the other
  C library theories; the invariant keeps the two apart. \<open>mapped\<close> are the mappings the process
  has; \<open>free\<close> and \<open>realloc\<close>, which take a header's address from the caller, fault when it
  lies outside them. What \<^verbatim>\<open>mmap\<close> returns for a length is the argument \<open>mm\<close>, \<open>None\<close> being
  \<^verbatim>\<open>MAP_FAILED\<close>. \<open>None\<close> as a result is the end of the program by \<^verbatim>\<open>abort\<close> or by such a fault, or for
  the search of a free block a list that has no end.
\<close>

unbundle bit_operations_syntax

section \<open>Blocks\<close>

record block_header =
  bsize :: u64
  prev :: addr
  nxt :: addr
  map_base :: addr
  map_size :: u64
  magic :: u64
  free :: bool
  large :: bool

record heap =
  hdr :: "addr \<Rightarrow> block_header"
  heap_head :: addr
  hmem :: mem
  mapped :: "(addr \<times> u64) list"

definition PAGE_SIZE :: u64 where "PAGE_SIZE = 4096"
definition ARENA_SIZE :: u64 where "ARENA_SIZE = 64 * 1024"
definition LARGE_LIMIT :: u64 where "LARGE_LIMIT = 32 * 1024"
definition ALIGNMENT :: u64 where "ALIGNMENT = 16"
definition MAGIC_ALLOC :: u64 where "MAGIC_ALLOC = 0x6d616c6c6f63424c"
definition MAGIC_FREE :: u64 where "MAGIC_FREE = 0x66726565424c4b21"

lemmas malloc_consts =
  PAGE_SIZE_def ARENA_SIZE_def LARGE_LIMIT_def ALIGNMENT_def MAGIC_ALLOC_def MAGIC_FREE_def

abbreviation header_bytes :: u64 where "header_bytes \<equiv> 64"

definition align_up :: "u64 \<Rightarrow> u64 \<Rightarrow> u64" where
  "align_up v a = (v + a - 1) AND NOT (a - 1)"

definition checked_add :: "u64 \<Rightarrow> u64 \<Rightarrow> u64 option" where
  "checked_add a b = (if a > SIZE_MAX - b then None else Some (a + b))"

definition payload_to_block :: "addr \<Rightarrow> addr" where
  "payload_to_block p = p - header_bytes"

definition block_to_payload :: "addr \<Rightarrow> addr" where
  "block_to_payload b = b + header_bytes"

abbreviation upd :: "addr \<Rightarrow> (block_header \<Rightarrow> block_header) \<Rightarrow> heap \<Rightarrow> heap" where
  "upd b f h \<equiv> h\<lparr>hdr := (hdr h)(b := f (hdr h b))\<rparr>"

definition link_block :: "addr \<Rightarrow> heap \<Rightarrow> heap" where
  "link_block b h0 =
     (let h1 = upd b (\<lambda>x. x\<lparr>prev := 0, nxt := heap_head h0\<rparr>) h0;
          h2 = (if heap_head h1 \<noteq> 0 then upd (heap_head h1) (\<lambda>x. x\<lparr>prev := b\<rparr>) h1 else h1)
      in h2\<lparr>heap_head := b\<rparr>)"

definition unlink_block :: "addr \<Rightarrow> heap \<Rightarrow> heap" where
  "unlink_block b h0 =
     (let h1 = (if prev (hdr h0 b) \<noteq> 0 then upd (prev (hdr h0 b)) (\<lambda>x. x\<lparr>nxt := nxt (hdr h0 b)\<rparr>) h0
                else h0\<lparr>heap_head := nxt (hdr h0 b)\<rparr>)
      in if nxt (hdr h1 b) \<noteq> 0 then upd (nxt (hdr h1 b)) (\<lambda>x. x\<lparr>prev := prev (hdr h1 b)\<rparr>) h1 else h1)"

text \<open>The address of the new block, 0 when there is none.\<close>

definition new_mapping :: "(u64 \<Rightarrow> addr option) \<Rightarrow> u64 \<Rightarrow> bool \<Rightarrow> heap \<Rightarrow> addr \<times> heap" where
  "new_mapping mm payload lrg h =
     (case checked_add header_bytes payload of None \<Rightarrow> (0, h)
      | Some need \<Rightarrow>
          let mapping0 = align_up need PAGE_SIZE;
              mapping = (if \<not> lrg \<and> mapping0 < ARENA_SIZE then ARENA_SIZE else mapping0)
          in case mm mapping of None \<Rightarrow> (0, h)
             | Some b \<Rightarrow>
                 (b, link_block b
                   (upd b (\<lambda>x. x\<lparr>bsize := mapping - header_bytes, map_base := b, map_size := mapping,
                                magic := MAGIC_FREE, free := True, large := lrg\<rparr>)
                     (h\<lparr>mapped := (b, mapping) # mapped h\<rparr>))))"

definition split_block :: "addr \<Rightarrow> u64 \<Rightarrow> heap \<Rightarrow> heap" where
  "split_block b sz h0 =
     (let remain = bsize (hdr h0 b) - sz in
      if remain < header_bytes + ALIGNMENT then h0
      else
        let t = block_to_payload b + sz;
            h1 = upd t (\<lambda>x. x\<lparr>bsize := remain - header_bytes, prev := b, nxt := nxt (hdr h0 b), map_base := 0,
                              map_size := 0, magic := MAGIC_FREE, free := True, large := False\<rparr>) h0;
            h2 = (if nxt (hdr h1 t) \<noteq> 0 then upd (nxt (hdr h1 t)) (\<lambda>x. x\<lparr>prev := t\<rparr>) h1 else h1)
        in upd b (\<lambda>x. x\<lparr>nxt := t, bsize := sz\<rparr>) h2)"

partial_function (option) find_free_from :: "u64 \<Rightarrow> addr \<Rightarrow> heap \<Rightarrow> addr option" where
  "find_free_from sz b h =
     (if b = 0 then Some 0
      else if free (hdr h b) \<and> \<not> large (hdr h b) \<and> bsize (hdr h b) \<ge> sz then Some b
      else find_free_from sz (nxt (hdr h b)) h)"

definition find_free :: "u64 \<Rightarrow> heap \<Rightarrow> addr option" where
  "find_free sz h = find_free_from sz (heap_head h) h"

definition merge_next :: "addr \<Rightarrow> heap \<Rightarrow> heap" where
  "merge_next b h0 =
     (let n = nxt (hdr h0 b) in
      if n = 0 \<or> \<not> free (hdr h0 n) \<or> large (hdr h0 n) then h0
      else if block_to_payload b + bsize (hdr h0 b) \<noteq> n then h0
      else
        let h1 = upd b (\<lambda>x. x\<lparr>bsize := bsize x + (header_bytes + bsize (hdr h0 n)), nxt := nxt (hdr h0 n)\<rparr>) h0
        in if nxt (hdr h1 b) \<noteq> 0 then upd (nxt (hdr h1 b)) (\<lambda>x. x\<lparr>prev := b\<rparr>) h1 else h1)"

section \<open>The public functions\<close>

definition mark_alloc :: "addr \<Rightarrow> heap \<Rightarrow> heap" where
  "mark_alloc b = upd b (\<lambda>x. x\<lparr>free := False, magic := MAGIC_ALLOC\<rparr>)"

definition malloc :: "(u64 \<Rightarrow> addr option) \<Rightarrow> u64 \<Rightarrow> heap \<Rightarrow> (addr \<times> heap) option" where
  "malloc mm size0 h0 =
     (if size0 = 0 then Some (0, h0)
      else if size0 > SIZE_MAX - ALIGNMENT + 1 then Some (0, h0)
      else
        let sz = align_up size0 ALIGNMENT; lrg = (sz \<ge> LARGE_LIMIT)
        in Option.bind (if lrg then Some 0 else find_free sz h0) (\<lambda>b0.
             case (if b0 = 0 then new_mapping mm sz lrg h0 else (b0, h0)) of (b, h) \<Rightarrow>
               if b = 0 then Some (0, h)
               else Some (block_to_payload b, mark_alloc b (if \<not> lrg then split_block b sz h else h))))"

definition munmap :: "addr \<Rightarrow> u64 \<Rightarrow> heap \<Rightarrow> heap" where
  "munmap a len h = h\<lparr>mapped := removeAll (a, len) (mapped h)\<rparr>"

text \<open>Every byte of the header at \<open>b\<close> is mapped; reading it faults otherwise.\<close>

definition header_mapped :: "heap \<Rightarrow> addr \<Rightarrow> bool" where
  "header_mapped h b \<longleftrightarrow>
     list_all (\<lambda>i. list_ex (\<lambda>m. unat (fst m) \<le> i \<and> i < unat (fst m) + unat (snd m)) (mapped h)) [unat b..<unat b + 64]"

definition free_ptr :: "addr \<Rightarrow> heap \<Rightarrow> heap option" where
  "free_ptr p h0 =
     (if p = 0 then Some h0
      else
        let b = payload_to_block p in
        if \<not> header_mapped h0 b then None
        else if magic (hdr h0 b) \<noteq> MAGIC_ALLOC \<or> free (hdr h0 b) then None
        else
          let h1 = upd b (\<lambda>x. x\<lparr>free := True, magic := MAGIC_FREE\<rparr>) h0 in
          if large (hdr h1 b)
          then Some (munmap (map_base (hdr h1 b)) (map_size (hdr h1 b)) (unlink_block b h1))
          else
            let h2 = merge_next b h1; q = prev (hdr h2 b)
            in Some (if q \<noteq> 0 \<and> free (hdr h2 q) \<and> \<not> large (hdr h2 q) then merge_next q h2 else h2))"

definition calloc :: "cpu \<Rightarrow> (u64 \<Rightarrow> addr option) \<Rightarrow> u64 \<Rightarrow> u64 \<Rightarrow> heap \<Rightarrow> (addr \<times> heap) option" where
  "calloc c mm nmemb sz h =
     (if nmemb = 0 \<or> sz = 0 then Some (0, h)
      else if sz > SIZE_MAX div nmemb then Some (0, h)
      else
        let total = nmemb * sz in
        Option.bind (malloc mm total h) (\<lambda>(p, h').
          Some (p, if p \<noteq> 0 then h'\<lparr>hmem := fst (memset c (hmem h') p 0 total)\<rparr> else h')))"

text \<open>
  \<open>grow_in_place\<close> is the attempt to take the next block over.
\<close>

definition grow_in_place :: "addr \<Rightarrow> u64 \<Rightarrow> heap \<Rightarrow> bool" where
  "grow_in_place b wanted h \<longleftrightarrow>
     (let n = nxt (hdr h b) in
      \<not> large (hdr h b) \<and> n \<noteq> 0 \<and> free (hdr h n) \<and> \<not> large (hdr h n) \<and>
      block_to_payload b + bsize (hdr h b) = n \<and>
      bsize (hdr h b) + header_bytes + bsize (hdr h n) \<ge> wanted)"

definition realloc ::
  "cpu \<Rightarrow> (u64 \<Rightarrow> addr option) \<Rightarrow> addr \<Rightarrow> u64 \<Rightarrow> heap \<Rightarrow> (addr \<times> heap) option" where
  "realloc c mm p size0 h =
     (if p = 0 then malloc mm size0 h
      else if size0 = 0 then map_option (\<lambda>h'. (0, h')) (free_ptr p h)
      else
        let b = payload_to_block p in
        if \<not> header_mapped h b then None
        else if magic (hdr h b) \<noteq> MAGIC_ALLOC \<or> free (hdr h b) then None
        else
          let wanted = align_up size0 ALIGNMENT in
          if bsize (hdr h b) \<ge> wanted then Some (p, if \<not> large (hdr h b) then split_block b wanted h else h)
          else if grow_in_place b wanted h
          then Some (p, mark_alloc b (split_block b wanted (merge_next b h)))
          else
            Option.bind (malloc mm size0 h) (\<lambda>(np, h1).
              if np = 0 then Some (0, h1)
              else
                let n = (if bsize (hdr h1 b) < size0 then bsize (hdr h1 b) else size0);
                    h2 = h1\<lparr>hmem := fst (memcpy c (hmem h1) np p n)\<rparr>
                in map_option (\<lambda>h3. (np, h3)) (free_ptr p h2)))"

definition aligned_alloc :: "(u64 \<Rightarrow> addr option) \<Rightarrow> u64 \<Rightarrow> u64 \<Rightarrow> heap \<Rightarrow> (addr \<times> heap) option" where
  "aligned_alloc mm alignment sz h =
     (if alignment < ALIGNMENT \<or> alignment AND (alignment - 1) \<noteq> 0 then Some (0, h)
      else if sz = 0 then Some (0, h)
      else if sz > SIZE_MAX - alignment - header_bytes then Some (0, h)
      else if alignment \<le> ALIGNMENT then malloc mm sz h
      else
        (case Option.bind (checked_add header_bytes sz) (\<lambda>t. checked_add t alignment) of
           None \<Rightarrow> Some (0, h)
         | Some tot \<Rightarrow>
             let mapping = align_up tot PAGE_SIZE in
             (case mm mapping of None \<Rightarrow> Some (0, h)
              | Some a \<Rightarrow>
                  let payload = (a + header_bytes + alignment - 1) AND NOT (alignment - 1);
                      b = payload - header_bytes
                  in Some (payload, link_block b
                       (upd b (\<lambda>x. x\<lparr>bsize := sz, map_base := a, map_size := mapping, magic := MAGIC_ALLOC,
                                    free := False, large := True\<rparr>)
                         (h\<lparr>mapped := (a, mapping) # mapped h\<rparr>))))))"

text \<open>
  Users of the allocator: \<^verbatim>\<open>strdup\<close> of \<^verbatim>\<open>string.c\<close> and the C++ operators of
  \<^verbatim>\<open>libcppabi/src/new.cpp\<close>.
\<close>

definition strdup :: "cpu \<Rightarrow> (u64 \<Rightarrow> addr option) \<Rightarrow> addr \<Rightarrow> heap \<Rightarrow> (addr \<times> heap) option" where
  "strdup c mm s h =
     Option.bind (strlen c (hmem h) s) (\<lambda>l. let len = l + 1 in
       Option.bind (malloc mm len h) (\<lambda>(copy, h').
         if copy = 0 then Some (0, h')
         else Some (copy, h'\<lparr>hmem := fst (memcpy c (hmem h') copy s len)\<rparr>)))"

definition operator_new :: "(u64 \<Rightarrow> addr option) \<Rightarrow> u64 \<Rightarrow> heap \<Rightarrow> (addr \<times> heap) option" where
  "operator_new mm sz h =
     Option.bind (malloc mm (if sz \<noteq> 0 then sz else 1) h) (\<lambda>(p, h'). if p = 0 then None else Some (p, h'))"

definition operator_delete :: "addr \<Rightarrow> heap \<Rightarrow> heap option" where
  "operator_delete p h = free_ptr p h"

section \<open>Rounding\<close>

text \<open>Rounding up to a power of two, when the sum does not wrap.\<close>

lemma unat_align_up:
  assumes "k < 64" and "unat v + (2 ^ k - 1) < 2 ^ 64"
  shows "unat (align_up v (2 ^ k)) = (unat v + (2 ^ k - 1)) div 2 ^ k * 2 ^ k"
proof -
  have lt: "(2 :: nat) ^ k - 1 < 2 ^ 64" using assms(2) by linarith
  have "(2 ^ k - 1 :: u64) = of_nat (2 ^ k - 1)" by (simp add: of_nat_diff)
  then have "unat (2 ^ k - 1 :: u64) = 2 ^ k - 1"
    using lt by (simp add: unat_of_nat take_bit_nat_eq_self del: of_nat_diff)
  then have "unat (v + (2 ^ k - 1)) = unat v + (2 ^ k - 1)"
    using assms(2) by (subst unat_add_lem [THEN iffD1]) simp_all
  then show ?thesis using unat_round [OF assms(1), of "v + (2 ^ k - 1)"] by (simp add: align_up_def add_diff_eq)
qed

section \<open>Doubly linked segments\<close>

text \<open>
  \<open>dseg H q p xs q' p'\<close>: from \<open>p\<close>, whose predecessor is \<open>q\<close>, the links lead through \<open>xs\<close> to
  \<open>p'\<close>, whose predecessor is \<open>q'\<close>.
\<close>

primrec dseg :: "(addr \<Rightarrow> block_header) \<Rightarrow> addr \<Rightarrow> addr \<Rightarrow> addr list \<Rightarrow> addr \<Rightarrow> addr \<Rightarrow> bool" where
  "dseg H q p [] q' p' \<longleftrightarrow> p = p' \<and> q = q'"
| "dseg H q p (x # xs) q' p' \<longleftrightarrow> p = x \<and> x \<noteq> 0 \<and> prev (H x) = q \<and> dseg H x (nxt (H x)) xs q' p'"

text \<open>A null-terminated list.\<close>

primrec dl :: "(addr \<Rightarrow> block_header) \<Rightarrow> addr \<Rightarrow> addr \<Rightarrow> addr list \<Rightarrow> bool" where
  "dl H q p [] \<longleftrightarrow> p = 0"
| "dl H q p (x # xs) \<longleftrightarrow> p = x \<and> x \<noteq> 0 \<and> prev (H x) = q \<and> dl H x (nxt (H x)) xs"

lemma dseg_append:
  "dseg H q p (xs @ ys) q' p' \<longleftrightarrow> (\<exists>r s. dseg H q p xs r s \<and> dseg H r s ys q' p')"
  by (induction xs arbitrary: q p) auto

lemma dl_append: "dl H q p (xs @ ys) \<longleftrightarrow> (\<exists>r s. dseg H q p xs r s \<and> dl H r s ys)"
  by (induction xs arbitrary: q p) auto

lemma dseg_cong:
  "(\<And>x. x \<in> set xs \<Longrightarrow> prev (H x) = prev (G x) \<and> nxt (H x) = nxt (G x)) \<Longrightarrow>
   dseg H q p xs q' p' = dseg G q p xs q' p'"
  by (induction xs arbitrary: q p) auto

lemma dl_cong:
  "(\<And>x. x \<in> set xs \<Longrightarrow> prev (H x) = prev (G x) \<and> nxt (H x) = nxt (G x)) \<Longrightarrow> dl H q p xs = dl G q p xs"
  by (induction xs arbitrary: q p) auto

lemma dseg_upd [simp]: "x \<notin> set xs \<Longrightarrow> dseg (H(x := y)) q p xs q' p' = dseg H q p xs q' p'"
  by (rule dseg_cong) auto

lemma dl_upd [simp]: "x \<notin> set xs \<Longrightarrow> dl (H(x := y)) q p xs = dl H q p xs"
  by (rule dl_cong) auto

lemma dl_nonzero: "dl H q p xs \<Longrightarrow> 0 \<notin> set xs"
  by (induction xs arbitrary: q p) auto

lemma dl_null: "dl H q p xs \<Longrightarrow> (p = 0) = (xs = [])"
  by (cases xs) auto

lemma dl_head: "dl H q p xs \<Longrightarrow> p \<noteq> 0 \<Longrightarrow> xs = p # tl xs"
  by (cases xs) auto

text \<open>Setting the back link of a tail.\<close>

definition set_prev :: "addr \<Rightarrow> addr \<Rightarrow> (addr \<Rightarrow> block_header) \<Rightarrow> addr \<Rightarrow> block_header" where
  "set_prev p r H = (if p \<noteq> 0 then H(p := (H p)\<lparr>prev := r\<rparr>) else H)"

lemma dl_set_prev: "dl H q p xs \<Longrightarrow> distinct xs \<Longrightarrow> dl (set_prev p r H) r p xs"
  by (cases xs) (auto simp: set_prev_def)

lemma dseg_set_prev [simp]: "p \<notin> set xs \<Longrightarrow> dseg (set_prev p r H) q a xs q' a' = dseg H q a xs q' a'"
  by (simp add: set_prev_def)

lemma dseg_set_next:
  assumes "dseg H q p (xs @ [x]) q' p'" and "distinct (xs @ [x])"
  shows "dseg (H(x := (H x)\<lparr>nxt := r\<rparr>)) q p (xs @ [x]) x r"
  using assms by (auto simp: dseg_append)

section \<open>Layout\<close>

definition ext :: "block_header \<Rightarrow> addr \<Rightarrow> nat set" where
  "ext x b = {unat b..<unat b + 64 + unat (bsize x)}"

text \<open>Everything of a header but its links.\<close>

definition core :: "block_header \<Rightarrow> u64 \<times> bool \<times> bool \<times> u64 \<times> addr \<times> u64" where
  "core x = (bsize x, large x, free x, magic x, map_base x, map_size x)"

lemma core_links [simp]:
  "core (x\<lparr>prev := p\<rparr>) = core x" "core (x\<lparr>nxt := p\<rparr>) = core x" "core (set_prev p r H c) = core (H c)"
  by (simp_all add: core_def set_prev_def)

definition reg :: "addr \<times> u64 \<Rightarrow> nat set" where
  "reg m = {unat (fst m)..<unat (fst m) + unat (snd m)}"

definition block_ok :: "block_header \<Rightarrow> addr \<Rightarrow> bool" where
  "block_ok x b \<longleftrightarrow> unat b mod 16 = 0 \<and> 0 < unat (bsize x) \<and> unat b + 64 + unat (bsize x) \<le> 2 ^ 64 \<and>
     (\<not> large x \<longrightarrow> unat (bsize x) mod 16 = 0) \<and> (large x \<longrightarrow> \<not> free x) \<and>
     magic x = (if free x then MAGIC_FREE else MAGIC_ALLOC)"

text \<open>
  A block with a mapping of its own lies inside it and shares it with no other block.
\<close>

definition own_map :: "(addr \<Rightarrow> block_header) \<Rightarrow> addr set \<Rightarrow> (addr \<times> u64) set \<Rightarrow> addr \<Rightarrow> bool" where
  "own_map H S R b \<longleftrightarrow> (let m = (map_base (H b), map_size (H b)) in
     m \<in> R \<and> ext (H b) b \<subseteq> reg m \<and> (\<forall>c \<in> S. c \<noteq> b \<longrightarrow> ext (H c) c \<inter> reg m = {}))"

definition layout :: "(addr \<Rightarrow> block_header) \<Rightarrow> addr set \<Rightarrow> (addr \<times> u64) set \<Rightarrow> bool" where
  "layout H S R \<longleftrightarrow>
     (\<forall>b \<in> S. block_ok (H b) b \<and> ext (H b) b \<subseteq> \<Union> (reg ` R) \<and> (large (H b) \<longrightarrow> own_map H S R b)) \<and>
     (\<forall>b \<in> S. \<forall>c \<in> S. b \<noteq> c \<longrightarrow> ext (H b) b \<inter> ext (H c) c = {})"

definition heap_inv :: "heap \<Rightarrow> addr list \<Rightarrow> bool" where
  "heap_inv h bs \<longleftrightarrow> dl (hdr h) 0 (heap_head h) bs \<and> distinct bs \<and> layout (hdr h) (set bs) (set (mapped h))"

lemma ext_self: "unat b \<in> ext x b"
  by (simp add: ext_def)

lemma same_ext: "bsize x = bsize y \<Longrightarrow> ext x b = ext y b"
  by (simp add: ext_def)

text \<open>
  Redistribution: replacing some blocks that have no mapping of their own by others inside
  the same memory, everything else keeping its extent and mapping.
\<close>

lemma layout_replace:
  assumes lay: "layout H S R" and sub: "A \<subseteq> S" and small: "\<And>a. a \<in> A \<Longrightarrow> \<not> large (H a)"
    and S': "S' = (S - A) \<union> A'" and fresh: "A' \<inter> (S - A) = {}"
    and same: "\<And>c. c \<in> S - A \<Longrightarrow> core (G c) = core (H c)"
    and new: "\<And>a. a \<in> A' \<Longrightarrow> block_ok (G a) a \<and> \<not> large (G a)"
    and ins: "\<And>a i. a \<in> A' \<Longrightarrow> i \<in> ext (G a) a \<Longrightarrow> \<exists>x \<in> A. i \<in> ext (H x) x"
    and apart: "\<And>a b. a \<in> A' \<Longrightarrow> b \<in> A' \<Longrightarrow> a \<noteq> b \<Longrightarrow> ext (G a) a \<inter> ext (G b) b = {}"
  shows "layout G S' R"
proof -
  have old: "ext (G c) c = ext (H c) c" if "c \<in> S - A" for c using same [OF that] by (simp add: ext_def core_def)
  have ok: "block_ok (H c) c" "ext (H c) c \<subseteq> \<Union> (reg ` R)" "large (H c) \<Longrightarrow> own_map H S R c" if "c \<in> S" for c
    using lay that by (auto simp: layout_def)
  have dis: "ext (H b) b \<inter> ext (H c) c = {}" if "b \<in> S" "c \<in> S" "b \<noteq> c" for b c
    using lay that by (auto simp: layout_def)
  have cross: "ext (G a) a \<inter> ext (G c) c = {}" if a: "a \<in> A'" and c: "c \<in> S - A" for a c
  proof (rule equals0I)
    fix i assume i: "i \<in> ext (G a) a \<inter> ext (G c) c"
    then obtain x where x: "x \<in> A" "i \<in> ext (H x) x" using ins [OF a, of i] by auto
    then have "x \<in> S" "x \<noteq> c" "c \<in> S" using sub c by auto
    then show False using dis x(2) i old [OF c] by auto
  qed
  have blk: "block_ok (G c) c" if "c \<in> S - A" for c
    using ok(1) [of c] same [OF that] that by (simp add: block_ok_def core_def)
  have cover: "ext (G a) a \<subseteq> \<Union> (reg ` R)" if a: "a \<in> A'" for a
  proof
    fix i assume "i \<in> ext (G a) a"
    then obtain x where x: "x \<in> A" "i \<in> ext (H x) x" using ins [OF a, of i] by auto
    then have "x \<in> S" using sub by auto
    then show "i \<in> \<Union> (reg ` R)" using ok(2) x(2) by (meson subsetD)
  qed
  have own: "own_map G S' R c" if c: "c \<in> S - A" "large (G c)" for c
  proof -
    have o: "own_map H S R c" using ok(3) [of c] same [OF c(1)] c by (simp add: core_def)
    let ?m = "(map_base (H c), map_size (H c))"
    have "ext (G d) d \<inter> reg ?m = {}" if "d \<in> S'" "d \<noteq> c" for d
    proof (cases "d \<in> S - A")
      case True
      then show ?thesis using o that old [OF True] by (auto simp: own_map_def Let_def)
    next
      case False
      then have d: "d \<in> A'" using that S' by blast
      show ?thesis
      proof (rule equals0I)
        fix i assume i: "i \<in> ext (G d) d \<inter> reg ?m"
        then obtain x where x: "x \<in> A" "i \<in> ext (H x) x" using ins [OF d, of i] by auto
        then have "x \<in> S" "x \<noteq> c" using sub c(1) by auto
        then show False using o x(2) i by (auto simp: own_map_def Let_def)
      qed
    qed
    then show ?thesis using o same [OF c(1)] old [OF c(1)] by (simp add: own_map_def Let_def core_def)
  qed
  show ?thesis
    unfolding layout_def
  proof (intro conjI ballI impI)
    fix b assume b: "b \<in> S'"
    have c: "b \<in> S - A" if "b \<notin> A'" using b S' that by blast
    show "block_ok (G b) b" using new blk c by (cases "b \<in> A'") auto
    show "ext (G b) b \<subseteq> \<Union> (reg ` R)"
    proof (cases "b \<in> A'")
      case False
      then show ?thesis using ok(2) [of b] old [OF c] c by simp
    qed (rule cover)
    show "own_map G S' R b" if "large (G b)" using new own [OF c that] that by (cases "b \<in> A'") auto
  next
    fix b c assume b: "b \<in> S'" and c: "c \<in> S'" and ne: "b \<noteq> c"
    consider "b \<in> A'" "c \<in> A'" | "b \<in> A'" "c \<in> S - A" | "b \<in> S - A" "c \<in> A'" | "b \<in> S - A" "c \<in> S - A"
      using b c unfolding S' by (metis UnE)
    then show "ext (G b) b \<inter> ext (G c) c = {}"
    proof cases
      case 1 then show ?thesis using apart [OF _ _ ne] by simp
    next
      case 2 then show ?thesis by (rule cross)
    next
      case 3 then show ?thesis using cross [OF 3(2,1)] by (simp add: Int_commute)
    next
      case 4 then show ?thesis using dis [of b c] old ne by simp
    qed
  qed
qed

lemma layout_new:
  assumes lay: "layout H S R" and b: "b \<notin> S" and far: "\<And>r. r \<in> R \<Longrightarrow> reg r \<inter> reg m = {}"
    and same: "\<And>c. c \<in> S \<Longrightarrow> core (G c) = core (H c)"
    and new: "block_ok (G b) b" "ext (G b) b \<subseteq> reg m" "large (G b) \<Longrightarrow> (map_base (G b), map_size (G b)) = m"
  shows "layout G (insert b S) (insert m R)"
proof -
  have old: "ext (G c) c = ext (H c) c" if "c \<in> S" for c using same [OF that] by (simp add: ext_def core_def)
  have ok: "block_ok (H c) c" "ext (H c) c \<subseteq> \<Union> (reg ` R)" "large (H c) \<Longrightarrow> own_map H S R c" if "c \<in> S" for c
    using lay that by (auto simp: layout_def)
  have off: "ext (H c) c \<inter> reg m = {}" if "c \<in> S" for c
  proof (rule equals0I)
    fix i assume i: "i \<in> ext (H c) c \<inter> reg m"
    then have "i \<in> \<Union> (reg ` R)" using ok(2) [OF that] by auto
    then show False using far i by auto
  qed
  have apart: "ext (G b) b \<inter> ext (G c) c = {}" if "c \<in> S" for c
    using off [OF that] old [OF that] new(2) by auto
  have own: "own_map G (insert b S) (insert m R) c" if "c \<in> S" "large (G c)" for c
  proof -
    have o: "own_map H S R c" using ok(3) [of c] same [OF that(1)] that by (simp add: core_def)
    have f: "(map_base (G c), map_size (G c)) = (map_base (H c), map_size (H c))"
      using same [OF that(1)] by (simp add: core_def)
    have "ext (G b) b \<inter> reg (map_base (H c), map_size (H c)) = {}"
      using o far new(2) by (auto simp: own_map_def Let_def)
    then show ?thesis unfolding own_map_def f using o old that by (auto simp: own_map_def Let_def)
  qed
  have ownb: "own_map G (insert b S) (insert m R) b" if "large (G b)"
    unfolding own_map_def new(3) [OF that] Let_def using new(2) off old by auto
  have blk: "block_ok (G c) c" if "c \<in> S" for c
    using ok(1) [of c] same [OF that] that by (simp add: block_ok_def core_def)
  have dis: "ext (G c) c \<inter> ext (G d) d = {}" if "c \<in> S" "d \<in> S" "c \<noteq> d" for c d
    using lay that old by (simp add: layout_def)
  have cov: "ext (G c) c \<subseteq> \<Union> (reg ` insert m R)" if "c \<in> insert b S" for c
    using that ok(2) [of c] old [of c] new(2) by auto
  show ?thesis
    unfolding layout_def using blk new(1) cov own ownb dis apart by (auto simp: Int_commute)
qed

lemma layout_del:
  assumes lay: "layout H S R" and b: "b \<in> S" "large (H b)" and m: "m = (map_base (H b), map_size (H b))"
    and same: "\<And>c. c \<in> S - {b} \<Longrightarrow> core (G c) = core (H c)"
  shows "layout G (S - {b}) (R - {m})"
proof -
  have old: "ext (G c) c = ext (H c) c" if "c \<in> S - {b}" for c using same [OF that] by (simp add: ext_def core_def)
  have ok: "block_ok (H c) c" "ext (H c) c \<subseteq> \<Union> (reg ` R)" "large (H c) \<Longrightarrow> own_map H S R c" if "c \<in> S" for c
    using lay that by (auto simp: layout_def)
  have off: "ext (H c) c \<inter> reg m = {}" if "c \<in> S - {b}" for c
    using ok(3) [OF b] that m by (auto simp: own_map_def Let_def)
  have own: "own_map G (S - {b}) (R - {m}) c" if "c \<in> S - {b}" "large (G c)" for c
  proof -
    have o: "own_map H S R c" using ok(3) [of c] same [OF that(1)] that by (simp add: core_def)
    have f: "(map_base (G c), map_size (G c)) = (map_base (H c), map_size (H c))"
      using same [OF that(1)] by (simp add: core_def)
    have "(map_base (H c), map_size (H c)) \<noteq> m"
      using off [OF that(1)] o ext_self [of c "H c"] by (auto simp: own_map_def Let_def)
    then show ?thesis unfolding own_map_def f using o old that by (auto simp: own_map_def Let_def)
  qed
  have blk: "block_ok (G c) c" if "c \<in> S - {b}" for c
    using ok(1) [of c] same [OF that] that by (simp add: block_ok_def core_def)
  have dis: "ext (G c) c \<inter> ext (G d) d = {}" if "c \<in> S - {b}" "d \<in> S - {b}" "c \<noteq> d" for c d
    using lay that old by (simp add: layout_def)
  have cov: "ext (G c) c \<subseteq> \<Union> (reg ` (R - {m}))" if "c \<in> S - {b}" for c
  proof
    fix i assume i: "i \<in> ext (G c) c"
    then have "i \<in> \<Union> (reg ` R)" using ok(2) [of c] old [OF that] that by auto
    moreover have "i \<notin> reg m" using off [OF that] i old [OF that] by auto
    ultimately show "i \<in> \<Union> (reg ` (R - {m}))" by auto
  qed
  show ?thesis unfolding layout_def using blk cov own dis by simp
qed

section \<open>List operations\<close>

lemma link_block_hdr:
  "hdr (link_block b h) = set_prev (heap_head h) b ((hdr h)(b := (hdr h b)\<lparr>prev := 0, nxt := heap_head h\<rparr>))"
  "heap_head (link_block b h) = b" "hmem (link_block b h) = hmem h" "mapped (link_block b h) = mapped h"
  by (simp_all add: link_block_def Let_def set_prev_def)

lemma link_block_dl:
  assumes "dl (hdr h) 0 (heap_head h) bs" and "distinct (b # bs)" and "b \<noteq> 0"
  shows "dl (hdr (link_block b h)) 0 b (b # bs)"
proof -
  let ?p = "heap_head h" and ?H = "(hdr h)(b := (hdr h b)\<lparr>prev := 0, nxt := heap_head h\<rparr>)"
  have "?p \<noteq> b" using assms by (cases bs) auto
  moreover have "dl (set_prev ?p b ?H) b ?p bs" using assms by (intro dl_set_prev [of _ 0]) simp_all
  moreover have "set_prev ?p b ?H b = (hdr h b)\<lparr>prev := 0, nxt := ?p\<rparr>"
    using \<open>?p \<noteq> b\<close> by (simp add: set_prev_def)
  ultimately show ?thesis using assms(3) by (simp add: link_block_hdr)
qed

lemma unlink_block_frame:
  "hmem (unlink_block b h) = hmem h" "mapped (unlink_block b h) = mapped h"
  "core (hdr (unlink_block b h) c) = core (hdr h c)"
  by (simp_all add: unlink_block_def Let_def core_def)

lemma unlink_block_dl:
  assumes dl: "dl (hdr h) 0 (heap_head h) (xs @ b # ys)" and dist: "distinct (xs @ b # ys)"
  shows "dl (hdr (unlink_block b h)) 0 (heap_head (unlink_block b h)) (xs @ ys)"
proof -
  obtain r where r: "dseg (hdr h) 0 (heap_head h) xs r b" "prev (hdr h b) = r" "b \<noteq> 0" "dl (hdr h) b (nxt (hdr h b)) ys"
    using dl by (auto simp: dl_append)
  let ?n = "nxt (hdr h b)"
  have n: "?n \<noteq> 0 \<Longrightarrow> ?n \<in> set ys" using dl_head [OF r(4)] by (metis list.set_intros(1))
  show ?thesis
  proof (cases xs rule: rev_cases)
    case Nil
    then have "r = 0" "heap_head h = b" using r(1) by auto
    then have "hdr (unlink_block b h) = set_prev ?n 0 (hdr h)" "heap_head (unlink_block b h) = ?n"
      using r(2) by (simp_all add: unlink_block_def Let_def set_prev_def)
    then show ?thesis using Nil dl_set_prev [OF r(4)] dist by simp
  next
    case (snoc zs z)
    have z: "r = z" "z \<noteq> 0" using r(1) snoc by (auto simp: dseg_append)
    let ?H = "(hdr h)(z := (hdr h z)\<lparr>nxt := ?n\<rparr>)"
    have zb: "z \<noteq> b" "z \<notin> set ys" using dist snoc by auto
    have hd: "hdr (unlink_block b h) = set_prev ?n z ?H" "heap_head (unlink_block b h) = heap_head h"
      using r(2) z zb by (simp_all add: unlink_block_def Let_def set_prev_def)
    have "dseg ?H 0 (heap_head h) (zs @ [z]) z ?n"
      by (rule dseg_set_next) (use r(1) snoc dist in simp_all)
    moreover have nin: "?n \<notin> set (zs @ [z])"
      using n dist snoc r(1) z(2) dl_nonzero [OF dl] by (cases "?n = 0") auto
    moreover have "dl (set_prev ?n z ?H) z ?n ys"
      using r(4) dist zb by (intro dl_set_prev [of _ b]) simp_all
    ultimately show ?thesis unfolding hd snoc dl_append by (metis dseg_set_prev)
  qed
qed

definition merges :: "addr \<Rightarrow> heap \<Rightarrow> bool" where
  "merges b h \<longleftrightarrow> (let n = nxt (hdr h b) in
     n \<noteq> 0 \<and> free (hdr h n) \<and> \<not> large (hdr h n) \<and> block_to_payload b + bsize (hdr h b) = n)"

lemma merge_next_noop: "\<not> merges b h \<Longrightarrow> merge_next b h = h"
  by (auto simp: merges_def merge_next_def Let_def)

lemma merge_next_hdr:
  assumes "merges b h"
  shows "hdr (merge_next b h) = (let n = nxt (hdr h b) in set_prev (nxt (hdr h n)) b
      ((hdr h)(b := (hdr h b)\<lparr>bsize := bsize (hdr h b) + (header_bytes + bsize (hdr h n)), nxt := nxt (hdr h n)\<rparr>)))"
    and "heap_head (merge_next b h) = heap_head h" "hmem (merge_next b h) = hmem h" "mapped (merge_next b h) = mapped h"
  using assms by (auto simp: merges_def merge_next_def Let_def set_prev_def)

lemma merge_next_dl:
  assumes dl: "dl (hdr h) 0 (heap_head h) (xs @ b # n # ys)" and dist: "distinct (xs @ b # n # ys)" and m: "merges b h"
  shows "dl (hdr (merge_next b h)) 0 (heap_head (merge_next b h)) (xs @ b # ys)"
proof -
  obtain r where r: "dseg (hdr h) 0 (heap_head h) xs r b" "prev (hdr h b) = r" "b \<noteq> 0" "nxt (hdr h b) = n" "n \<noteq> 0"
    "dl (hdr h) n (nxt (hdr h n)) ys"
    using dl by (auto simp: dl_append)
  let ?m = "nxt (hdr h n)"
  let ?x = "(hdr h b)\<lparr>bsize := bsize (hdr h b) + (header_bytes + bsize (hdr h n)), nxt := ?m\<rparr>"
  have hd: "hdr (merge_next b h) = set_prev ?m b ((hdr h)(b := ?x))"
    using merge_next_hdr(1) [OF m] r(4) by (simp add: Let_def)
  have mn: "?m \<notin> set xs" "?m \<noteq> b"
    using dl_head [OF r(6)] dl_nonzero [OF dl] dist by (cases "?m = 0"; metis (no_types) Un_iff distinct.simps(2) distinct_append disjoint_iff list.set_intros set_append)+
  have "dl (set_prev ?m b ((hdr h)(b := ?x))) b ?m ys"
    using r(6) dist by (intro dl_set_prev [of _ n]) simp_all
  moreover have "dseg (set_prev ?m b ((hdr h)(b := ?x))) 0 (heap_head h) xs r b"
    using r(1) mn dist by simp
  moreover have "set_prev ?m b ((hdr h)(b := ?x)) b = ?x" using mn by (simp add: set_prev_def)
  ultimately show ?thesis unfolding hd merge_next_hdr(2) [OF m] dl_append using r(2,3) by auto
qed

lemma split_block_noop: "bsize (hdr h b) - sz < 80 \<Longrightarrow> split_block b sz h = h"
  by (simp add: split_block_def ALIGNMENT_def)

lemma split_block_hdr:
  assumes "\<not> bsize (hdr h b) - sz < 80" and t: "t = block_to_payload b + sz" "t \<noteq> b" and n: "nxt (hdr h b) \<noteq> t" "nxt (hdr h b) \<noteq> b"
  shows "hdr (split_block b sz h) =
      (set_prev (nxt (hdr h b)) t ((hdr h)(t := (hdr h t)\<lparr>bsize := bsize (hdr h b) - sz - header_bytes, prev := b,
         nxt := nxt (hdr h b), map_base := 0, map_size := 0, magic := MAGIC_FREE, free := True, large := False\<rparr>)))
      (b := (hdr h b)\<lparr>nxt := t, bsize := sz\<rparr>)"
    and "heap_head (split_block b sz h) = heap_head h" "hmem (split_block b sz h) = hmem h"
    "mapped (split_block b sz h) = mapped h"
  using assms by (auto simp: split_block_def Let_def set_prev_def ALIGNMENT_def)

lemma dl_insert_after:
  assumes dl: "dl H 0 p (xs @ b # ys)" and dist: "distinct (xs @ b # ys)"
    and t: "t \<notin> set (xs @ b # ys)" "t \<noteq> 0" and T: "prev T = b" "nxt T = nxt (H b)"
    and B: "prev B = prev (H b)" "nxt B = t"
  shows "dl ((set_prev (nxt (H b)) t (H(t := T)))(b := B)) 0 p (xs @ b # t # ys)"
proof -
  obtain r where r: "dseg H 0 p xs r b" "prev (H b) = r" "b \<noteq> 0" "dl H b (nxt (H b)) ys"
    using dl by (auto simp: dl_append)
  let ?n = "nxt (H b)"
  have n: "?n \<notin> set xs" "?n \<noteq> b" "?n \<noteq> t"
    using dl_head [OF r(4)] dl_nonzero [OF dl] dist t by (cases ys; cases "?n = 0"; auto)+
  have "dl (set_prev ?n t (H(t := T))) t ?n ys"
    using r(4) dist t by (intro dl_set_prev [of _ b]) simp_all
  then have "dl ((set_prev ?n t (H(t := T)))(b := B)) t ?n ys" using dist by simp
  moreover have "dseg ((set_prev ?n t (H(t := T)))(b := B)) 0 p xs r b" using r(1) n dist t by simp
  moreover have "set_prev ?n t (H(t := T)) t = T" using n by (simp add: set_prev_def)
  ultimately show ?thesis using r(2,3) t T B unfolding dl_append by auto
qed

lemma split_inv:
  assumes inv: "heap_inv h bs" and b: "b \<in> set bs" "\<not> large (hdr h b)"
    and sz: "sz \<le> bsize (hdr h b)" "unat sz mod 16 = 0" "0 < unat sz"
  obtains bs' s' where "heap_inv (split_block b sz h) bs'" "set bs \<subseteq> set bs'"
    "\<And>c. c \<in> set bs' - set bs \<Longrightarrow> free (hdr (split_block b sz h) c)"
    "\<And>c. c \<in> set bs - {b} \<Longrightarrow> core (hdr (split_block b sz h) c) = core (hdr h c)"
    "core (hdr (split_block b sz h) b) = core ((hdr h b)\<lparr>bsize := s'\<rparr>)" "sz \<le> s'" "s' \<le> bsize (hdr h b)"
    "hmem (split_block b sz h) = hmem h" "mapped (split_block b sz h) = mapped h"
proof (cases "bsize (hdr h b) - sz < 80")
  case True
  then show ?thesis using that [of bs "bsize (hdr h b)"] inv sz by (simp add: split_block_noop)
next
  case False
  obtain xs ys where bs: "bs = xs @ b # ys" using b(1) by (meson split_list)
  have dl: "dl (hdr h) 0 (heap_head h) (xs @ b # ys)" and dist: "distinct (xs @ b # ys)"
    and lay: "layout (hdr h) (set bs) (set (mapped h))" using inv bs by (simp_all add: heap_inv_def)
  let ?B = "unat (bsize (hdr h b))"
  have ok: "unat b mod 16 = 0" "unat b + 64 + ?B \<le> 2 ^ 64" "?B mod 16 = 0" "magic (hdr h b) = (if free (hdr h b) then MAGIC_FREE else MAGIC_ALLOC)"
    using lay b by (auto simp: layout_def block_ok_def)
  have rem: "unat (bsize (hdr h b) - sz) = ?B - unat sz" using sz(1) by (simp add: unat_sub word_le_nat_alt)
  have szle: "unat sz + 80 \<le> ?B" using False rem sz(1) by (simp add: word_less_nat_alt word_le_nat_alt not_less)
  define t where "t = block_to_payload b + sz"
  have ut: "unat t = unat b + 64 + unat sz"
  proof -
    have "unat (b + 64) = unat b + 64" using ok(2) szle by (subst unat_add_lem [THEN iffD1]) simp_all
    then show ?thesis using ok(2) szle unfolding t_def block_to_payload_def
      by (subst unat_add_lem [THEN iffD1]) simp_all
  qed
  have tb: "t \<noteq> b" using ut by auto
  have tin: "unat t \<in> ext (hdr h b) b" using ut szle by (simp add: ext_def)
  have tnew: "t \<notin> set bs"
  proof
    assume "t \<in> set bs"
    then have "ext (hdr h t) t \<inter> ext (hdr h b) b = {}" using lay b(1) tb by (auto simp: layout_def)
    then show False using tin ext_self [of t "hdr h t"] by auto
  qed
  have t0: "t \<noteq> 0" using ut by (metis add_is_0 unat_0 zero_neq_numeral)
  have n: "nxt (hdr h b) \<noteq> t" "nxt (hdr h b) \<noteq> b"
  proof -
    have "nxt (hdr h b) = 0 \<or> nxt (hdr h b) \<in> set ys" using dl by (cases ys) (auto simp: dl_append)
    then show "nxt (hdr h b) \<noteq> t" "nxt (hdr h b) \<noteq> b" using tnew t0 dist dl_nonzero [OF dl] bs by auto
  qed
  note hd = split_block_hdr [OF False t_def tb n]
  define G where "G = hdr (split_block b sz h)"
  have Gb: "core (G b) = core ((hdr h b)\<lparr>bsize := sz\<rparr>)" by (simp add: G_def hd(1) core_def)
  have Gt: "bsize (G t) = bsize (hdr h b) - sz - header_bytes" "free (G t)" "\<not> large (G t)" "magic (G t) = MAGIC_FREE"
    using tb n by (simp_all add: G_def hd(1) set_prev_def)
  have Gc: "core (G c) = core (hdr h c)" if "c \<noteq> b" "c \<noteq> t" for c using that by (simp add: G_def hd(1) core_def set_prev_def)
  have st: "unat (bsize (G t)) = ?B - unat sz - 64"
    using Gt(1) rem szle by (simp add: unat_sub word_le_nat_alt)
  have extb: "ext (G b) b = {unat b..<unat t}" using Gb ut by (simp add: ext_def core_def)
  have extt: "ext (G t) t = {unat t..<unat b + 64 + ?B}" using st ut szle by (auto simp: ext_def)
  have "dl G 0 (heap_head h) (xs @ b # t # ys)"
    unfolding G_def hd(1) by (rule dl_insert_after [OF dl dist]) (use tnew t0 bs in simp_all)
  moreover have "layout G (set (xs @ b # t # ys)) (set (mapped h))"
  proof (rule layout_replace [OF lay, where A = "{b}" and A' = "{b, t}"])
    show "set (xs @ b # t # ys) = set bs - {b} \<union> {b, t}" using bs dist by auto
    show "{b, t} \<inter> (set bs - {b}) = {}" using tnew by auto
    show "core (G c) = core (hdr h c)" if "c \<in> set bs - {b}" for c using that tnew by (intro Gc) auto
    have bg: "bsize (G b) = sz" "large (G b) = large (hdr h b)" "free (G b) = free (hdr h b)" "magic (G b) = magic (hdr h b)"
      using Gb by (simp_all add: core_def)
    have "block_ok (G b) b" using ok bg sz(2,3) szle b(2) by (simp add: block_ok_def)
    moreover have "16 dvd unat b + 64 + unat sz" "16 dvd ?B - unat sz - 64"
      using ok(1,3) sz(2) by (intro dvd_add dvd_diff_nat; simp add: mod_eq_0_iff_dvd)+
    then have "unat t mod 16 = 0" "(?B - unat sz - 64) mod 16 = 0" using ut by simp_all
    then have "block_ok (G t) t" using ok(2) ut st szle Gt by (simp add: block_ok_def)
    ultimately show "block_ok (G a) a \<and> \<not> large (G a)" if "a \<in> {b, t}" for a using that b(2) bg Gt(3) by auto
    show "\<exists>x \<in> {b}. i \<in> ext (hdr h x) x" if "a \<in> {b, t}" "i \<in> ext (G a) a" for a i
      using that extb extt ut szle by (auto simp: ext_def)
    show "ext (G a) a \<inter> ext (G c) c = {}" if "a \<in> {b, t}" "c \<in> {b, t}" "a \<noteq> c" for a c
      using that extb extt by auto
  qed (use b in auto)
  ultimately have "heap_inv (split_block b sz h) (xs @ b # t # ys)"
    using dist tnew tb bs hd(2-4) by (auto simp: heap_inv_def G_def)
  moreover have "core (hdr (split_block b sz h) c) = core (hdr h c)" if "c \<in> set bs - {b}" for c
    using Gc [of c] that tnew by (auto simp: G_def)
  moreover have "free (hdr (split_block b sz h) c)" if "c \<in> set (xs @ b # t # ys) - set bs" for c
    using that bs Gt(2) by (auto simp: G_def)
  ultimately show ?thesis
    using that [of "xs @ b # t # ys" sz] bs Gb sz(1) hd(3,4) by (auto simp: G_def)
qed

lemma block_end:
  assumes "block_ok x b" and "block_to_payload b + bsize x = n" and "n \<noteq> 0"
  shows "unat n = unat b + 64 + unat (bsize x)"
proof -
  have le: "unat b + 64 + unat (bsize x) \<le> 2 ^ 64" using assms(1) by (simp add: block_ok_def)
  have "unat b + 64 + unat (bsize x) \<noteq> 2 ^ 64"
  proof
    assume e: "unat b + 64 + unat (bsize x) = 2 ^ 64"
    have "n = of_nat (unat b + 64 + unat (bsize x))"
      using assms(2) by (simp add: block_to_payload_def)
    then have "n = of_nat (2 ^ 64)" unfolding e .
    then show False using assms(3) by simp
  qed
  then have lt: "unat b + 64 + unat (bsize x) < 2 ^ 64" using le by linarith
  then have "unat (b + 64) = unat b + 64" using unat_plus64 [of b 64] by simp
  then show ?thesis using lt assms(2) unat_plus64 [of "b + 64" "bsize x"] by (simp add: block_to_payload_def)
qed

lemma merge_inv:
  assumes inv: "heap_inv h bs" and b: "b \<in> set bs" "\<not> large (hdr h b)"
  obtains bs' s' where "heap_inv (merge_next b h) bs'" "set bs' \<subseteq> set bs" "b \<in> set bs'"
    "\<And>c. c \<in> set bs - set bs' \<Longrightarrow> free (hdr h c)"
    "\<And>c. c \<noteq> b \<Longrightarrow> core (hdr (merge_next b h) c) = core (hdr h c)"
    "core (hdr (merge_next b h) b) = core ((hdr h b)\<lparr>bsize := s'\<rparr>)" "bsize (hdr h b) \<le> s'"
    "merges b h \<Longrightarrow> s' = bsize (hdr h b) + header_bytes + bsize (hdr h (nxt (hdr h b)))"
    "hmem (merge_next b h) = hmem h" "mapped (merge_next b h) = mapped h"
proof (cases "merges b h")
  case False
  then show ?thesis using that [of bs "bsize (hdr h b)"] inv b by (simp add: merge_next_noop)
next
  case True
  obtain xs zs where bs0: "bs = xs @ b # zs" using b(1) by (meson split_list)
  define n where "n = nxt (hdr h b)"
  have n: "n \<noteq> 0" "free (hdr h n)" "\<not> large (hdr h n)" "block_to_payload b + bsize (hdr h b) = n"
    using True by (simp_all add: merges_def n_def Let_def)
  obtain ys where bs: "bs = xs @ b # n # ys"
    using inv bs0 n(1) by (cases zs) (auto simp: heap_inv_def dl_append n_def)
  have dl: "dl (hdr h) 0 (heap_head h) (xs @ b # n # ys)" and dist: "distinct (xs @ b # n # ys)"
    and lay: "layout (hdr h) (set bs) (set (mapped h))" using inv bs by (simp_all add: heap_inv_def)
  have okb: "block_ok (hdr h b) b" and okn: "block_ok (hdr h n) n" using lay bs by (auto simp: layout_def)
  note un = block_end [OF okb n(4,1)]
  let ?s = "bsize (hdr h b) + (header_bytes + bsize (hdr h n))"
  have us: "unat ?s = unat (bsize (hdr h b)) + 64 + unat (bsize (hdr h n))"
  proof -
    have le: "unat n + 64 + unat (bsize (hdr h n)) \<le> 2 ^ 64" using okn by (simp add: block_ok_def)
    then have "unat (64 + bsize (hdr h n)) = 64 + unat (bsize (hdr h n))"
      using un unat_plus64 [of 64 "bsize (hdr h n)"] by simp
    then show ?thesis using le un unat_plus64 [of "bsize (hdr h b)" "64 + bsize (hdr h n)"] by simp
  qed
  define G where "G = hdr (merge_next b h)"
  have Gb: "core (G b) = core ((hdr h b)\<lparr>bsize := ?s\<rparr>)"
    unfolding G_def merge_next_hdr(1) [OF True] n_def [symmetric] by (simp add: Let_def core_def set_prev_def)
  have Gc: "core (G c) = core (hdr h c)" if "c \<noteq> b" for c
    using that unfolding G_def merge_next_hdr(1) [OF True] n_def [symmetric] by (simp add: Let_def core_def set_prev_def)
  have bg: "bsize (G b) = ?s" "large (G b) = large (hdr h b)" "free (G b) = free (hdr h b)" "magic (G b) = magic (hdr h b)"
    using Gb by (simp_all add: core_def)
  have extb: "ext (G b) b = ext (hdr h b) b \<union> ext (hdr h n) n"
    using bg(1) us un by (auto simp: ext_def)
  have "layout G (set (xs @ b # ys)) (set (mapped h))"
  proof (rule layout_replace [OF lay, where A = "{b, n}" and A' = "{b}"])
    show "set (xs @ b # ys) = set bs - {b, n} \<union> {b}" using bs dist by auto
    have "unat ?s mod 16 = 0"
    proof -
      have "16 dvd unat (bsize (hdr h b)) + 64 + unat (bsize (hdr h n))"
        using okb okn b(2) n(3) by (intro dvd_add) (auto simp: block_ok_def mod_eq_0_iff_dvd)
      then show ?thesis using us by simp
    qed
    moreover have "unat b + 64 + unat ?s \<le> 2 ^ 64" "0 < unat ?s" using okn us un by (simp_all add: block_ok_def)
    ultimately show "block_ok (G a) a \<and> \<not> large (G a)" if "a \<in> {b}" for a
      using that okb bg b(2) by (auto simp: block_ok_def)
    show "\<exists>x \<in> {b, n}. i \<in> ext (hdr h x) x" if "a \<in> {b}" "i \<in> ext (G a) a" for a i
      using that extb by auto
  qed (use b n bs Gc in auto)
  then have inv': "heap_inv (merge_next b h) (xs @ b # ys)"
    using merge_next_dl [OF dl dist True] dist merge_next_hdr(4) [OF True] by (simp add: heap_inv_def G_def)
  have le: "bsize (hdr h b) \<le> ?s" using us by (simp add: word_le_nat_alt)
  show ?thesis
  proof (rule that [OF inv'])
    show "core (hdr (merge_next b h) b) = core ((hdr h b)\<lparr>bsize := ?s\<rparr>)" using Gb by (simp add: G_def)
    show "free (hdr h c)" if "c \<in> set bs - set (xs @ b # ys)" for c using that bs n(2) by auto
  qed (use bs Gc le merge_next_hdr(3,4) [OF True] in \<open>auto simp: G_def n_def ac_simps\<close>)
qed

section \<open>Allocations\<close>

text \<open>The payload addresses in use with their capacities: the abstract state of the allocator.\<close>

definition allocs :: "heap \<Rightarrow> addr list \<Rightarrow> addr \<Rightarrow> nat option" where
  "allocs h bs p = (let b = payload_to_block p in
     if b \<in> set bs \<and> \<not> free (hdr h b) then Some (unat (bsize (hdr h b))) else None)"

lemma payload_inverse [simp]:
  "payload_to_block (block_to_payload b) = b" "block_to_payload (payload_to_block p) = p"
  by (simp_all add: payload_to_block_def block_to_payload_def)

definition in_use :: "heap \<Rightarrow> addr list \<Rightarrow> addr \<Rightarrow> bool" where
  "in_use h bs c \<longleftrightarrow> c \<in> set bs \<and> \<not> free (hdr h c)"

lemma allocs_eqI:
  assumes "\<And>c. c \<noteq> b \<Longrightarrow> in_use h' bs' c = in_use h bs c"
    and "\<And>c. c \<noteq> b \<Longrightarrow> in_use h bs c \<Longrightarrow> bsize (hdr h' c) = bsize (hdr h c)"
  shows "allocs h' bs' = (allocs h bs)(block_to_payload b := allocs h' bs' (block_to_payload b))"
proof
  fix p
  show "allocs h' bs' p = ((allocs h bs)(block_to_payload b := allocs h' bs' (block_to_payload b))) p"
  proof (cases "payload_to_block p = b")
    case True
    then have "p = block_to_payload b" by (metis payload_inverse(2))
    then show ?thesis by simp
  next
    case False
    then have "p \<noteq> block_to_payload b" by auto
    then show ?thesis using assms [OF False] by (auto simp: allocs_def Let_def in_use_def)
  qed
qed

lemma allocs_at: "allocs h bs (block_to_payload b) = (if in_use h bs b then Some (unat (bsize (hdr h b))) else None)"
  by (simp add: allocs_def in_use_def)

lemma header_mapped_iff: "header_mapped h b \<longleftrightarrow> {unat b..<unat b + 64} \<subseteq> \<Union> (reg ` set (mapped h))"
  by (auto simp: header_mapped_def list_all_iff list_ex_iff reg_def subset_eq)

lemma allocs_block:
  assumes inv: "heap_inv h bs" and r: "allocs h bs r = Some e"
  shows "payload_to_block r \<in> set bs" "e = unat (bsize (hdr h (payload_to_block r)))"
    "block_ok (hdr h (payload_to_block r)) (payload_to_block r)" "\<not> free (hdr h (payload_to_block r))"
    "unat r + e \<le> 2 ^ 64" "unat r mod 16 = 0" "r \<noteq> 0"
    "{unat r..<unat r + e} \<subseteq> ext (hdr h (payload_to_block r)) (payload_to_block r)"
    "header_mapped h (payload_to_block r)"
proof -
  let ?b = "payload_to_block r"
  have lay: "layout (hdr h) (set bs) (set (mapped h))" using inv by (simp add: heap_inv_def)
  show b: "?b \<in> set bs" and e: "e = unat (bsize (hdr h ?b))" and "\<not> free (hdr h ?b)"
    using r by (auto simp: allocs_def Let_def split: if_splits)
  show ok: "block_ok (hdr h ?b) ?b" using lay b by (auto simp: layout_def)
  have lt: "unat ?b + 64 < 2 ^ 64" using ok unfolding block_ok_def by linarith
  then have u: "unat (?b + 64) = unat ?b + 64" using unat_plus64 [of ?b 64] by simp
  moreover have "r = ?b + 64" by (simp add: payload_to_block_def)
  ultimately have ur: "unat r = unat ?b + 64" by metis
  show "unat r + e \<le> 2 ^ 64" using ok ur e by (simp add: block_ok_def)
  have "16 dvd unat ?b + 64" using ok by (intro dvd_add) (auto simp: block_ok_def mod_eq_0_iff_dvd)
  then show "unat r mod 16 = 0" using ur by simp
  show "r \<noteq> 0" using ur by auto
  show "{unat r..<unat r + e} \<subseteq> ext (hdr h ?b) ?b" using ur e by (auto simp: ext_def)
  have "{unat ?b..<unat ?b + 64} \<subseteq> ext (hdr h ?b) ?b" by (auto simp: ext_def)
  moreover have "ext (hdr h ?b) ?b \<subseteq> \<Union> (reg ` set (mapped h))" using lay b by (auto simp: layout_def)
  ultimately show "header_mapped h ?b" unfolding header_mapped_iff by (rule subset_trans)
qed

lemma allocs_disjoint:
  assumes inv: "heap_inv h bs" and p: "allocs h bs p = Some c" and q: "allocs h bs q = Some d" and ne: "p \<noteq> q"
  shows "{unat p..<unat p + c} \<inter> {unat q..<unat q + d} = {}"
proof -
  have lay: "layout (hdr h) (set bs) (set (mapped h))" using inv by (simp add: heap_inv_def)
  have "payload_to_block p \<noteq> payload_to_block q" using ne by (metis payload_inverse(2))
  then have "ext (hdr h (payload_to_block p)) (payload_to_block p) \<inter> ext (hdr h (payload_to_block q)) (payload_to_block q) = {}"
    using allocs_block(1) [OF inv p] allocs_block(1) [OF inv q] lay unfolding layout_def by blast
  then show ?thesis using allocs_block(8) [OF inv p] allocs_block(8) [OF inv q] by blast
qed

lemma allocs_apart:
  assumes inv: "heap_inv h bs" and p: "allocs h bs p = Some c" and q: "allocs h bs q = Some d" and ne: "p \<noteq> q"
  shows "c \<le> unat (q - p)" and "unat (q - p) + d \<le> 2 ^ 64"
proof -
  have pos: "0 < c" "0 < d"
    using allocs_block(2,3) [OF inv p] allocs_block(2,3) [OF inv q] by (auto simp: block_ok_def)
  have dis: "\<not> (unat p \<le> i \<and> i < unat p + c \<and> unat q \<le> i \<and> i < unat q + d)" for i
    using allocs_disjoint [OF inv p q ne] by auto
  have "unat p + c \<le> unat q \<or> unat q + d \<le> unat p"
    using dis [of "unat p"] dis [of "unat q"] pos by linarith
  then show "c \<le> unat (q - p)" "unat (q - p) + d \<le> 2 ^ 64"
    using allocs_block(5) [OF inv p] allocs_block(5) [OF inv q] pos by (auto simp: unat_sub64)
qed

lemma flags_inv:
  assumes inv: "heap_inv h bs" and b: "b \<in> set bs" "\<not> large (hdr h b)"
    and k: "h' = h\<lparr>hdr := (hdr h)(b := (hdr h b)\<lparr>free := f, magic := (if f then MAGIC_FREE else MAGIC_ALLOC)\<rparr>)\<rparr>"
  shows "heap_inv h' bs"
proof -
  have lay: "layout (hdr h) (set bs) (set (mapped h))" using inv by (simp add: heap_inv_def)
  have "layout (hdr h') (set bs) (set (mapped h))"
  proof (rule layout_replace [OF lay, where A = "{b}" and A' = "{b}"])
    show "block_ok (hdr h' a) a \<and> \<not> large (hdr h' a)" if "a \<in> {b}" for a
      using that lay b k by (auto simp: layout_def block_ok_def)
    show "\<exists>x \<in> {b}. i \<in> ext (hdr h x) x" if "a \<in> {b}" "i \<in> ext (hdr h' a) a" for a i
      using that k by (auto simp: ext_def)
  qed (use b k in auto)
  moreover have "dl (hdr h') 0 (heap_head h') bs"
    using inv dl_cong [of bs "hdr h'" "hdr h" 0 "heap_head h"] k by (simp add: heap_inv_def)
  ultimately show ?thesis using inv k by (simp add: heap_inv_def)
qed

lemma find_free_ok:
  "dl (hdr h) q p xs \<Longrightarrow>
   \<exists>r. find_free_from sz p h = Some r \<and>
     (r = 0 \<or> r \<in> set xs \<and> free (hdr h r) \<and> \<not> large (hdr h r) \<and> bsize (hdr h r) \<ge> sz)"
proof (induction xs arbitrary: q p)
  case Nil
  then show ?case by (simp add: find_free_from.simps)
next
  case (Cons x xs)
  then obtain r where "find_free_from sz (nxt (hdr h x)) h = Some r"
    "r = 0 \<or> r \<in> set xs \<and> free (hdr h r) \<and> \<not> large (hdr h r) \<and> bsize (hdr h r) \<ge> sz"
    by auto
  then show ?case using Cons.prems by (subst find_free_from.simps) auto
qed

text \<open>
  What the allocator relies on of \<^verbatim>\<open>mmap\<close>: a mapping is not empty, page aligned, inside the
  address space and apart from the mappings there are.
\<close>

definition mmap_ok :: "(u64 \<Rightarrow> addr option) \<Rightarrow> heap \<Rightarrow> bool" where
  "mmap_ok mm h \<longleftrightarrow> (\<forall>len a. mm len = Some a \<longrightarrow> len \<noteq> 0 \<and> a \<noteq> 0 \<and> unat a mod 4096 = 0 \<and>
     unat a + unat len \<le> 2 ^ 64 \<and> (\<forall>r \<in> set (mapped h). reg r \<inter> reg (a, len) = {}))"

lemma align_wraps: "\<not> unat v + 4095 < 2 ^ 64 \<Longrightarrow> align_up v PAGE_SIZE = 0"
proof -
  assume a: "\<not> unat v + 4095 < 2 ^ 64"
  have "unat (v + 4095) = unat v + 4095 - 2 ^ 64"
    using a unat_lt64 [of v] by (simp add: unat_plus_if_size word_size)
  then have "unat (v + 4095) < 4096" using unat_lt64 [of v] by simp
  then have "unat ((v + 4095) AND NOT (2 ^ 12 - 1)) = 0" using unat_round [of 12 "v + 4095"] by simp
  then show ?thesis by (simp add: align_up_def PAGE_SIZE_def unat_eq_0 add_diff_eq [symmetric])
qed

lemma page_align:
  assumes "align_up v PAGE_SIZE \<noteq> 0"
  shows "unat v \<le> unat (align_up v PAGE_SIZE)" and "unat (align_up v PAGE_SIZE) mod 16 = 0"
proof -
  have lt: "unat v + (2 ^ 12 - 1) < 2 ^ 64" using align_wraps [of v] assms by auto
  have e: "unat (align_up v PAGE_SIZE) = (unat v + (2 ^ 12 - 1)) div 2 ^ 12 * 2 ^ 12"
    using unat_align_up [OF _ lt] by (simp add: PAGE_SIZE_def)
  show "unat v \<le> unat (align_up v PAGE_SIZE)" using e round_up_bounds(1) [of "2 ^ 12" "unat v"] by simp
  have "16 dvd (unat v + (2 ^ 12 - 1)) div 2 ^ 12 * 2 ^ 12" by (rule dvd_mult) simp
  then show "unat (align_up v PAGE_SIZE) mod 16 = 0" unfolding e by (rule dvd_imp_mod_0)
qed

text \<open>A block at the start of a fresh mapping is none of the blocks there are.\<close>

lemma fresh_block:
  assumes "heap_inv h bs" and "mmap_ok mm h" and "mm len = Some a" and "unat b \<in> reg (a, len)"
  shows "b \<notin> set bs"
proof
  assume "b \<in> set bs"
  then have "ext (hdr h b) b \<subseteq> \<Union> (reg ` set (mapped h))" using assms(1) by (auto simp: heap_inv_def layout_def)
  then obtain r where "r \<in> set (mapped h)" "unat b \<in> reg r" using ext_self [of b "hdr h b"] by blast
  moreover have "reg r \<inter> reg (a, len) = {}" if "r \<in> set (mapped h)" for r
    using assms(2,3) that by (auto simp: mmap_ok_def)
  ultimately show False using assms(4) by blast
qed

definition fresh_mapping :: "heap \<Rightarrow> addr list \<Rightarrow> addr \<Rightarrow> u64 \<Rightarrow> bool \<Rightarrow> heap \<Rightarrow> bool" where
  "fresh_mapping h bs b sz lrg h1 \<longleftrightarrow> b \<noteq> 0 \<and> b \<notin> set bs \<and> hmem h1 = hmem h \<and>
     dl (hdr h1) 0 (heap_head h1) (b # bs) \<and> (\<forall>c \<in> set bs. core (hdr h1 c) = core (hdr h c)) \<and>
     (let x = hdr h1 b; m = (map_base x, map_size x) in
       mapped h1 = m # mapped h \<and> sz \<le> bsize x \<and> free x \<and> magic x = MAGIC_FREE \<and> large x = lrg \<and>
       ext x b \<subseteq> reg m \<and> (\<forall>r \<in> set (mapped h). reg r \<inter> reg m = {}) \<and> unat b mod 16 = 0 \<and>
       unat b + 64 + unat (bsize x) \<le> 2 ^ 64 \<and> unat (bsize x) mod 16 = 0 \<and> 0 < unat (bsize x))"

lemma checked_add_unat: "checked_add a b = Some c \<Longrightarrow> unat c = unat a + unat b"
proof -
  assume "checked_add a b = Some c"
  then have c: "c = a + b" "a \<le> - 1 - b" by (auto simp: checked_add_def not_less split: if_splits)
  have "unat (- 1 - b) = unat (- 1 :: u64) - unat b" by (rule unat_sub) simp
  moreover have "unat (- 1 :: u64) = 2 ^ 64 - 1" by (simp add: unsigned_minus_1_eq_mask mask_eq_exp_minus_1)
  ultimately have "unat a + unat b < 2 ^ 64" using c(2) unat_lt64 [of b] by (simp add: word_le_nat_alt)
  then show ?thesis using c(1) unat_plus64 by simp
qed

lemma new_mapping_ok:
  assumes inv: "heap_inv h bs" and mm: "mmap_ok mm h" and sz: "0 < unat sz"
    and lrg: "lrg = (sz \<ge> LARGE_LIMIT)" and nm: "new_mapping mm sz lrg h = (b, h1)"
  shows "b = 0 \<and> h1 = h \<or> fresh_mapping h bs b sz lrg h1"
proof (cases "checked_add header_bytes sz")
  case None
  then show ?thesis using nm by (simp add: new_mapping_def)
next
  case (Some need)
  have need: "unat need = 64 + unat sz" using checked_add_unat [OF Some] by simp
  define m0 where "m0 = align_up need PAGE_SIZE"
  define m where "m = (if \<not> lrg \<and> m0 < ARENA_SIZE then ARENA_SIZE else m0)"
  note nm' = nm [unfolded new_mapping_def Some option.case Let_def, folded m0_def, folded m_def]
  show ?thesis
  proof (cases "mm m")
    case None
    then show ?thesis using nm' by simp
  next
    case mmS: (Some a)
    have a: "m \<noteq> 0" "a \<noteq> 0" "unat a mod 4096 = 0" "unat a + unat m \<le> 2 ^ 64"
      "\<forall>r \<in> set (mapped h). reg r \<inter> reg (a, m) = {}"
      using mm mmS unfolding mmap_ok_def by blast+
    have mlen: "64 + unat sz \<le> unat m" "unat m mod 16 = 0"
    proof -
      have "64 + unat sz \<le> unat m \<and> unat m mod 16 = 0"
      proof (cases "\<not> lrg \<and> m0 < ARENA_SIZE")
        case True
        then have "unat sz < 32768" using lrg by (simp add: LARGE_LIMIT_def word_less_nat_alt not_le)
        then show ?thesis using True by (simp add: m_def ARENA_SIZE_def)
      next
        case False
        then have e: "m = m0" by (auto simp: m_def)
        then have "m0 \<noteq> 0" using a(1) by simp
        then show ?thesis unfolding e using page_align [of need] need by (simp add: m0_def)
      qed
      then show "64 + unat sz \<le> unat m" "unat m mod 16 = 0" by blast+
    qed
    let ?h0 = "h\<lparr>mapped := (a, m) # mapped h\<rparr>"
    let ?x = "(hdr h a)\<lparr>bsize := m - header_bytes, map_base := a, map_size := m, magic := MAGIC_FREE, free := True, large := lrg\<rparr>"
    have r: "b = a" "h1 = link_block a (?h0\<lparr>hdr := (hdr h)(a := ?x)\<rparr>)"
      using nm' mmS by auto
    have fresh: "a \<notin> set bs" using a(1) mlen by (intro fresh_block [OF inv mm mmS]) (simp add: reg_def)
    have dl: "dl (hdr h) 0 (heap_head h) bs" and dist: "distinct bs" using inv by (simp_all add: heap_inv_def)
    have dl1: "dl (hdr h1) 0 (heap_head h1) (a # bs)"
      unfolding r(2) link_block_hdr(2)
      using dl dist fresh a(2) by (intro link_block_dl) simp_all
    have ha: "heap_head h \<noteq> a" using fresh dl a(2) by (cases bs) auto
    have core: "core (hdr h1 c) = core (if c = a then ?x else hdr h c)" for c
      using ha by (simp add: r(2) link_block_hdr core_def set_prev_def)
    have x: "bsize (hdr h1 a) = m - header_bytes" "map_base (hdr h1 a) = a" "map_size (hdr h1 a) = m"
      "magic (hdr h1 a) = MAGIC_FREE" "free (hdr h1 a)" "large (hdr h1 a) = lrg"
      using core [of a] by (simp_all add: core_def)
    have us: "unat (m - 64) = unat m - 64" using mlen(1) by (simp add: unat_sub word_le_nat_alt)
    have "16 dvd unat m - 64" using mlen(2) by (intro dvd_diff_nat) (simp_all add: mod_eq_0_iff_dvd)
    then have b16: "unat (m - 64) mod 16 = 0" using us by simp
    have a16: "unat a mod 16 = 0"
      using a(3) dvd_trans [of 16 4096 "unat a"] by (simp add: mod_eq_0_iff_dvd)
    have "fresh_mapping h bs a sz lrg h1"
      unfolding fresh_mapping_def Let_def
    proof (intro conjI)
      show "mapped h1 = (map_base (hdr h1 a), map_size (hdr h1 a)) # mapped h" using x by (simp add: r(2) link_block_hdr)
      show "\<forall>c \<in> set bs. core (hdr h1 c) = core (hdr h c)" using core fresh by auto
      show "sz \<le> bsize (hdr h1 a)" unfolding x(1) using us mlen(1) by (simp add: word_le_nat_alt)
      show "ext (hdr h1 a) a \<subseteq> reg (map_base (hdr h1 a), map_size (hdr h1 a))"
        using us mlen(1) by (auto simp: ext_def reg_def x)
      show "unat a + 64 + unat (bsize (hdr h1 a)) \<le> 2 ^ 64" "0 < unat (bsize (hdr h1 a))" "unat (bsize (hdr h1 a)) mod 16 = 0"
        unfolding x(1) using us mlen(1) a(4) sz b16 by linarith+
    qed (use a fresh dl1 x a16 in \<open>simp_all add: r(2) link_block_hdr\<close>)
    then show ?thesis using r(1) by simp
  qed
qed

section \<open>Allocating and freeing\<close>

lemma mark_alloc_simps [simp]:
  "hdr (mark_alloc b h) = (hdr h)(b := (hdr h b)\<lparr>free := False, magic := MAGIC_ALLOC\<rparr>)"
  "hmem (mark_alloc b h) = hmem h" "mapped (mark_alloc b h) = mapped h" "heap_head (mark_alloc b h) = heap_head h"
  by (simp_all add: mark_alloc_def)

lemma coreD:
  assumes "core x = core y"
  shows "bsize x = bsize y" "large x = large y" "free x = free y" "magic x = magic y" "map_base x = map_base y" "map_size x = map_size y"
  using assms by (simp_all add: core_def)

text \<open>Cutting a block to size and marking it used.\<close>

lemma take_block:
  assumes inv: "heap_inv h bs" and b: "b \<in> set bs" "\<not> large (hdr h b)"
    and sz: "sz \<le> bsize (hdr h b)" "unat sz mod 16 = 0" "0 < unat sz"
  obtains bs' where "heap_inv (mark_alloc b (split_block b sz h)) bs'"
    "hmem (mark_alloc b (split_block b sz h)) = hmem h"
    "allocs (mark_alloc b (split_block b sz h)) bs' =
       (allocs h bs)(block_to_payload b := allocs (mark_alloc b (split_block b sz h)) bs' (block_to_payload b))"
    "\<exists>cap. allocs (mark_alloc b (split_block b sz h)) bs' (block_to_payload b) = Some cap \<and> unat sz \<le> cap"
    "mapped (mark_alloc b (split_block b sz h)) = mapped h"
proof -
  let ?h1 = "split_block b sz h"
  obtain bs' s' where s: "heap_inv ?h1 bs'" "set bs \<subseteq> set bs'" "\<And>c. c \<in> set bs' - set bs \<Longrightarrow> free (hdr ?h1 c)"
    "\<And>c. c \<in> set bs - {b} \<Longrightarrow> core (hdr ?h1 c) = core (hdr h c)"
    "core (hdr ?h1 b) = core ((hdr h b)\<lparr>bsize := s'\<rparr>)" "sz \<le> s'" "s' \<le> bsize (hdr h b)"
    "hmem ?h1 = hmem h" "mapped ?h1 = mapped h"
    by (rule split_inv [OF inv b sz]) blast
  have b1: "b \<in> set bs'" "\<not> large (hdr ?h1 b)" "bsize (hdr ?h1 b) = s'"
    using s(2) b coreD [OF s(5)] by auto
  have inv': "heap_inv (mark_alloc b ?h1) bs'"
    by (rule flags_inv [OF s(1) b1(1,2), of _ False]) (simp add: mark_alloc_def)
  have "in_use (mark_alloc b ?h1) bs' c = in_use h bs c" if "c \<noteq> b" for c
    using that s(2,3) coreD(3) [OF s(4)] by (auto simp: in_use_def)
  moreover have "bsize (hdr (mark_alloc b ?h1) c) = bsize (hdr h c)" if "c \<noteq> b" "in_use h bs c" for c
    using that coreD(1) [OF s(4)] by (auto simp: in_use_def)
  ultimately have a: "allocs (mark_alloc b ?h1) bs' =
      (allocs h bs)(block_to_payload b := allocs (mark_alloc b ?h1) bs' (block_to_payload b))"
    by (rule allocs_eqI)
  show ?thesis
    by (rule that [OF inv' _ a]) (use s b1 in \<open>auto simp: allocs_at in_use_def word_le_nat_alt\<close>)
qed

lemma size_round:
  assumes "(n :: size_t) \<noteq> 0" and "n \<le> SIZE_MAX - ALIGNMENT + 1"
  shows "unat n \<le> unat (align_up n ALIGNMENT)" "unat (align_up n ALIGNMENT) mod 16 = 0" "0 < unat (align_up n ALIGNMENT)"
proof -
  have "unat n \<le> 2 ^ 64 - 16" using assms(2) by (simp add: ALIGNMENT_def word_le_nat_alt)
  then have lt: "unat n + (2 ^ 4 - 1) < 2 ^ 64" by simp
  have e: "unat (align_up n ALIGNMENT) = (unat n + (2 ^ 4 - 1)) div 2 ^ 4 * 2 ^ 4"
    using unat_align_up [OF _ lt] by (simp add: ALIGNMENT_def)
  show le: "unat n \<le> unat (align_up n ALIGNMENT)" using e round_up_bounds(1) [of "2 ^ 4" "unat n"] by simp
  show "unat (align_up n ALIGNMENT) mod 16 = 0" unfolding e by simp
  show "0 < unat (align_up n ALIGNMENT)" using le assms(1) by (metis gr0I le_zero_eq unat_eq_0)
qed

lemma fresh_small_inv:
  assumes inv: "heap_inv h bs" and f: "fresh_mapping h bs b sz False h1"
  shows "heap_inv h1 (b # bs)" and "allocs h1 (b # bs) = allocs h bs"
proof -
  let ?m = "(map_base (hdr h1 b), map_size (hdr h1 b))"
  have lay: "layout (hdr h) (set bs) (set (mapped h))" and dist: "distinct bs" using inv by (simp_all add: heap_inv_def)
  have "layout (hdr h1) (insert b (set bs)) (insert ?m (set (mapped h)))"
    by (rule layout_new [OF lay]) (use f in \<open>auto simp: fresh_mapping_def Let_def block_ok_def\<close>)
  then show "heap_inv h1 (b # bs)" using f dist by (simp add: heap_inv_def fresh_mapping_def Let_def)
  have c: "core (hdr h1 c) = core (hdr h c)" if "c \<in> set bs" for c using f that by (simp add: fresh_mapping_def)
  have fb: "b \<notin> set bs" "free (hdr h1 b)" using f by (simp_all add: fresh_mapping_def Let_def)
  have u: "in_use h1 (b # bs) c = in_use h bs c" for c
    using coreD(3) [OF c] fb by (auto simp: in_use_def)
  have "allocs h1 (b # bs) = (allocs h bs)(block_to_payload b := allocs h1 (b # bs) (block_to_payload b))"
    by (rule allocs_eqI) (use u coreD(1) [OF c] in \<open>auto simp: in_use_def\<close>)
  moreover have "allocs h1 (b # bs) (block_to_payload b) = None" "allocs h bs (block_to_payload b) = None"
    using fb by (simp_all add: allocs_at in_use_def)
  ultimately show "allocs h1 (b # bs) = allocs h bs" by (simp add: fun_upd_idem)
qed

lemma fresh_large_inv:
  assumes inv: "heap_inv h bs" and f: "fresh_mapping h bs b sz True h1"
  shows "heap_inv (mark_alloc b h1) (b # bs)"
    and "allocs (mark_alloc b h1) (b # bs) = (allocs h bs)(block_to_payload b \<mapsto> unat (bsize (hdr h1 b)))"
proof -
  let ?h = "mark_alloc b h1" and ?m = "(map_base (hdr h1 b), map_size (hdr h1 b))"
  have lay: "layout (hdr h) (set bs) (set (mapped h))" and dist: "distinct bs" using inv by (simp_all add: heap_inv_def)
  have c: "core (hdr h1 c) = core (hdr h c)" if "c \<in> set bs" for c using f that by (simp add: fresh_mapping_def)
  have fb: "b \<notin> set bs" using f by (simp add: fresh_mapping_def)
  have "layout (hdr ?h) (insert b (set bs)) (insert ?m (set (mapped h)))"
    by (rule layout_new [OF lay fb])
      (use f fb c in \<open>auto simp: fresh_mapping_def Let_def block_ok_def ext_def\<close>)
  moreover have "dl (hdr ?h) 0 (heap_head ?h) (b # bs)"
    using f dl_cong [of "b # bs" "hdr ?h" "hdr h1" 0 "heap_head h1"] by (simp add: fresh_mapping_def)
  ultimately show "heap_inv ?h (b # bs)" using f dist fb by (simp add: heap_inv_def fresh_mapping_def Let_def)
  have "allocs ?h (b # bs) = (allocs h bs)(block_to_payload b := allocs ?h (b # bs) (block_to_payload b))"
    by (rule allocs_eqI) (use coreD [OF c] in \<open>auto simp: in_use_def\<close>)
  then show "allocs ?h (b # bs) = (allocs h bs)(block_to_payload b \<mapsto> unat (bsize (hdr h1 b)))"
    by (simp add: allocs_at in_use_def)
qed

lemma malloc_ok:
  assumes inv: "heap_inv h bs" and mm: "mmap_ok mm h"
  obtains p h' bs' where "malloc mm n h = Some (p, h')" "heap_inv h' bs'" "hmem h' = hmem h"
    "p = 0 \<and> h' = h \<and> bs' = bs \<or>
     (\<exists>cap. allocs h bs p = None \<and> allocs h' bs' = (allocs h bs)(p \<mapsto> cap) \<and> unat n \<le> cap)"
proof (cases "n = 0 \<or> n > SIZE_MAX - ALIGNMENT + 1")
  case True
  then have "malloc mm n h = Some (0, h)" by (auto simp: malloc_def)
  from that [OF this inv] show ?thesis by simp
next
  case False
  note done_ = that
  define sz where "sz = align_up n ALIGNMENT"
  define lrg where "lrg = (sz \<ge> LARGE_LIMIT)"
  have sz: "unat n \<le> unat sz" "unat sz mod 16 = 0" "0 < unat sz"
    using size_round [of n] False by (simp_all add: sz_def not_less)
  have take: ?thesis
    if i: "heap_inv h1 bs1" "allocs h1 bs1 = allocs h bs" "hmem h1 = hmem h" "b \<in> set bs1" "\<not> large (hdr h1 b)"
      "free (hdr h1 b)" "sz \<le> bsize (hdr h1 b)"
      and r: "malloc mm n h = Some (block_to_payload b, mark_alloc b (split_block b sz h1))" for b h1 bs1
  proof -
    let ?h' = "mark_alloc b (split_block b sz h1)"
    obtain bs' cap where t: "heap_inv ?h' bs'" "hmem ?h' = hmem h1"
      "allocs ?h' bs' = (allocs h bs)(block_to_payload b := allocs ?h' bs' (block_to_payload b))"
      "allocs ?h' bs' (block_to_payload b) = Some cap" "unat sz \<le> cap"
      using take_block [OF i(1,4,5,7) sz(2,3)] i(2) by metis
    have "allocs h bs (block_to_payload b) = None" using i(2,6) allocs_at [of h1 bs1 b] by (simp add: in_use_def)
    then show ?thesis using done_ [OF r t(1)] t i(3) sz(1) by fastforce
  qed
  obtain b0 where b0: "(if lrg then Some 0 else find_free sz h) = Some b0"
    "b0 = 0 \<or> \<not> lrg \<and> b0 \<in> set bs \<and> free (hdr h b0) \<and> \<not> large (hdr h b0) \<and> bsize (hdr h b0) \<ge> sz"
    using find_free_ok [of h 0 "heap_head h" bs sz] inv by (cases lrg) (auto simp: heap_inv_def find_free_def)
  obtain b h1 where nm: "(if b0 = 0 then new_mapping mm sz lrg h else (b0, h)) = (b, h1)" by (metis surj_pair)
  have m: "malloc mm n h = (if b = 0 then Some (0, h1)
      else Some (block_to_payload b, mark_alloc b (if \<not> lrg then split_block b sz h1 else h1)))"
    using False b0(1) nm by (simp add: malloc_def sz_def [symmetric] lrg_def [symmetric])
  show ?thesis
  proof (cases "b0 = 0")
    case False
    then have "b = b0" "h1 = h" using nm by auto
    then show ?thesis using False b0(2) inv m by (intro take [of h bs b]) auto
  next
    case True
    then consider "b = 0" "h1 = h" | "fresh_mapping h bs b sz lrg h1"
      using new_mapping_ok [OF inv mm sz(3) lrg_def] nm by auto
    then show ?thesis
    proof cases
      case 1
      then have "malloc mm n h = Some (0, h)" using m by simp
      from that [OF this inv] show ?thesis by simp
    next
      case 2
      then have f: "b \<noteq> 0" "b \<notin> set bs" "hmem h1 = hmem h" "free (hdr h1 b)" "large (hdr h1 b) = lrg" "sz \<le> bsize (hdr h1 b)"
        by (simp_all add: fresh_mapping_def Let_def)
      show ?thesis
      proof (cases lrg)
        case True
        then have "fresh_mapping h bs b sz True h1" using 2 by simp
        note k = fresh_large_inv [OF inv this]
        have "malloc mm n h = Some (block_to_payload b, mark_alloc b h1)" using m f True by simp
        moreover have "allocs h bs (block_to_payload b) = None" using f by (simp add: allocs_at in_use_def)
        ultimately show ?thesis
          using that [OF _ k(1)] k(2) f sz(1) by (fastforce simp: word_le_nat_alt)
      next
        case False
        then have fs: "fresh_mapping h bs b sz False h1" using 2 by simp
        show ?thesis
          using False f m fresh_small_inv [OF inv fs] by (intro take [of h1 "b # bs" b]) auto
      qed
    qed
  qed
qed

lemma dl_prev_in: "dl H q p bs \<Longrightarrow> b \<in> set bs \<Longrightarrow> prev (H b) = q \<or> prev (H b) \<in> set bs"
  by (induction bs arbitrary: q p) auto

lemma merge_free:
  assumes inv: "heap_inv h bs" and b: "b \<in> set bs" "\<not> large (hdr h b)" "free (hdr h b)"
  obtains bs' where "heap_inv (merge_next b h) bs'" "b \<in> set bs'" "allocs (merge_next b h) bs' = allocs h bs"
    "hmem (merge_next b h) = hmem h" "\<And>c. free (hdr (merge_next b h) c) = free (hdr h c)"
    "\<And>c. magic (hdr (merge_next b h) c) = magic (hdr h c)"
proof -
  let ?h = "merge_next b h"
  obtain bs' s' where m: "heap_inv ?h bs'" "set bs' \<subseteq> set bs" "b \<in> set bs'"
    "\<And>c. c \<in> set bs - set bs' \<Longrightarrow> free (hdr h c)"
    "\<And>c. c \<noteq> b \<Longrightarrow> core (hdr ?h c) = core (hdr h c)"
    "core (hdr ?h b) = core ((hdr h b)\<lparr>bsize := s'\<rparr>)" "hmem ?h = hmem h"
    by (rule merge_inv [OF inv b(1,2)]) blast
  have fl: "free (hdr ?h c) = free (hdr h c)" "magic (hdr ?h c) = magic (hdr h c)" for c
    using coreD [OF m(5)] coreD [OF m(6)] by (cases "c = b"; simp)+
  have "allocs ?h bs' = (allocs h bs)(block_to_payload b := allocs ?h bs' (block_to_payload b))"
    by (rule allocs_eqI) (use m(2,4) fl coreD [OF m(5)] in \<open>auto simp: in_use_def\<close>)
  then have "allocs ?h bs' = allocs h bs"
    using fl b(3) by (simp add: allocs_at in_use_def fun_upd_idem)
  then show ?thesis using that m fl by blast
qed

lemma free_ok:
  assumes inv: "heap_inv h bs" and p: "allocs h bs p = Some cap"
  obtains h' bs' where "free_ptr p h = Some h'" "heap_inv h' bs'" "hmem h' = hmem h" "allocs h' bs' = (allocs h bs)(p := None)"
proof -
  define b where "b = payload_to_block p"
  have pb: "p = block_to_payload b" by (simp add: b_def)
  note blk = allocs_block [OF inv p, folded b_def]
  have live: "magic (hdr h b) = MAGIC_ALLOC" using blk(3,4) by (simp add: block_ok_def)
  let ?h1 = "h\<lparr>hdr := (hdr h)(b := (hdr h b)\<lparr>free := True, magic := MAGIC_FREE\<rparr>)\<rparr>"
  note fr = free_ptr_def [of p h, folded b_def, unfolded Let_def]
  show ?thesis
  proof (cases "large (hdr h b)")
    case True
    obtain xs ys where bs: "bs = xs @ b # ys" using blk(1) by (meson split_list)
    let ?m = "(map_base (hdr h b), map_size (hdr h b))" and ?u = "unlink_block b ?h1"
    let ?h' = "munmap (map_base (hdr h b)) (map_size (hdr h b)) ?u"
    have r: "free_ptr p h = Some ?h'" using fr live blk(4,7,9) True by simp
    have dist: "distinct bs" and lay: "layout (hdr h) (set bs) (set (mapped h))" using inv by (simp_all add: heap_inv_def)
    have c: "core (hdr ?u c) = core (hdr h c)" if "c \<noteq> b" for c using that by (simp add: unlink_block_frame(3))
    have l: "layout (hdr ?u) (set bs - {b}) (set (mapped h) - {?m})"
      by (rule layout_del [OF lay blk(1) True refl]) (simp add: c)
    have "dl (hdr ?h1) 0 (heap_head ?h1) bs"
      using inv dl_cong [of bs "hdr ?h1" "hdr h" 0 "heap_head h"] by (simp add: heap_inv_def)
    then have d: "dl (hdr ?u) 0 (heap_head ?u) (xs @ ys)"
      unfolding bs by (rule unlink_block_dl) (use dist bs in simp)
    have sets: "set (xs @ ys) = set bs - {b}" "distinct (xs @ ys)" using dist bs by auto
    have iv: "heap_inv ?h' (xs @ ys)"
      using d l sets by (simp add: heap_inv_def munmap_def unlink_block_frame)
    have "in_use ?h' (xs @ ys) c = in_use h bs c" if "c \<noteq> b" for c
      unfolding in_use_def sets(1) using that coreD(3) [OF c] by (auto simp: munmap_def)
    then have "allocs ?h' (xs @ ys) = (allocs h bs)(block_to_payload b := allocs ?h' (xs @ ys) (block_to_payload b))"
      by (rule allocs_eqI) (use coreD(1) [OF c] in \<open>auto simp: munmap_def\<close>)
    moreover have "allocs ?h' (xs @ ys) (block_to_payload b) = None" unfolding allocs_at in_use_def sets(1) by simp
    ultimately show ?thesis using that [OF r iv] pb by (simp add: munmap_def unlink_block_frame)
  next
    case False
    have i1: "heap_inv ?h1 bs" by (rule flags_inv [OF inv blk(1) False, of _ True]) simp
    have lf: "\<not> large (hdr ?h1 b)" "free (hdr ?h1 b)" using False by simp_all
    let ?h2 = "merge_next b ?h1" and ?q = "prev (hdr (merge_next b ?h1) b)"
    obtain bs2 where m: "heap_inv ?h2 bs2" "b \<in> set bs2" "allocs ?h2 bs2 = allocs ?h1 bs" "hmem ?h2 = hmem ?h1"
      by (rule merge_free [OF i1 blk(1) lf]) blast
    have "allocs ?h1 bs = (allocs h bs)(block_to_payload b := allocs ?h1 bs (block_to_payload b))"
      by (rule allocs_eqI) (auto simp: in_use_def)
    then have a: "allocs ?h2 bs2 = (allocs h bs)(p := None)" using m(3) pb by (simp add: allocs_at in_use_def)
    define g where "g \<longleftrightarrow> ?q \<noteq> 0 \<and> free (hdr ?h2 ?q) \<and> \<not> large (hdr ?h2 ?q)"
    have r: "free_ptr p h = Some (if g then merge_next ?q ?h2 else ?h2)"
      using fr live blk(4,7,9) False by (simp add: g_def)
    show ?thesis
    proof (cases g)
      case False
      then show ?thesis using that r m(1,4) a by simp
    next
      case True
      then have q: "?q \<in> set bs2" "\<not> large (hdr ?h2 ?q)" "free (hdr ?h2 ?q)"
        using dl_prev_in [of "hdr ?h2" 0 "heap_head ?h2" bs2 b] m(1,2) by (auto simp: heap_inv_def g_def)
      obtain bs3 where "heap_inv (merge_next ?q ?h2) bs3" "allocs (merge_next ?q ?h2) bs3 = allocs ?h2 bs2"
        "hmem (merge_next ?q ?h2) = hmem ?h2"
        by (rule merge_free [OF m(1) q]) blast
      then show ?thesis using that r True m(4) a by simp
    qed
  qed
qed

lemma merge_next_magic: "magic (hdr (merge_next b h) c) = magic (hdr h c)"
  by (simp add: merge_next_def Let_def)

lemma merge_next_mapped: "mapped (merge_next b h) = mapped h"
  by (simp add: merge_next_def Let_def)

text \<open>What a free leaves behind: the mark of a free block and, for a block of its own, no mapping.\<close>

lemma free_marks:
  assumes "free_ptr p h = Some h'" and "p \<noteq> 0"
  defines "b \<equiv> payload_to_block p"
  shows "magic (hdr h' b) = MAGIC_FREE"
    and "mapped h' = (if large (hdr h b) then removeAll (map_base (hdr h b), map_size (hdr h b)) (mapped h) else mapped h)"
proof -
  let ?h1 = "h\<lparr>hdr := (hdr h)(b := (hdr h b)\<lparr>free := True, magic := MAGIC_FREE\<rparr>)\<rparr>"
  have "magic (hdr (munmap a l (unlink_block b ?h1)) b) = magic (hdr ?h1 b)" for a l
    using coreD(4) [OF unlink_block_frame(3) [of b ?h1 b]] by (simp add: munmap_def)
  then show "magic (hdr h' b) = MAGIC_FREE"
    using assms(1,2) unfolding b_def by (auto simp: free_ptr_def Let_def merge_next_magic split: if_splits)
  show "mapped h' = (if large (hdr h b) then removeAll (map_base (hdr h b), map_size (hdr h b)) (mapped h) else mapped h)"
    using assms(1,2) unfolding b_def
    by (auto simp: free_ptr_def Let_def merge_next_mapped munmap_def unlink_block_frame split: if_splits)
qed

section \<open>Reallocation\<close>

lemma mark_alloc_idem: "\<not> free (hdr h b) \<Longrightarrow> magic (hdr h b) = MAGIC_ALLOC \<Longrightarrow> mark_alloc b h = h"
  by (simp add: mark_alloc_def fun_upd_idem)

text \<open>
  \<open>keeps_bytes h h' L\<close>: the objects of \<open>L\<close> have the same bytes in both heaps.
\<close>

definition keeps_bytes :: "heap \<Rightarrow> heap \<Rightarrow> (addr \<rightharpoonup> nat) \<Rightarrow> bool" where
  "keeps_bytes h h' L \<longleftrightarrow> (\<forall>r d. L r = Some d \<longrightarrow> load_bytes (hmem h') r d = load_bytes (hmem h) r d)"

lemma keeps_bytes_same: "hmem h' = hmem h \<Longrightarrow> keeps_bytes h h' L"
  by (simp add: keeps_bytes_def)

lemma hmem_irrelevant [simp]: "heap_inv (h\<lparr>hmem := m\<rparr>) bs = heap_inv h bs" "allocs (h\<lparr>hmem := m\<rparr>) bs = allocs h bs"
  by (simp_all add: heap_inv_def allocs_def Let_def fun_eq_iff)

lemma realloc_move:
  assumes inv: "heap_inv h bs" and mm: "mmap_ok mm h" and p: "allocs h bs p = Some cap" and n: "n \<noteq> 0"
  obtains "malloc mm n h = Some (0, h)"
  | np h1 h' bs' cap' where "malloc mm n h = Some (np, h1)" "np \<noteq> 0"
    "bsize (hdr h1 (payload_to_block p)) = bsize (hdr h (payload_to_block p))"
    "free_ptr p (h1\<lparr>hmem := fst (memcpy c (hmem h1) np p
        (if bsize (hdr h (payload_to_block p)) < n then bsize (hdr h (payload_to_block p)) else n))\<rparr>) = Some h'"
    "heap_inv h' bs'" "allocs h' bs' = (allocs h bs)(p := None, np \<mapsto> cap')" "unat n \<le> cap'"
    "load_bytes (hmem h') np (min cap (unat n)) = load_bytes (hmem h) p (min cap (unat n))"
    "keeps_bytes h h' ((allocs h bs)(p := None))"
proof -
  define b where "b = payload_to_block p"
  define k where "k = (if bsize (hdr h b) < n then bsize (hdr h b) else n)"
  obtain np h1 bs1 where m: "malloc mm n h = Some (np, h1)" "heap_inv h1 bs1" "hmem h1 = hmem h"
    "np = 0 \<and> h1 = h \<and> bs1 = bs \<or>
     (\<exists>cap'. allocs h bs np = None \<and> allocs h1 bs1 = (allocs h bs)(np \<mapsto> cap') \<and> unat n \<le> cap')"
    by (rule malloc_ok [OF inv mm, of n]) blast
  show ?thesis
  proof (cases "np = 0 \<and> h1 = h \<and> bs1 = bs")
    case True
    then show ?thesis using that(1) m(1) by simp
  next
    case False
    then obtain cap' where a: "allocs h bs np = None" "allocs h1 bs1 = (allocs h bs)(np \<mapsto> cap')" "unat n \<le> cap'"
      using m(4) by blast
    have ne: "np \<noteq> p" using a(1) p by auto
    have p1: "allocs h1 bs1 p = Some cap" and np1: "allocs h1 bs1 np = Some cap'" using a(2) p ne by simp_all
    have cap: "cap = unat (bsize (hdr h b))" "cap = unat (bsize (hdr h1 b))"
      using allocs_block(2) [OF inv p] allocs_block(2) [OF m(2) p1] by (simp_all add: b_def)
    have k: "unat k = min cap (unat n)" by (auto simp: k_def cap(1) word_less_nat_alt)
    have fwd: "fwd_ok np p (unat k)"
      using allocs_apart(1) [OF m(2) p1 np1] ne k unat_lt64 [of k] by (auto simp: fwd_ok_def)
    define h2 where "h2 = h1\<lparr>hmem := fst (memcpy c (hmem h1) np p k)\<rparr>"
    have h2: "hmem h2 = blit (hmem h) np p (unat k)" using memcpy_blit [OF fwd] m(3) by (simp add: h2_def)
    have inv2: "heap_inv h2 bs1" "allocs h2 bs1 = allocs h1 bs1"
      using m(2) by (simp_all add: h2_def)
    obtain h' bs' where f: "free_ptr p h2 = Some h'" "heap_inv h' bs'" "hmem h' = hmem h2" "allocs h' bs' = (allocs h2 bs1)(p := None)"
      using free_ok [OF inv2(1), of p cap] inv2(2) p1 by auto
    have al: "allocs h' bs' = (allocs h bs)(p := None, np \<mapsto> cap')" using f(4) inv2(2) a(2) ne by (simp add: fun_upd_twist)
    have cp: "load_bytes (hmem h') np (min cap (unat n)) = load_bytes (hmem h) p (min cap (unat n))"
      unfolding f(3) h2 k using k unat_lt64 [of k] by (intro load_bytes_blit_same) simp
    have "load_bytes (hmem h') r d = load_bytes (hmem h) r d" if r: "allocs h bs r = Some d" "r \<noteq> p" for r d
    proof -
      have "r \<noteq> np" using a(1) r by auto
      then have "allocs h1 bs1 r = Some d" using a(2) r by simp
      from allocs_apart [OF m(2) np1 this] \<open>r \<noteq> np\<close>
      show ?thesis unfolding f(3) h2 using k a(3) by (intro load_bytes_blit_other) auto
    qed
    then have kb: "keeps_bytes h h' ((allocs h bs)(p := None))" by (simp add: keeps_bytes_def)
    have np0: "np \<noteq> 0" using allocs_block(7) [OF m(2) np1] .
    have bz: "bsize (hdr h1 b) = bsize (hdr h b)" using cap by (simp add: word_unat_eq_iff)
    show ?thesis
      using that(2) [OF m(1) np0 _ _ f(2) al a(3) cp kb] f(1) bz unfolding b_def k_def h2_def by blast
  qed
qed

lemma resize_in_place:
  assumes inv: "heap_inv h bs" and b: "b \<in> set bs" "\<not> large (hdr h b)" "\<not> free (hdr h b)"
    and sz: "sz \<le> bsize (hdr h b)" "unat sz mod 16 = 0" "0 < unat sz"
  shows "mark_alloc b (split_block b sz h) = split_block b sz h"
proof -
  obtain s' where "core (hdr (split_block b sz h) b) = core ((hdr h b)\<lparr>bsize := s'\<rparr>)"
    by (rule split_inv [OF inv b(1,2) sz]) blast
  moreover have "block_ok (hdr h b) b" using inv b by (auto simp: heap_inv_def layout_def)
  ultimately show ?thesis using b(3) by (intro mark_alloc_idem) (auto simp: core_def block_ok_def)
qed

lemma realloc_ok:
  assumes inv: "heap_inv h bs" and mm: "mmap_ok mm h" and p: "allocs h bs p = Some cap"
    and n: "n \<noteq> 0" "n \<le> SIZE_MAX - ALIGNMENT + 1"
  obtains "realloc c mm p n h = Some (0, h)" "malloc mm n h = Some (0, h)"
  | q h' bs' cap' where "realloc c mm p n h = Some (q, h')" "heap_inv h' bs'"
    "allocs h' bs' = (allocs h bs)(p := None, q \<mapsto> cap')" "unat n \<le> cap'"
    "load_bytes (hmem h') q (min cap (unat n)) = load_bytes (hmem h) p (min cap (unat n))"
    "keeps_bytes h h' ((allocs h bs)(p := None))"
proof -
  define b where "b = payload_to_block p"
  define w where "w = align_up n ALIGNMENT"
  have pb: "block_to_payload b = p" by (simp add: b_def)
  note blk = allocs_block [OF inv p, folded b_def]
  have w: "unat n \<le> unat w" "unat w mod 16 = 0" "0 < unat w" using size_round [OF n] by (simp_all add: w_def)
  have live: "\<not> (magic (hdr h b) \<noteq> MAGIC_ALLOC \<or> free (hdr h b))" using blk(3,4) by (simp add: block_ok_def)
  note rd = realloc_def [of c mm p n h, unfolded Let_def, folded b_def, folded w_def]
  note res = that
  have place: ?thesis
    if r: "realloc c mm p n h = Some (p, h')" "heap_inv h' bs'" "hmem h' = hmem h"
      "allocs h' bs' = (allocs h bs)(p := allocs h' bs' p)" "\<exists>cap'. allocs h' bs' p = Some cap' \<and> unat w \<le> cap'" for h' bs'
  proof -
    obtain cap' where c: "allocs h' bs' p = Some cap'" "unat w \<le> cap'" using r(5) by blast
    then have "allocs h' bs' = (allocs h bs)(p := None, p \<mapsto> cap')" using r(4) by simp
    then show ?thesis using res(2) [OF r(1,2)] c(2) w(1) r(3) by (simp add: keeps_bytes_same)
  qed
  consider (keep) "bsize (hdr h b) \<ge> w" "large (hdr h b)" | (shrink) "bsize (hdr h b) \<ge> w" "\<not> large (hdr h b)"
    | (grow) "\<not> bsize (hdr h b) \<ge> w" "grow_in_place b w h" | (move) "\<not> bsize (hdr h b) \<ge> w" "\<not> grow_in_place b w h"
    by blast
  then show ?thesis
  proof cases
    case keep
    then have "realloc c mm p n h = Some (p, h)" using rd n(1) blk(7,9) live by simp
    then show ?thesis using p blk(2) keep by (intro place [OF _ inv]) (auto simp: word_le_nat_alt)
  next
    case shrink
    let ?h' = "split_block b w h"
    have eq: "mark_alloc b ?h' = ?h'" by (rule resize_in_place [OF inv blk(1) shrink(2) blk(4) shrink(1) w(2,3)])
    obtain bs' where t: "heap_inv ?h' bs'" "hmem ?h' = hmem h" "allocs ?h' bs' = (allocs h bs)(p := allocs ?h' bs' p)"
      "\<exists>cap. allocs ?h' bs' p = Some cap \<and> unat w \<le> cap"
      using take_block [OF inv blk(1) shrink(2,1) w(2,3)] unfolding eq pb by blast
    have "realloc c mm p n h = Some (p, ?h')" using rd n(1) blk(7,9) live shrink by simp
    then show ?thesis using t by (rule place)
  next
    case grow
    have mg: "merges b h" "\<not> large (hdr h b)" "bsize (hdr h b) + header_bytes + bsize (hdr h (nxt (hdr h b))) \<ge> w"
      using grow(2) by (auto simp: grow_in_place_def merges_def Let_def)
    let ?h1 = "merge_next b h"
    obtain bs1 s' where m: "heap_inv ?h1 bs1" "set bs1 \<subseteq> set bs" "b \<in> set bs1"
      "\<And>c. c \<in> set bs - set bs1 \<Longrightarrow> free (hdr h c)" "\<And>c. c \<noteq> b \<Longrightarrow> core (hdr ?h1 c) = core (hdr h c)"
      "core (hdr ?h1 b) = core ((hdr h b)\<lparr>bsize := s'\<rparr>)"
      "merges b h \<Longrightarrow> s' = bsize (hdr h b) + header_bytes + bsize (hdr h (nxt (hdr h b)))" "hmem ?h1 = hmem h"
      by (rule merge_inv [OF inv blk(1) mg(2)]) blast
    have a1: "allocs ?h1 bs1 = (allocs h bs)(block_to_payload b := allocs ?h1 bs1 (block_to_payload b))"
      by (rule allocs_eqI) (use m(2,4) coreD [OF m(5)] in \<open>auto simp: in_use_def\<close>)
    have sz: "\<not> large (hdr ?h1 b)" "w \<le> bsize (hdr ?h1 b)" using coreD [OF m(6)] m(7) mg by simp_all
    let ?h' = "mark_alloc b (split_block b w ?h1)"
    obtain bs' where t: "heap_inv ?h' bs'" "hmem ?h' = hmem ?h1" "allocs ?h' bs' = (allocs ?h1 bs1)(p := allocs ?h' bs' p)"
      "\<exists>cap. allocs ?h' bs' p = Some cap \<and> unat w \<le> cap"
      using take_block [OF m(1,3) sz w(2,3)] unfolding pb by blast
    have "(allocs ?h1 bs1)(p := x) = (allocs h bs)(p := x)" for x
      using a1 unfolding pb by (metis fun_upd_upd)
    then have "allocs ?h' bs' = (allocs h bs)(p := allocs ?h' bs' p)" using t(3) by metis
    moreover have "realloc c mm p n h = Some (p, ?h')" using rd n(1) blk(7,9) live grow by simp
    ultimately show ?thesis using t m(8) by (intro place [of ?h' bs']) simp_all
  next
    case move
    show ?thesis
    proof (rule realloc_move [OF inv mm p n(1), where c = c, folded b_def])
      assume m: "malloc mm n h = Some (0, h)"
      then have "realloc c mm p n h = Some (0, h)" using rd n(1) blk(7,9) live move by simp
      then show ?thesis using m by (rule res(1))
    next
      fix np h1 h' bs' cap'
      assume m: "malloc mm n h = Some (np, h1)" "np \<noteq> 0" "bsize (hdr h1 b) = bsize (hdr h b)"
        "free_ptr p (h1\<lparr>hmem := fst (memcpy c (hmem h1) np p (if bsize (hdr h b) < n then bsize (hdr h b) else n))\<rparr>) = Some h'"
        and k: "heap_inv h' bs'" "allocs h' bs' = (allocs h bs)(p := None, np \<mapsto> cap')" "unat n \<le> cap'"
        "load_bytes (hmem h') np (min cap (unat n)) = load_bytes (hmem h) p (min cap (unat n))"
        "keeps_bytes h h' ((allocs h bs)(p := None))"
      have "realloc c mm p n h = Some (np, h')" using rd n(1) blk(7,9) live move m by (simp cong: if_cong)
      then show ?thesis using k by (rule res(2))
    qed
  qed
qed

section \<open>Zeroed and aligned allocation\<close>

lemma calloc_ok:
  assumes inv: "heap_inv h bs" and mm: "mmap_ok mm h"
  obtains p h' bs' where "calloc c mm k n h = Some (p, h')" "heap_inv h' bs'" "keeps_bytes h h' (allocs h bs)"
    "p = 0 \<and> h' = h \<and> bs' = bs \<or>
     (\<exists>cap. allocs h bs p = None \<and> allocs h' bs' = (allocs h bs)(p \<mapsto> cap) \<and> unat k * unat n \<le> cap \<and>
        load_bytes (hmem h') p (unat k * unat n) = replicate (unat k * unat n) 0)"
proof (cases "k = 0 \<or> n = 0 \<or> n > SIZE_MAX div k")
  case True
  then have "calloc c mm k n h = Some (0, h)" by (auto simp: calloc_def)
  from that [OF this inv] show ?thesis by (simp add: keeps_bytes_same)
next
  case False
  have k0: "0 < unat k" using False by (simp add: unat_gt_0)
  have "unat n \<le> (2 ^ 64 - 1) div unat k"
    using False by (simp add: not_less word_le_nat_alt unat_div unsigned_minus_1_eq_mask mask_eq_exp_minus_1)
  then have "unat k * unat n \<le> 2 ^ 64 - 1"
    by (metis div_times_less_eq_dividend le_trans mult.commute mult_le_mono2)
  then have t: "unat (k * n) = unat k * unat n" by (simp add: unat_word_ariths)
  obtain p h1 bs' where m: "malloc mm (k * n) h = Some (p, h1)" "heap_inv h1 bs'" "hmem h1 = hmem h"
    "p = 0 \<and> h1 = h \<and> bs' = bs \<or>
     (\<exists>cap. allocs h bs p = None \<and> allocs h1 bs' = (allocs h bs)(p \<mapsto> cap) \<and> unat (k * n) \<le> cap)"
    by (rule malloc_ok [OF inv mm, of "k * n"]) blast
  have r: "calloc c mm k n h = Some (p, if p \<noteq> 0 then h1\<lparr>hmem := fill (hmem h) p 0 (unat (k * n))\<rparr> else h1)"
    using False m(1,3) by (simp add: calloc_def Let_def memset_fill)
  show ?thesis
  proof (cases "p = 0 \<and> h1 = h \<and> bs' = bs")
    case True
    then show ?thesis using that [of 0 h bs] r inv by (simp add: keeps_bytes_same)
  next
    case False
    then obtain cap where a: "allocs h bs p = None" "allocs h1 bs' = (allocs h bs)(p \<mapsto> cap)" "unat (k * n) \<le> cap"
      using m(4) by blast
    have p1: "allocs h1 bs' p = Some cap" using a(2) by simp
    let ?h' = "h1\<lparr>hmem := fill (hmem h) p 0 (unat (k * n))\<rparr>"
    have "load_bytes (hmem ?h') r d = load_bytes (hmem h) r d" if "allocs h bs r = Some d" for r d
    proof -
      have r: "p \<noteq> r" "allocs h1 bs' r = Some d" using that a by auto
      have "load_bytes (fill (hmem h) p 0 (unat (k * n))) r d = load_bytes (hmem h) r d"
        using allocs_apart [OF m(2) p1 r(2,1)] a(3) by (intro load_bytes_fill_other) simp_all
      then show ?thesis by simp
    qed
    then have kb: "keeps_bytes h ?h' (allocs h bs)" by (simp add: keeps_bytes_def)
    have "load_bytes (hmem ?h') p (unat (k * n)) = replicate (unat (k * n)) 0"
      using unat_lt64 [of "k * n"] by (simp add: load_bytes_fill_same)
    then show ?thesis
      using that [of p ?h' bs', OF _ _ kb] r a m(2) allocs_block(7) [OF m(2) p1] t by auto
  qed
qed

lemma aligned_place:
  assumes k: "k < 64" "4 < k" and len: "64 + unat sz + 2 ^ k \<le> unat m" "unat a + unat m \<le> 2 ^ 64"
    and p: "p = align_up (a + 64) (2 ^ k)"
  shows "unat p mod 2 ^ k = 0"
    and "unat (p - 64) = unat p - 64" "unat (p - 64) mod 16 = 0"
    and "unat a \<le> unat p - 64" "64 \<le> unat p" "unat p + unat sz < unat a + unat m"
proof -
  have lt: "unat a + 64 + 2 ^ k \<le> 2 ^ 64" using len by linarith
  then have "unat a + 64 < 2 ^ 64" by (rule less_le_trans [rotated]) simp
  then have a64: "unat (a + 64) = unat a + 64" using unat_plus64 [of a 64] by simp
  have "unat (a + 64) + (2 ^ k - 1) < 2 ^ 64"
    using lt a64 zero_less_power [of "2 :: nat" k] by linarith
  note u = unat_align_up [OF k(1) this, unfolded a64, folded p]
  note rb = round_up_bounds [of "2 ^ k" "unat a + 64", folded u]
  show mod: "unat p mod 2 ^ k = 0" using rb(3) by simp
  show ge: "64 \<le> unat p" "unat a \<le> unat p - 64" using rb(1) by simp_all
  then show s: "unat (p - 64) = unat p - 64" by (simp add: unat_sub word_le_nat_alt)
  have "(2 :: nat) ^ 4 dvd 2 ^ k" using k(2) by (intro le_imp_power_dvd) simp
  moreover have "2 ^ k dvd unat p" using mod by (simp add: mod_eq_0_iff_dvd)
  ultimately have "2 ^ 4 dvd unat p" by (rule dvd_trans)
  then have "16 dvd unat p" by simp
  then show "unat (p - 64) mod 16 = 0" unfolding s by (intro dvd_imp_mod_0 dvd_diff_nat) simp_all
  show "unat p + unat sz < unat a + unat m" using rb(2) len(1) by simp
qed

lemma aligned_block:
  assumes inv: "heap_inv h bs" and mm: "mmap_ok mm h" "mm m = Some a" and sz: "sz \<noteq> 0"
    and p: "unat (p - 64) = unat p - 64" "unat (p - 64) mod 16 = 0" "unat a \<le> unat p - 64" "64 \<le> unat p"
      "unat p + unat sz < unat a + unat m"
    and b: "b = p - 64"
    and h': "h' = link_block b (upd b (\<lambda>x. x\<lparr>bsize := sz, map_base := a, map_size := m, magic := MAGIC_ALLOC,
                                    free := False, large := True\<rparr>) (h\<lparr>mapped := (a, m) # mapped h\<rparr>))"
  shows "heap_inv h' (b # bs)" and "hmem h' = hmem h" and "allocs h bs p = None"
    and "allocs h' (b # bs) = (allocs h bs)(p \<mapsto> unat sz)"
proof -
  have a: "a \<noteq> 0" "unat a + unat m \<le> 2 ^ 64" "\<forall>r \<in> set (mapped h). reg r \<inter> reg (a, m) = {}"
    using mm unfolding mmap_ok_def by blast+
  have ub: "unat b = unat p - 64" using b p by simp
  have inm: "unat b \<in> reg (a, m)" using p ub by (auto simp: reg_def)
  have fresh: "b \<notin> set bs" by (rule fresh_block [OF inv mm inm])
  have "0 < unat a" using a(1) by (simp add: unat_gt_0)
  then have b0: "b \<noteq> 0" using ub p(3) by (metis le_zero_eq not_gr_zero unsigned_0)
  have dl: "dl (hdr h) 0 (heap_head h) bs" and dist: "distinct bs" and lay: "layout (hdr h) (set bs) (set (mapped h))"
    using inv by (simp_all add: heap_inv_def)
  have ha: "heap_head h \<noteq> b" using fresh dl b0 by (cases bs) auto
  have core: "core (hdr h' c) = (if c = b then (sz, True, False, MAGIC_ALLOC, a, m) else core (hdr h c))" for c
    using ha by (simp add: h' link_block_hdr core_def set_prev_def)
  have x: "bsize (hdr h' b) = sz" "map_base (hdr h' b) = a" "map_size (hdr h' b) = m"
    "magic (hdr h' b) = MAGIC_ALLOC" "\<not> free (hdr h' b)" "large (hdr h' b)"
    using core [of b] by (simp_all add: core_def)
  have same: "core (hdr h' c) = core (hdr h c)" if "c \<in> set bs" for c using core that fresh by auto
  have dl1: "dl (hdr h') 0 (heap_head h') (b # bs)"
    unfolding h' link_block_hdr(2) using dl dist fresh b0 by (intro link_block_dl) simp_all
  have e: "unat b + 64 + unat sz \<le> unat a + unat m" using ub p by simp
  have ok: "block_ok (hdr h' b) b"
    unfolding block_ok_def x using x e a(2) p(2) b sz by (simp add: unat_gt_0)
  have "layout (hdr h') (insert b (set bs)) (insert (a, m) (set (mapped h)))"
    by (rule layout_new [OF lay fresh _ same ok]) (use a(3) x e ub p in \<open>auto simp: ext_def reg_def\<close>)
  then show "heap_inv h' (b # bs)" using dl1 dist fresh by (simp add: heap_inv_def h' link_block_hdr)
  show "hmem h' = hmem h" by (simp add: h' link_block_hdr)
  have pb: "p = block_to_payload b" by (simp add: b block_to_payload_def)
  show "allocs h bs p = None" unfolding pb allocs_at using fresh by (simp add: in_use_def)
  have "allocs h' (b # bs) = (allocs h bs)(block_to_payload b := allocs h' (b # bs) (block_to_payload b))"
    by (rule allocs_eqI) (use coreD [OF same] in \<open>auto simp: in_use_def\<close>)
  then show "allocs h' (b # bs) = (allocs h bs)(p \<mapsto> unat sz)"
    unfolding pb using x by (simp add: allocs_at in_use_def)
qed

lemma aligned_alloc_ok:
  assumes inv: "heap_inv h bs" and mm: "mmap_ok mm h"
  obtains p h' bs' where "aligned_alloc mm al sz h = Some (p, h')" "heap_inv h' bs'" "hmem h' = hmem h"
    "p = 0 \<and> h' = h \<and> bs' = bs \<or>
     (\<exists>cap. allocs h bs p = None \<and> allocs h' bs' = (allocs h bs)(p \<mapsto> cap) \<and> unat sz \<le> cap \<and> unat p mod unat al = 0)"
proof -
  note res = that
  note d = aligned_alloc_def [of mm al sz h]
  have fail: ?thesis if "aligned_alloc mm al sz h = Some (0, h)" using res [OF that inv] by simp
  define refuse where "refuse \<longleftrightarrow> (al < ALIGNMENT \<or> al AND (al - 1) \<noteq> 0) \<or> sz = 0 \<or> sz > SIZE_MAX - al - header_bytes"
  consider "refuse" | "\<not> refuse" "al \<le> ALIGNMENT" | "\<not> refuse" "\<not> al \<le> ALIGNMENT" by blast
  then show ?thesis
  proof cases
    case 1
    then show ?thesis using d by (intro fail) (auto simp: refuse_def)
  next
    case 2
    then have al: "al = 16" by (auto simp: refuse_def ALIGNMENT_def)
    have e: "aligned_alloc mm al sz h = malloc mm sz h" using d 2 by (auto simp: refuse_def)
    show ?thesis
    proof (rule malloc_ok [OF inv mm, of sz])
      fix p h' bs'
      assume m: "malloc mm sz h = Some (p, h')" "heap_inv h' bs'" "hmem h' = hmem h"
        "p = 0 \<and> h' = h \<and> bs' = bs \<or>
         (\<exists>cap. allocs h bs p = None \<and> allocs h' bs' = (allocs h bs)(p \<mapsto> cap) \<and> unat sz \<le> cap)"
      have "unat p mod 16 = 0" if "allocs h' bs' = (allocs h bs)(p \<mapsto> cap)" for cap
        using allocs_block(6) [OF m(2), of p cap] that by simp
      then show ?thesis using res [OF _ m(2,3)] m(1,4) e al by auto
    qed
  next
    case 3
    have "al AND (al - 1) = 0" "al \<noteq> 0" using 3 by (auto simp: refuse_def)
    then obtain k where k: "k < 64" "al = 2 ^ k" by (rule power_of_two)
    have "(2 :: nat) ^ k < 2 ^ 64" using k(1) by (rule power_strict_increasing) simp
    then have al: "unat al = 2 ^ k" using unat_of_nat64 [of "2 ^ k"] k by simp
    have "16 < unat al" using 3(2) by (simp add: ALIGNMENT_def not_le word_less_nat_alt)
    then have "(2 :: nat) ^ 4 < 2 ^ k" using al by simp
    then have k4: "4 < k" by (rule power_less_imp_less_exp [rotated]) simp
    have sz: "sz \<noteq> 0" using 3(1) by (simp add: refuse_def)
    define tot where "tot = Option.bind (checked_add header_bytes sz) (\<lambda>t. checked_add t al)"
    show ?thesis
    proof (cases "\<exists>t a. tot = Some t \<and> mm (align_up t PAGE_SIZE) = Some a")
      case False
      then have "aligned_alloc mm al sz h = Some (0, h)"
        using d 3 by (auto simp: refuse_def tot_def [symmetric] Let_def split: option.splits)
      then show ?thesis by (rule fail)
    next
      case True
      then obtain t a where t: "tot = Some t" "mm (align_up t PAGE_SIZE) = Some a" by blast
      let ?m = "align_up t PAGE_SIZE"
      have m: "?m \<noteq> 0" "unat a + unat ?m \<le> 2 ^ 64" using mm t(2) unfolding mmap_ok_def by blast+
      have "unat t = 64 + unat sz + unat al"
        using t(1) by (auto simp: tot_def bind_eq_Some_conv dest!: checked_add_unat)
      then have len: "64 + unat sz + 2 ^ k \<le> unat ?m" using page_align(1) [OF m(1)] al by simp
      define p where "p = align_up (a + 64) al"
      note pl = aligned_place [OF k(1) k4 len m(2) p_def [unfolded k(2)]]
      note blk = aligned_block [OF inv mm t(2) sz pl(2,3,4,5,6) refl refl]
      have "aligned_alloc mm al sz h = Some (p, link_block (p - 64)
          (upd (p - 64) (\<lambda>x. x\<lparr>bsize := sz, map_base := a, map_size := ?m, magic := MAGIC_ALLOC,
             free := False, large := True\<rparr>) (h\<lparr>mapped := (a, ?m) # mapped h\<rparr>)))"
        using d 3 t by (auto simp: refuse_def tot_def [symmetric] Let_def p_def align_up_def)
      from res [OF this blk(1,2)] show ?thesis using blk(3,4) pl(1) al by auto
    qed
  qed
qed

section \<open>Copies of strings and C++ objects\<close>

lemma strdup_ok:
  assumes inv: "heap_inv h bs" and mm: "mmap_ok mm h" and s: "cstr (hmem h) s k"
    and own: "allocs h bs r = Some d" "unat r \<le> unat s" "unat s + k < unat r + d"
  obtains "strdup c mm s h = Some (0, h)"
  | p h' bs' cap where "strdup c mm s h = Some (p, h')" "heap_inv h' bs'" "allocs h bs p = None"
    "allocs h' bs' = (allocs h bs)(p \<mapsto> cap)" "k < cap" "cstr (hmem h') p k"
    "load_bytes (hmem h') p k = load_bytes (hmem h) s k" "keeps_bytes h h' (allocs h bs)"
proof -
  note res = that
  have rd: "unat r + d \<le> 2 ^ 64" by (rule allocs_block(5) [OF inv own(1)])
  then have k64: "k + 1 < 2 ^ 64" using own(2,3) allocs_block(7) [OF inv own(1)] unat_gt_0 [of r] by linarith
  have len: "unat (of_nat k + 1 :: u64) = k + 1" using k64 unat_of_nat64 [of "k + 1"] by (simp add: add.commute)
  obtain p h1 bs' where m: "malloc mm (of_nat k + 1) h = Some (p, h1)" "heap_inv h1 bs'" "hmem h1 = hmem h"
    "p = 0 \<and> h1 = h \<and> bs' = bs \<or>
     (\<exists>cap. allocs h bs p = None \<and> allocs h1 bs' = (allocs h bs)(p \<mapsto> cap) \<and> unat (of_nat k + 1 :: u64) \<le> cap)"
    by (rule malloc_ok [OF inv mm, of "of_nat k + 1"]) blast
  show ?thesis
  proof (cases "p = 0 \<and> h1 = h \<and> bs' = bs")
    case True
    then show ?thesis using m(1) strlen_cstr [OF s, of c] by (intro res(1)) (simp add: strdup_def)
  next
    case False
    then obtain cap where a: "allocs h bs p = None" "allocs h1 bs' = (allocs h bs)(p \<mapsto> cap)" "k + 1 \<le> cap"
      using m(4) len by auto
    have p1: "allocs h1 bs' p = Some cap" and r1: "allocs h1 bs' r = Some d" and ne: "p \<noteq> r" using a own(1) by auto
    note ap = allocs_apart [OF m(2) p1 r1 ne] and ap' = allocs_apart [OF m(2) r1 p1 ne [symmetric]]
    have pc: "unat p + cap \<le> 2 ^ 64" "p \<noteq> 0" using allocs_block(5,7) [OF m(2) p1] .
    have "unat p + cap \<le> unat r \<or> unat r + d \<le> unat p"
      using ap' pc(1) a(3) by (auto simp: unat_sub64 split: if_splits)
    then have "k + 1 \<le> unat (p - s)" using own(2,3) pc(1) unat_lt64 [of s] rd a(3) by (auto simp: unat_sub64)
    then have "fwd_ok p s (unat (of_nat k + 1 :: u64))" unfolding len using k64 by (simp add: fwd_ok_def)
    note cp = memcpy_blit [OF this, unfolded len]
    let ?h' = "h1\<lparr>hmem := blit (hmem h) p s (k + 1)\<rparr>"
    have r: "strdup c mm s h = Some (p, ?h')"
      using m(1,3) pc(2) strlen_cstr [OF s, of c] cp by (simp add: strdup_def)
    have copy: "load_bytes (hmem ?h') p (k + 1) = load_bytes (hmem h) s (k + 1)"
      using load_bytes_blit_same [of "k + 1" "hmem h" p s] k64 by simp
    then have at: "hmem ?h' (p + of_nat i) = hmem h (s + of_nat i)" if "i < k + 1" for i
      using arg_cong [OF copy, of "\<lambda>l. l ! i"] that by (simp add: load_bytes_def del: upt_Suc)
    then have str: "cstr (hmem ?h') p k" using s by (simp add: cstr_def)
    have "load_bytes (hmem ?h') p k = load_bytes (hmem h) s k" using at by (simp add: load_bytes_def)
    moreover have "keeps_bytes h ?h' (allocs h bs)"
      unfolding keeps_bytes_def
    proof (intro allI impI)
      fix q e assume q: "allocs h bs q = Some e"
      then have q1: "allocs h1 bs' q = Some e" "p \<noteq> q" using a by auto
      from allocs_apart [OF m(2) p1 q1] show "load_bytes (hmem ?h') q e = load_bytes (hmem h) q e"
        using load_bytes_blit_other [of "k + 1" q p e "hmem h" s] a(3) by simp
    qed
    ultimately show ?thesis using res(2) [OF r _ a(1) _ _ str] m(2) a by simp
  qed
qed

text \<open>\<^verbatim>\<open>operator new\<close> never returns null: an object of at least one byte, or the program stops.\<close>

lemma operator_new_ok:
  assumes "heap_inv h bs" and "mmap_ok mm h" and "operator_new mm n h = Some (p, h')"
  shows "\<exists>bs' cap. heap_inv h' bs' \<and> hmem h' = hmem h \<and> p \<noteq> 0 \<and> allocs h bs p = None \<and>
    allocs h' bs' = (allocs h bs)(p \<mapsto> cap) \<and> unat n \<le> cap \<and> 0 < cap"
proof -
  let ?n = "if n \<noteq> 0 then n else 1"
  obtain q h1 bs' where m: "malloc mm ?n h = Some (q, h1)" "heap_inv h1 bs'" "hmem h1 = hmem h"
    "q = 0 \<and> h1 = h \<and> bs' = bs \<or>
     (\<exists>cap. allocs h bs q = None \<and> allocs h1 bs' = (allocs h bs)(q \<mapsto> cap) \<and> unat ?n \<le> cap)"
    by (rule malloc_ok [OF assms(1,2), of ?n]) blast
  then have q: "q \<noteq> 0" "p = q" "h' = h1" using assms(3) by (auto simp: operator_new_def split: if_splits)
  have "0 < unat ?n" "unat n \<le> unat ?n" by (simp_all add: unat_gt_0)
  then show ?thesis using m(2-4) q by (metis (no_types, lifting) le_trans less_le_trans)
qed

section \<open>Programs\<close>

text \<open>
  \<open>program h L\<close>: the heap \<open>h\<close> arises from calls of the library and writes of the
  program to its own objects, \<open>L\<close> being the objects the program holds with the sizes it asked
  for. It frees, deletes and resizes only what it holds, duplicates strings inside objects it
  holds, and never resizes to one of the sizes that wrap to 0 when rounded up (see
  \<open>realloc_wraps\<close>).
\<close>

inductive program :: "heap \<Rightarrow> (addr \<rightharpoonup> nat) \<Rightarrow> bool" where
  prog_start: "program \<lparr>hdr = H, heap_head = 0, hmem = m, mapped = ms\<rparr> Map.empty"
| prog_malloc: "program h L \<Longrightarrow> mmap_ok mm h \<Longrightarrow> malloc mm n h = Some (p, h') \<Longrightarrow>
    program h' (if p = 0 then L else L(p \<mapsto> unat n))"
| prog_calloc: "program h L \<Longrightarrow> mmap_ok mm h \<Longrightarrow> calloc c mm k n h = Some (p, h') \<Longrightarrow>
    program h' (if p = 0 then L else L(p \<mapsto> unat k * unat n))"
| prog_aligned_alloc: "program h L \<Longrightarrow> mmap_ok mm h \<Longrightarrow> aligned_alloc mm al n h = Some (p, h') \<Longrightarrow>
    program h' (if p = 0 then L else L(p \<mapsto> unat n))"
| prog_free: "program h L \<Longrightarrow> p \<in> dom L \<Longrightarrow> free_ptr p h = Some h' \<Longrightarrow> program h' (L(p := None))"
| prog_realloc: "program h L \<Longrightarrow> mmap_ok mm h \<Longrightarrow> p \<in> dom L \<Longrightarrow> n \<le> SIZE_MAX - ALIGNMENT + 1 \<Longrightarrow>
    realloc c mm p n h = Some (q, h') \<Longrightarrow>
    program h' (if n = 0 then L(p := None) else if q = 0 then L else L(p := None, q \<mapsto> unat n))"
| prog_strdup: "program h L \<Longrightarrow> mmap_ok mm h \<Longrightarrow> cstr (hmem h) s k \<Longrightarrow>
    L r = Some d \<Longrightarrow> unat r \<le> unat s \<Longrightarrow> unat s + k < unat r + d \<Longrightarrow>
    strdup c mm s h = Some (p, h') \<Longrightarrow> program h' (if p = 0 then L else L(p \<mapsto> k + 1))"
| prog_new: "program h L \<Longrightarrow> mmap_ok mm h \<Longrightarrow> operator_new mm n h = Some (p, h') \<Longrightarrow> program h' (L(p \<mapsto> unat n))"
| prog_delete: "program h L \<Longrightarrow> p \<in> dom L \<Longrightarrow> operator_delete p h = Some h' \<Longrightarrow> program h' (L(p := None))"
| prog_write: "program h L \<Longrightarrow> L p = Some n \<Longrightarrow> i < n \<Longrightarrow> program (h\<lparr>hmem := (hmem h)(p + of_nat i := v)\<rparr>) L"

definition holds :: "heap \<Rightarrow> addr list \<Rightarrow> (addr \<rightharpoonup> nat) \<Rightarrow> bool" where
  "holds h bs L \<longleftrightarrow> heap_inv h bs \<and> dom L = dom (allocs h bs) \<and>
     (\<forall>p n. L p = Some n \<longrightarrow> (\<exists>cap. allocs h bs p = Some cap \<and> n \<le> cap))"

lemma holds_add:
  assumes "holds h bs L" and "heap_inv h' bs'" and "allocs h' bs' = (allocs h bs)(p \<mapsto> cap)" and "n \<le> cap"
  shows "holds h' bs' (L(p \<mapsto> n))"
  using assms by (auto simp: holds_def)

lemma holds_del:
  assumes "holds h bs L" and "heap_inv h' bs'" and "allocs h' bs' = (allocs h bs)(p := None)"
  shows "holds h' bs' (L(p := None))"
  using assms by (auto simp: holds_def)

lemma holds_move:
  assumes "holds h bs L" and "heap_inv h' bs'" and "allocs h' bs' = (allocs h bs)(p := None, q \<mapsto> cap)" and "n \<le> cap"
  shows "holds h' bs' (L(p := None, q \<mapsto> n))"
  using assms by (auto simp: holds_def)

lemma holds_alloc:
  assumes H: "holds h bs L" and "heap_inv h' bs'"
    and "p = 0 \<and> h' = h \<and> bs' = bs \<or> (\<exists>cap. allocs h' bs' = (allocs h bs)(p \<mapsto> cap) \<and> n \<le> cap)"
  shows "holds h' bs' (if p = 0 then L else L(p \<mapsto> n))"
proof (cases "p = 0 \<and> h' = h \<and> bs' = bs")
  case False
  then obtain cap where a: "allocs h' bs' = (allocs h bs)(p \<mapsto> cap)" "n \<le> cap" using assms(3) by blast
  then have "p \<noteq> 0" using allocs_block(7) [OF assms(2), of p cap] by simp
  then show ?thesis using holds_add [OF H assms(2) a] by simp
qed (use H in simp)

lemma program_holds: "program h L \<Longrightarrow> \<exists>bs. holds h bs L"
proof (induction rule: program.induct)
  case (prog_start H m ms)
  have "holds \<lparr>hdr = H, heap_head = 0, hmem = m, mapped = ms\<rparr> [] Map.empty"
    by (auto simp: holds_def heap_inv_def layout_def allocs_def Let_def)
  then show ?case by blast
next
  case (prog_malloc h L mm n p h')
  then obtain bs where H: "holds h bs L" by blast
  then have inv: "heap_inv h bs" by (simp add: holds_def)
  obtain p1 h1 bs1 where "malloc mm n h = Some (p1, h1)" and k: "heap_inv h1 bs1"
    "p1 = 0 \<and> h1 = h \<and> bs1 = bs \<or> (\<exists>cap. allocs h1 bs1 = (allocs h bs)(p1 \<mapsto> cap) \<and> unat n \<le> cap)"
    by (rule malloc_ok [OF inv prog_malloc.hyps(2), of n]) blast
  then have "p1 = p" "h1 = h'" using prog_malloc.hyps(3) by simp_all
  then show ?case using holds_alloc [OF H k] by blast
next
  case (prog_calloc h L mm c k n p h')
  then obtain bs where H: "holds h bs L" by blast
  then have inv: "heap_inv h bs" by (simp add: holds_def)
  obtain p1 h1 bs1 where "calloc c mm k n h = Some (p1, h1)" and k: "heap_inv h1 bs1"
    "p1 = 0 \<and> h1 = h \<and> bs1 = bs \<or> (\<exists>cap. allocs h1 bs1 = (allocs h bs)(p1 \<mapsto> cap) \<and> unat k * unat n \<le> cap)"
    by (rule calloc_ok [OF inv prog_calloc.hyps(2), where c = c and k = k and n = n]) blast
  then have "p1 = p" "h1 = h'" using prog_calloc.hyps(3) by simp_all
  then show ?case using holds_alloc [OF H k] by blast
next
  case (prog_aligned_alloc h L mm al n p h')
  then obtain bs where H: "holds h bs L" by blast
  then have inv: "heap_inv h bs" by (simp add: holds_def)
  obtain p1 h1 bs1 where "aligned_alloc mm al n h = Some (p1, h1)" and k: "heap_inv h1 bs1"
    "p1 = 0 \<and> h1 = h \<and> bs1 = bs \<or> (\<exists>cap. allocs h1 bs1 = (allocs h bs)(p1 \<mapsto> cap) \<and> unat n \<le> cap)"
    by (rule aligned_alloc_ok [OF inv prog_aligned_alloc.hyps(2), where al = al and sz = n]) blast
  then have "p1 = p" "h1 = h'" using prog_aligned_alloc.hyps(3) by simp_all
  then show ?case using holds_alloc [OF H k] by blast
next
  case (prog_free h L p h')
  then obtain bs where H: "holds h bs L" by blast
  then obtain cap where inv: "heap_inv h bs" and p: "allocs h bs p = Some cap" using prog_free by (auto simp: holds_def)
  obtain h1 bs1 where "free_ptr p h = Some h1" and k: "heap_inv h1 bs1" "allocs h1 bs1 = (allocs h bs)(p := None)"
    by (rule free_ok [OF inv p]) blast
  then have "h1 = h'" using prog_free.hyps(3) by simp
  then show ?case using holds_del [OF H k] by blast
next
  case (prog_realloc h L mm p n c q h')
  then obtain bs where H: "holds h bs L" by blast
  then obtain cap where inv: "heap_inv h bs" and p: "allocs h bs p = Some cap" using prog_realloc by (auto simp: holds_def)
  show ?case
  proof (cases "n = 0")
    case True
    obtain h1 bs1 where f: "free_ptr p h = Some h1" and k: "heap_inv h1 bs1" "allocs h1 bs1 = (allocs h bs)(p := None)"
      by (rule free_ok [OF inv p]) blast
    have "realloc c mm p n h = Some (0, h1)" using True f allocs_block(7) [OF inv p] by (simp add: realloc_def)
    then have "h1 = h'" using prog_realloc.hyps(5) by simp
    then show ?thesis using holds_del [OF H k] True by (auto simp del: fun_upd_apply)
  next
    case False
    show ?thesis
    proof (rule realloc_ok [OF inv prog_realloc.hyps(2) p False prog_realloc.hyps(4), where c = c])
      assume "realloc c mm p n h = Some (0, h)"
      then show ?thesis using prog_realloc.hyps(5) H False by auto
    next
      fix q1 h1 bs1 cap1
      assume a: "realloc c mm p n h = Some (q1, h1)" "heap_inv h1 bs1"
        "allocs h1 bs1 = (allocs h bs)(p := None, q1 \<mapsto> cap1)" "unat n \<le> cap1"
      have "q1 \<noteq> 0" using allocs_block(7) [OF a(2), of q1 cap1] a(3) by simp
      moreover have "q1 = q" "h1 = h'" using a(1) prog_realloc.hyps(5) by simp_all
      ultimately show ?thesis using holds_move [OF H a(2-4)] False by (auto simp del: fun_upd_apply)
    qed
  qed
next
  case (prog_strdup h L mm s k r d c p h')
  then obtain bs where H: "holds h bs L" by blast
  then obtain e where inv: "heap_inv h bs" and r: "allocs h bs r = Some e" "d \<le> e"
    using prog_strdup.hyps(4) unfolding holds_def by blast
  then have room: "unat s + k < unat r + e" using prog_strdup.hyps(6) by linarith
  show ?case
  proof (rule strdup_ok [OF inv prog_strdup.hyps(2,3) r(1) prog_strdup.hyps(5) room, where c = c])
    assume "strdup c mm s h = Some (0, h)"
    then show ?thesis using prog_strdup.hyps(7) H by auto
  next
    fix p1 h1 bs1 cap1
    assume a: "strdup c mm s h = Some (p1, h1)" "heap_inv h1 bs1" "allocs h1 bs1 = (allocs h bs)(p1 \<mapsto> cap1)" "k < cap1"
    have "p1 \<noteq> 0" using allocs_block(7) [OF a(2), of p1 cap1] a(3) by simp
    moreover have "p1 = p" "h1 = h'" using a(1) prog_strdup.hyps(7) by simp_all
    ultimately show ?thesis using holds_add [OF H a(2,3), of "k + 1"] a(4) by (auto simp del: fun_upd_apply)
  qed
next
  case (prog_new h L mm n p h')
  then obtain bs where H: "holds h bs L" by blast
  then have inv: "heap_inv h bs" by (simp add: holds_def)
  obtain bs1 cap where "heap_inv h' bs1" "allocs h' bs1 = (allocs h bs)(p \<mapsto> cap)" "unat n \<le> cap"
    using operator_new_ok [OF inv prog_new.hyps(2,3)] by blast
  then show ?case using holds_add [OF H] by blast
next
  case (prog_delete h L p h')
  then obtain bs where H: "holds h bs L" by blast
  then obtain cap where inv: "heap_inv h bs" and p: "allocs h bs p = Some cap" using prog_delete by (auto simp: holds_def)
  obtain h1 bs1 where "free_ptr p h = Some h1" and k: "heap_inv h1 bs1" "allocs h1 bs1 = (allocs h bs)(p := None)"
    by (rule free_ok [OF inv p]) blast
  then have "h1 = h'" using prog_delete.hyps(3) by (simp add: operator_delete_def)
  then show ?case using holds_del [OF H k] by blast
next
  case (prog_write h L p n i v)
  then show ?case by (auto simp: holds_def)
qed

section \<open>Success\<close>

lemma block_payload_nonzero:
  assumes "unat b + 64 + unat sz \<le> 2 ^ 64" and "0 < unat sz"
  shows "block_to_payload b \<noteq> 0"
proof -
  have "unat (b + 64) = unat b + 64" using assms unat_plus64 [of b 64] by simp
  then show ?thesis by (metis add_is_0 block_to_payload_def unsigned_0 zero_neq_numeral)
qed

text \<open>The length that is mapped for a request is little more than the request.\<close>

lemma mapping_length:
  assumes n: "n \<noteq> 0" "unat n \<le> 2 ^ 63"
    and len: "\<forall>len. unat n \<le> unat len \<and> unat len \<le> unat n + 2 ^ 17 \<longrightarrow> mm len \<noteq> None"
    and sz: "sz = align_up n ALIGNMENT"
  obtains need where "checked_add header_bytes sz = Some need"
    "mm (if \<not> lrg \<and> align_up need PAGE_SIZE < ARENA_SIZE then ARENA_SIZE else align_up need PAGE_SIZE) \<noteq> None"
proof -
  have "unat n + (2 ^ 4 - 1) < 2 ^ 64" using n(2) by simp
  then have s: "unat sz = (unat n + (2 ^ 4 - 1)) div 2 ^ 4 * 2 ^ 4" using unat_align_up [of 4 n] sz by (simp add: ALIGNMENT_def)
  then have ub: "unat n \<le> unat sz" "unat sz < unat n + 16" using round_up_bounds [of "2 ^ 4" "unat n"] by simp_all
  define need where "need = 64 + sz"
  have need: "unat need = 64 + unat sz" using unat_plus64 [of 64 sz] ub n(2) by (simp add: need_def)
  have "unat (SIZE_MAX - sz) = 2 ^ 64 - 1 - unat sz"
    using unat_sub [of sz "SIZE_MAX"] by (simp add: unsigned_minus_1_eq_mask mask_eq_exp_minus_1)
  then have ca: "checked_add header_bytes sz = Some need"
    using ub n(2) by (simp add: checked_add_def need_def word_less_nat_alt)
  let ?m = "align_up need PAGE_SIZE"
  have "unat need + (2 ^ 12 - 1) < 2 ^ 64" using need ub n(2) by simp
  then have m: "unat ?m = (unat need + (2 ^ 12 - 1)) div 2 ^ 12 * 2 ^ 12" using unat_align_up [of 12 need] by (simp add: PAGE_SIZE_def)
  then have mb: "unat need \<le> unat ?m" "unat ?m < unat need + 4096" using round_up_bounds [of "2 ^ 12" "unat need"] by simp_all
  show ?thesis
  proof (cases "\<not> lrg \<and> ?m < ARENA_SIZE")
    case True
    then have "unat ?m < 65536" by (simp add: ARENA_SIZE_def word_less_nat_alt)
    then have "mm ARENA_SIZE \<noteq> None" using len mb need ub by (simp add: ARENA_SIZE_def)
    then show ?thesis using that [OF ca] True by simp
  next
    case False
    have "mm ?m \<noteq> None" using len mb need ub by simp
    then show ?thesis using that [OF ca] False by simp
  qed
qed

lemma malloc_succeeds:
  assumes inv: "heap_inv h bs" and mm: "mmap_ok mm h" and n: "n \<noteq> 0" "unat n \<le> 2 ^ 63"
    and len: "\<forall>len. unat n \<le> unat len \<and> unat len \<le> unat n + 2 ^ 17 \<longrightarrow> mm len \<noteq> None"
    and r: "malloc mm n h = Some (p, h')"
  shows "p \<noteq> 0"
proof -
  define sz where "sz = align_up n ALIGNMENT"
  define lrg where "lrg = (sz \<ge> LARGE_LIMIT)"
  have le: "\<not> n > SIZE_MAX - ALIGNMENT + 1" using n(2) by (simp add: ALIGNMENT_def word_less_nat_alt not_less)
  have sz: "0 < unat sz" using size_round(3) [of n] n(1) le by (simp add: sz_def not_less)
  obtain b0 where b0: "(if lrg then Some 0 else find_free sz h) = Some b0" "b0 = 0 \<or> b0 \<in> set bs"
    using find_free_ok [of h 0 "heap_head h" bs sz] inv by (cases lrg) (auto simp: heap_inv_def find_free_def)
  obtain b h1 where nm: "(if b0 = 0 then new_mapping mm sz lrg h else (b0, h)) = (b, h1)" by (metis surj_pair)
  have m: "malloc mm n h = (if b = 0 then Some (0, h1)
      else Some (block_to_payload b, mark_alloc b (if \<not> lrg then split_block b sz h1 else h1)))"
    using n(1) le b0(1) nm by (simp add: malloc_def sz_def [symmetric] lrg_def [symmetric])
  show ?thesis
  proof (cases "b0 = 0")
    case False
    then have b: "b = b0" "b \<noteq> 0" "block_ok (hdr h b) b" using nm b0(2) inv by (auto simp: heap_inv_def layout_def)
    then have "block_to_payload b \<noteq> 0" by (intro block_payload_nonzero [of b "bsize (hdr h b)"]) (simp_all add: block_ok_def)
    then show ?thesis using m r b by simp
  next
    case True
    then have nm': "new_mapping mm sz lrg h = (b, h1)" using nm by simp
    have "b \<noteq> 0"
    proof (rule mapping_length [OF n len sz_def, where lrg = lrg])
      fix need assume k: "checked_add header_bytes sz = Some need"
        "mm (if \<not> lrg \<and> align_up need PAGE_SIZE < ARENA_SIZE then ARENA_SIZE else align_up need PAGE_SIZE) \<noteq> None"
      then obtain a where "mm (if \<not> lrg \<and> align_up need PAGE_SIZE < ARENA_SIZE then ARENA_SIZE else align_up need PAGE_SIZE) = Some a"
        by blast
      then show ?thesis using nm' k(1) mm unfolding new_mapping_def Let_def mmap_ok_def by auto
    qed
    then have f: "fresh_mapping h bs b sz lrg h1" using new_mapping_ok [OF inv mm sz lrg_def nm'] by simp
    then have "block_to_payload b \<noteq> 0"
      by (intro block_payload_nonzero [of b "bsize (hdr h1 b)"]) (simp_all add: fresh_mapping_def Let_def)
    then show ?thesis using m r \<open>b \<noteq> 0\<close> by simp
  qed
qed

section \<open>Properties\<close>

text \<open>
  A size within 15 of the largest wraps to 0 when \<^verbatim>\<open>realloc\<close> rounds it: the call keeps the
  old block, which is too small, and reports success.
\<close>

lemma realloc_wraps:
  assumes inv: "heap_inv h bs" and p: "allocs h bs p = Some cap" and n: "n > SIZE_MAX - ALIGNMENT + 1"
  shows "\<exists>h'. realloc c mm p n h = Some (p, h')"
proof -
  note blk = allocs_block [OF inv p]
  have "2 ^ 64 - 16 < unat n" using n by (simp add: ALIGNMENT_def word_less_nat_alt)
  then have "unat (n + 15) = unat n + 15 - 2 ^ 64" using unat_lt64 [of n] by (simp add: unat_plus_if_size word_size)
  then have "unat ((n + 15) AND NOT (2 ^ 4 - 1)) = 0"
    using unat_round [of 4 "n + 15"] unat_lt64 [of n] by simp
  then have w: "align_up n ALIGNMENT = 0" by (simp add: align_up_def ALIGNMENT_def unat_eq_0 add_diff_eq [symmetric])
  have n0: "n \<noteq> 0" using n by auto
  show ?thesis using blk w n0 by (auto simp: realloc_def Let_def block_ok_def)
qed

text \<open>No two of the mappings share a byte.\<close>

definition pairwise_apart :: "(addr \<times> u64) list \<Rightarrow> bool" where
  "pairwise_apart ms \<longleftrightarrow> (\<forall>m \<in> set ms. \<forall>m' \<in> set ms. m \<noteq> m' \<longrightarrow> reg m \<inter> reg m' = {})"

lemma pairwise_apartD: "pairwise_apart ms \<Longrightarrow> m \<in> set ms \<Longrightarrow> i \<in> reg m \<Longrightarrow> m' \<in> set ms \<Longrightarrow> m' \<noteq> m \<Longrightarrow> i \<notin> reg m'"
  by (auto simp: pairwise_apart_def)

text \<open>
  Three heaps for the examples: nothing allocated yet, one block of 32 bytes in use, and the same
  with the block in a mapping of its own.
\<close>

definition demo_header :: block_header where
  "demo_header = \<lparr>bsize = 32, prev = 0, nxt = 0, map_base = 0x1000, map_size = 0x1000, magic = MAGIC_ALLOC,
     free = False, large = False\<rparr>"

definition demo_empty :: heap where
  "demo_empty = \<lparr>hdr = (\<lambda>_. demo_header), heap_head = 0, hmem = (\<lambda>_. 0), mapped = []\<rparr>"

definition demo_one :: heap where
  "demo_one = \<lparr>hdr = (\<lambda>_. demo_header), heap_head = 0x1000, hmem = ucast, mapped = [(0x1000, 0x1000)]\<rparr>"

definition demo_large :: heap where
  "demo_large = demo_one\<lparr>hdr := (\<lambda>_. demo_header\<lparr>large := True\<rparr>)\<rparr>"

definition demo_mmap :: "u64 \<Rightarrow> addr option" where
  "demo_mmap len = (if len \<noteq> 0 \<and> len \<le> 0x100000 then Some 0x10000000 else None)"

lemma demo_empty_inv: "heap_inv demo_empty []" "mmap_ok demo_mmap demo_empty"
  by (auto simp: heap_inv_def layout_def demo_empty_def mmap_ok_def demo_mmap_def word_le_nat_alt split: if_splits)

lemma demo_mmap_some: "\<forall>len. unat (100 :: u64) \<le> unat len \<and> unat len \<le> unat (100 :: u64) + 2 ^ 17 \<longrightarrow> demo_mmap len \<noteq> None"
  by (auto simp: demo_mmap_def word_le_nat_alt)

lemma demo_one_inv: "heap_inv demo_one [0x1000]" "allocs demo_one [0x1000] 0x1040 = Some 32"
  by (auto simp: heap_inv_def layout_def demo_one_def demo_header_def block_ok_def ext_def reg_def allocs_def
      payload_to_block_def)

lemma demo_large_inv: "heap_inv demo_large [0x1000]" "allocs demo_large [0x1000] 0x1040 = Some 32"
  by (auto simp: heap_inv_def layout_def own_map_def demo_large_def demo_one_def demo_header_def block_ok_def
      ext_def reg_def allocs_def payload_to_block_def)

text \<open>
  C37: \<^verbatim>\<open>malloc\<close> always returns. Either it refuses and the heap is as before, or the object
  it returns is 16-byte aligned, has room for the request, overlaps no object in use, and becomes
  the one more object in use; no byte of memory changes and the block list stays well formed. For a
  request of at most 2^63 bytes it refuses only if \<^verbatim>\<open>mmap\<close> refuses a length within 128 KiB
  above the request.
\<close>

theorem malloc_correct:
  assumes "heap_inv h bs" and "mmap_ok mm h"
  shows "\<exists>p h' bs'. malloc mm n h = Some (p, h') \<and> heap_inv h' bs' \<and> hmem h' = hmem h \<and>
    (if p = 0 then h' = h
     else unat p mod 16 = 0 \<and> (\<exists>cap. allocs h bs p = None \<and> allocs h' bs' = (allocs h bs)(p \<mapsto> cap) \<and>
       unat n \<le> cap \<and> unat p + cap \<le> 2 ^ 64 \<and>
       (\<forall>q d. allocs h bs q = Some d \<longrightarrow> {unat p..<unat p + cap} \<inter> {unat q..<unat q + d} = {}))) \<and>
    (n \<noteq> 0 \<and> unat n \<le> 2 ^ 63 \<and> (\<forall>len. unat n \<le> unat len \<and> unat len \<le> unat n + 2 ^ 17 \<longrightarrow> mm len \<noteq> None) \<longrightarrow> p \<noteq> 0)"
proof -
  obtain p h' bs' where m: "malloc mm n h = Some (p, h')" "heap_inv h' bs'" "hmem h' = hmem h"
    "p = 0 \<and> h' = h \<and> bs' = bs \<or>
     (\<exists>cap. allocs h bs p = None \<and> allocs h' bs' = (allocs h bs)(p \<mapsto> cap) \<and> unat n \<le> cap)"
    by (rule malloc_ok [OF assms, of n]) blast
  have s: "n \<noteq> 0 \<and> unat n \<le> 2 ^ 63 \<and> (\<forall>len. unat n \<le> unat len \<and> unat len \<le> unat n + 2 ^ 17 \<longrightarrow> mm len \<noteq> None) \<longrightarrow> p \<noteq> 0"
    using malloc_succeeds [OF assms _ _ _ m(1)] by blast
  show ?thesis
  proof (cases "p = 0 \<and> h' = h \<and> bs' = bs")
    case True
    then show ?thesis using m s by (intro exI [of _ p] exI [of _ h'] exI [of _ bs']) simp
  next
    case False
    then obtain cap where a: "allocs h bs p = None" "allocs h' bs' = (allocs h bs)(p \<mapsto> cap)" "unat n \<le> cap" using m(4) by blast
    then have pc: "allocs h' bs' p = Some cap" by simp
    have "{unat p..<unat p + cap} \<inter> {unat q..<unat q + d} = {}" if "allocs h bs q = Some d" for q d
    proof -
      have "p \<noteq> q" using that a(1) by auto
      then show ?thesis using that a(2) by (intro allocs_disjoint [OF m(2) pc]) simp_all
    qed
    then show ?thesis
      using m s a allocs_block(5-7) [OF m(2) pc] by (intro exI [of _ p] exI [of _ h'] exI [of _ bs']) auto
  qed
qed

theorem malloc_correct_witness:
  "heap_inv demo_empty [] \<and> mmap_ok demo_mmap demo_empty \<and> (\<exists>p h'. malloc demo_mmap 100 demo_empty = Some (p, h') \<and> p \<noteq> 0)"
  using malloc_correct [OF demo_empty_inv, of 100] demo_empty_inv demo_mmap_some by auto

text \<open>
  C36: Programs that free and resize only what they hold are safe: each object a program holds is
  16-byte aligned, inside mapped memory, disjoint from every other object it holds, and can be freed
  without the library aborting, whatever calls of \<^verbatim>\<open>malloc\<close>, \<^verbatim>\<open>calloc\<close>, \<^verbatim>\<open>aligned_alloc\<close>,
  \<^verbatim>\<open>realloc\<close>, \<^verbatim>\<open>free\<close>, \<^verbatim>\<open>strdup\<close>, \<^verbatim>\<open>new\<close> and \<^verbatim>\<open>delete\<close> and writes to its own objects came before. The
  one size restriction is on \<^verbatim>\<open>realloc\<close>: the program does not ask for one of the 15 largest sizes,
  which \<^verbatim>\<open>realloc\<close>, unlike \<^verbatim>\<open>malloc\<close>, rounds to 0 without a check.
\<close>

theorem program_safe:
  assumes "program h L" and "L p = Some n"
  shows "unat p mod 16 = 0 \<and> {unat p..<unat p + n} \<subseteq> \<Union> (reg ` set (mapped h)) \<and>
    (\<forall>q k. L q = Some k \<longrightarrow> q \<noteq> p \<longrightarrow> {unat p..<unat p + n} \<inter> {unat q..<unat q + k} = {}) \<and>
    (\<exists>h'. free_ptr p h = Some h' \<and> program h' (L(p := None)))"
proof -
  obtain bs where H: "holds h bs L" using program_holds [OF assms(1)] by blast
  then have inv: "heap_inv h bs" by (simp add: holds_def)
  obtain cap where p: "allocs h bs p = Some cap" "n \<le> cap" using H assms(2) unfolding holds_def by blast
  note blk = allocs_block [OF inv p(1)]
  have "ext (hdr h (payload_to_block p)) (payload_to_block p) \<subseteq> \<Union> (reg ` set (mapped h))"
    using inv blk(1) by (auto simp: heap_inv_def layout_def)
  then have m: "{unat p..<unat p + n} \<subseteq> \<Union> (reg ` set (mapped h))" using blk(8) p(2) by fastforce
  have d: "{unat p..<unat p + n} \<inter> {unat q..<unat q + k} = {}" if q: "L q = Some k" "q \<noteq> p" for q k
  proof -
    obtain e where e: "allocs h bs q = Some e" "k \<le> e" using H q(1) unfolding holds_def by blast
    have "{unat p..<unat p + cap} \<inter> {unat q..<unat q + e} = {}" using allocs_disjoint [OF inv p(1) e(1)] q(2) by auto
    then show ?thesis using p(2) e(2) by (auto simp: disjoint_iff)
  qed
  obtain h' where f: "free_ptr p h = Some h'" by (rule free_ok [OF inv p(1)]) blast
  have "program h' (L(p := None))" using prog_free [OF assms(1) _ f] assms(2) by auto
  then show ?thesis using blk(6) m d f by blast
qed

theorem program_safe_witness:
  "\<exists>h p. program h [p \<mapsto> 100] \<and> (\<exists>h'. free_ptr p h = Some h' \<and> program h' Map.empty)"
proof -
  obtain p h where m: "malloc demo_mmap 100 demo_empty = Some (p, h)"
    by (rule malloc_ok [OF demo_empty_inv, of 100]) blast
  then have "p \<noteq> 0" using malloc_succeeds [OF demo_empty_inv _ _ demo_mmap_some m] by simp
  moreover have "program demo_empty Map.empty" unfolding demo_empty_def by (rule prog_start)
  ultimately have pr: "program h [p \<mapsto> 100]" using prog_malloc [OF _ demo_empty_inv(2) m] by auto
  then show ?thesis using program_safe [OF pr, of p 100] by auto
qed

text \<open>
  C39: Freeing an object twice in a row does not corrupt the heap: the first \<^verbatim>\<open>free\<close> of an object in
  use succeeds and the second stops the program. For a block carved from an arena the header is
  still mapped and carries the mark of a free block, so the check aborts; for a large or specially
  aligned block the first \<^verbatim>\<open>free\<close> has unmapped the header, and the second faults when it reads it
  before it comes to the check. The mappings of the process are taken not to overlap.
\<close>

theorem free_twice_stops:
  assumes inv: "heap_inv h bs" and p: "allocs h bs p = Some cap"
    and maps: "pairwise_apart (mapped h)"
  shows "\<exists>h'. free_ptr p h = Some h' \<and> free_ptr p h' = None \<and>
    (let b = payload_to_block p in
     if large (hdr h b) then \<not> header_mapped h' b else header_mapped h' b \<and> magic (hdr h' b) = MAGIC_FREE)"
proof -
  let ?b = "payload_to_block p"
  obtain h' where f: "free_ptr p h = Some h'" by (rule free_ok [OF inv p]) blast
  note blk = allocs_block [OF inv p] and fm = free_marks [OF f allocs_block(7) [OF inv p]]
  have "free_ptr p h' = None" using fm(1) blk(7) by (simp add: free_ptr_def Let_def MAGIC_ALLOC_def MAGIC_FREE_def)
  moreover have "\<not> header_mapped h' ?b" if l: "large (hdr h ?b)"
  proof -
    let ?m = "(map_base (hdr h ?b), map_size (hdr h ?b))"
    have own: "?m \<in> set (mapped h)" "unat ?b \<in> reg ?m"
      using inv blk(1) l ext_self [of ?b "hdr h ?b"] by (auto simp: heap_inv_def layout_def own_map_def Let_def)
    then have "unat ?b \<notin> \<Union> (reg ` (set (mapped h) - {?m}))"
      using pairwise_apartD [OF maps own(1)] by blast
    moreover have "unat ?b \<in> {unat ?b..<unat ?b + 64}" by simp
    moreover have "set (mapped h') = set (mapped h) - {?m}" using fm(2) l by simp
    ultimately show ?thesis unfolding header_mapped_iff by blast
  qed
  moreover have "header_mapped h' ?b" if "\<not> large (hdr h ?b)"
    using blk(9) fm(2) that by (simp add: header_mapped_iff)
  ultimately show ?thesis using f fm(1) by (simp add: Let_def)
qed

text \<open>A block of an arena, and a block with a mapping of its own.\<close>

theorem free_twice_stops_witness:
  "(\<exists>h'. free_ptr 0x1040 demo_one = Some h' \<and> free_ptr 0x1040 h' = None \<and> header_mapped h' 0x1000) \<and>
   (\<exists>h'. free_ptr 0x1040 demo_large = Some h' \<and> free_ptr 0x1040 h' = None \<and> \<not> header_mapped h' 0x1000)"
proof -
  have apart: "pairwise_apart (mapped demo_one)" "pairwise_apart (mapped demo_large)"
    by (simp_all add: pairwise_apart_def demo_one_def demo_large_def)
  have "\<not> large (hdr demo_one 0x1000)" "large (hdr demo_large 0x1000)" "payload_to_block 0x1040 = 0x1000"
    by (simp_all add: demo_one_def demo_large_def demo_header_def payload_to_block_def)
  then show ?thesis
    using free_twice_stops [OF demo_one_inv apart(1)] free_twice_stops [OF demo_large_inv apart(2)]
    by (simp add: Let_def) blast
qed

text \<open>
  C38: \<^verbatim>\<open>realloc\<close> of an object in use to a size that can be rounded up without wrapping either
  gives 0 and leaves everything as it was, which happens only when \<^verbatim>\<open>malloc\<close> does, or returns an
  object with room for the new size that holds the old bytes up to the smaller size. The old
  pointer is no longer in use unless it is the one returned, every other object stays where it is
  with its bytes unchanged, and the block list stays well formed. This holds whichever of the four
  ways is taken: keeping, cutting, growing into the next block, or moving.
\<close>

theorem realloc_correct:
  assumes "heap_inv h bs" and "mmap_ok mm h" and "allocs h bs p = Some cap"
    and "n \<noteq> 0" and "n \<le> SIZE_MAX - ALIGNMENT + 1"
  shows "(realloc c mm p n h = Some (0, h) \<and> malloc mm n h = Some (0, h)) \<or>
    (\<exists>q h' bs' cap'. realloc c mm p n h = Some (q, h') \<and> q \<noteq> 0 \<and> heap_inv h' bs' \<and>
       allocs h' bs' = (allocs h bs)(p := None, q \<mapsto> cap') \<and> unat n \<le> cap' \<and>
       load_bytes (hmem h') q (min cap (unat n)) = load_bytes (hmem h) p (min cap (unat n)) \<and>
       (\<forall>r d. r \<noteq> p \<longrightarrow> allocs h bs r = Some d \<longrightarrow> load_bytes (hmem h') r d = load_bytes (hmem h) r d))"
proof (rule realloc_ok [OF assms, where c = c])
  assume "realloc c mm p n h = Some (0, h)" "malloc mm n h = Some (0, h)"
  then show ?thesis by simp
next
  fix q h' bs' cap'
  assume r: "realloc c mm p n h = Some (q, h')" "heap_inv h' bs'"
    "allocs h' bs' = (allocs h bs)(p := None, q \<mapsto> cap')" "unat n \<le> cap'"
    "load_bytes (hmem h') q (min cap (unat n)) = load_bytes (hmem h) p (min cap (unat n))"
    "keeps_bytes h h' ((allocs h bs)(p := None))"
  have "q \<noteq> 0" using allocs_block(7) [OF r(2), of q cap'] r(3) by simp
  moreover have "\<forall>r d. r \<noteq> p \<longrightarrow> allocs h bs r = Some d \<longrightarrow> load_bytes (hmem h') r d = load_bytes (hmem h) r d"
    using r(6) by (simp add: keeps_bytes_def)
  ultimately show ?thesis using r(1-5) by blast
qed

theorem realloc_correct_witness:
  "heap_inv demo_one [0x1000] \<and> mmap_ok (\<lambda>_. None) demo_one \<and>
   (\<exists>q h'. realloc plain_cpu (\<lambda>_. None) 0x1040 20 demo_one = Some (q, h') \<and> q \<noteq> 0 \<and>
      load_bytes (hmem h') q 20 = load_bytes (hmem demo_one) 0x1040 20)"
proof -
  have mm: "mmap_ok (\<lambda>_. None) demo_one" by (simp add: mmap_ok_def)
  have e: "\<exists>h'. realloc plain_cpu (\<lambda>_. None) 0x1040 20 demo_one = Some (0x1040, h')"
    by (simp add: realloc_def demo_one_def demo_header_def payload_to_block_def align_up_def ALIGNMENT_def header_mapped_def list_all_iff)
  show ?thesis using realloc_correct [OF demo_one_inv(1) mm demo_one_inv(2), of 20 plain_cpu] mm demo_one_inv(1) e
    by (auto simp: ALIGNMENT_def)
qed

end
