(* ===== verification/Spec2Isabelle.thy ===== *)
theory Spec2Isabelle
  imports Libc_Memory Libc_Strings Libc_Stdlib Printf Kernel_String Fd_Table Chacha_Rng Workqueue Boot_Options Tmpfs_Dir Keyboard_Drivers Libc_Malloc
begin

text \<open>
  A verification library for RHKernel, a kernel for x86-64 with its own C library, loadable
  modules and user programs.

  \<^bold>\<open>The program.\<close> The kernel proper is \<^verbatim>\<open>src/src/impl/x86_64\<close>: memory management, the scheduler
  and work queue (\<^verbatim>\<open>smp\<close>), file descriptors, the virtual file system and program loading
  (\<^verbatim>\<open>file\<close>), the system calls, and the services exported to modules (\<^verbatim>\<open>module\<close>). Drivers and
  file systems are modules under \<^verbatim>\<open>src/src/module\<close>, which see the kernel only through those
  services. User programs under \<^verbatim>\<open>src/src/user\<close> are linked with the C library
  \<^verbatim>\<open>src/src/libc\<close>, which reaches the kernel by system calls. The components below interact as
  follows: the memory and string routines are used by everything; the descriptor table is
  changed by the system calls and by task creation and exit; the work queue and the wait queues
  carry control between interrupt handlers and tasks; the keyboard core wakes its readers through
  wait queues; tmpfs and the descriptor table sit below and above the virtual file system.

  \<^bold>\<open>Conventions.\<close> Machine integers are words of their width and wrap as in C; memory is a function
  from 64-bit addresses to bytes. Structures reached by pointers are a store from
  addresses to records. The answers of code outside a component (allocators, the clock, the
  processor, a comparison function) are arguments of the definitions that use them. A section
  of code under a lock is one definition, so histories are sequences of such sections. A loop
  that runs until it finds something is a \<open>partial_function (option)\<close>, so that \<open>None\<close> is the
  outcome of a run that does not end; where an operation follows pointers into a store,
  \<open>None\<close> is also the access to an object that is no longer there. Loops with a
  bound are total functions with a termination proof. No fuel is used.

  \<^bold>\<open>The theories.\<close>
  \<^item> \<open>Prelude\<close>: words, memory, loads and stores, closed forms of copying, filling and searching,
    C strings, and the bit tricks on words of bytes.
  \<^item> \<open>Libc_Memory\<close>, \<open>Libc_Strings\<close>: \<^verbatim>\<open>src/src/libc/src/string.c\<close>, with the byte, word, SSE2, AVX
    and AVX2 paths as separate definitions. Shown: every path equals the closed form for all
    alignments, overlaps and processors; the string functions return on every C string
    with the result the C standard gives them. The locale \<open>mem_ops\<close> is the contract of the
    four memory routines.
  \<^item> \<open>Libc_Stdlib\<close>: \<^verbatim>\<open>ctype.c\<close> and \<^verbatim>\<open>stdlib.c\<close>; number parsing is the clamped value of the digits,
    \<open>bsearch\<close> finds an equal element exactly when there is one, \<open>qsort\<close> sorts and permutes.
  \<^item> \<open>Printf\<close>: \<open>vsnprintf\<close> of the C library (\<^verbatim>\<open>stdio.c\<close>) and of the kernel (\<^verbatim>\<open>string.cpp\<close>), both
    instances of the locale \<open>bounded_sink\<close>: the output stays in the buffer, is terminated, and
    the result is the full length; a number printed into a buffer is read back by \<open>strtoul\<close>; a
    kernel format that ends inside a conversion is overrun.
  \<^item> \<open>Kernel_String\<close>: the memory and string routines of \<^verbatim>\<open>src/src/impl/x86_64/string.cpp\<close>, a second
    instance of \<open>mem_ops\<close>; the two libraries agree.
  \<^item> \<open>Fd_Table\<close>: \<^verbatim>\<open>file/fd.cpp\<close>, with the descriptor parts of \<^verbatim>\<open>syscall.cpp\<close> and
    \<^verbatim>\<open>smp/scheduler.cpp\<close>. A task's table is its array, bitmap and hint; open files are a store
    with reference counts. Shown: reference counts are exact in every reachable state and no
    freed file is touched; \<open>alloc_fd\<close> returns the lowest free descriptor from the hint on, and
    one below it only when there is no other; \<open>dup2\<close> aliases exactly one descriptor.
  \<^item> \<open>Chacha_Rng\<close>: \<^verbatim>\<open>security/random.cpp\<close>; output is a prefix of the key stream, the key is
    replaced after every request, requests return once the time-stamp counter moves, and the rounds
    are a permutation.
  \<^item> \<open>Linked\<close>, \<open>Queues\<close>: linked lists in a store and the contract \<open>fifo\<close> of a queue.
  \<^item> \<open>Workqueue\<close>: \<^verbatim>\<open>smp/workqueue.cpp\<close> and \<^verbatim>\<open>module/completion.cpp\<close>, an instance of \<open>fifo\<close>; work runs
    in the order queued and once, the worker drains the queue, the timer moves exactly the due
    items, and a completion used by one task at a time loses no wake-up between the test and the
    sleep. Two lemmas show how a second waiter and a reset lose one.
  \<^item> \<open>Boot_Options\<close>: \<^verbatim>\<open>boot_options.cpp\<close>; the parser is the fold of its options over the tokens, within
    the bounds of its arrays, and rejects a second root.
  \<^item> \<open>Tmpfs\<close>, \<open>Tmpfs_Dir\<close>: \<^verbatim>\<open>src/src/module/tmpfs/src/tmpfs.c\<close>. Files refine byte lists under read,
    write and truncate; directories refine maps from names to nodes; as long as no call names a freed node
    the tree is well formed and the quota counter is the memory in use. Unlink frees the node
    of a file that is still open, and later accesses to it are shown to touch freed memory.
  \<^item> \<open>Wait_Queue\<close>: the wait queues of \<^verbatim>\<open>module/scheduler.cpp\<close>, the lock sections and the scheduler calls after
    them as separate steps; no wake-up is lost.
  \<^item> \<open>Keyboard\<close>: \<^verbatim>\<open>src/src/module/kbd_core/src/kbd_core.c\<close>; the event ring is an instance of \<open>fifo\<close> as
    long as the reader keeps up and otherwise counts what was lost; for every history of a device
    the events of each key alternate.
  \<^item> \<open>Rounding\<close>: rounding to a power of two and the other word facts the allocators share.
  \<^item> \<open>Libc_Malloc\<close>: \<^verbatim>\<open>src/src/libc/src/malloc.c\<close>, \<^verbatim>\<open>strdup\<close> and the C++ operators. Headers are a store of
    records beside the memory of the string theories; the invariant says that the block list is a
    doubly linked list without repetition and that the blocks are disjoint pieces of mapped memory.
    Every call keeps it, and programs that free only what they hold get disjoint, aligned objects;
    a second free of an object aborts, or faults when the first has unmapped its header;
    what \<^verbatim>\<open>mmap\<close> returns is an argument.
  \<^item> \<open>Keyboard_Drivers\<close>: \<^verbatim>\<open>src/src/module/usb_hid_kbd/src/usb_hid_kbd.c\<close> and \<^verbatim>\<open>src/src/module/ps2_kbd/src/ps2_kbd.c\<close>
    over the keyboard core: after every history of USB transfers the keys the core takes for held are
    those of the last report, for all usages the driver sends as codes of their own.

  \<^bold>\<open>Bounds.\<close> Hypotheses of the theorems keep objects inside the address space (a buffer or string
  does not wrap around the end of memory, fewer than \<open>2 ^ 64\<close> events or bytes occur); each is
  shown to be satisfiable by a witness.

  \<^bold>\<open>Not modelled.\<close> Physical and virtual memory, the kernel heap, context switching, interrupt
  controllers and assembly, because their meaning is that of the processor's own structures;
  drivers for storage, USB, PCI and displays, which exchange registers and memory with devices;
  the disk file systems, the device framework, the virtual file system's node cache, program
  and module loading, and the system calls other than those above, which are within reach of the same
  methods but not done; the system-call wrappers and user programs. Of the modelled files, logging,
  registration of drivers and files, and the memory ordering of the locks are left out.
\<close>

end
